(* ===== verification/Prelude.thy ===== *)
theory Prelude
  imports Main "HOL-Library.Word"
begin

section \<open>Machine integers, byte regions and shared automation\<close>

text \<open>
  What every component of the development shares: the C integer conversions of the 32-bit
  ARM kernel the drivers are built for (\<open>int\<close>, \<open>unsigned long\<close> and \<open>size_t\<close> have 32 bits,
  \<open>loff_t\<close> has 64), C's truncating division, the overwriting of a region of a byte
  list, and the decimal printing used by the status files. The conversions are written out
  on the type of integers; a byte is an 8-bit word.
\<close>

named_theorems cconv "conversions between C integer types, inside their ranges"
named_theorems region "the effect of overwriting a region of a list"

type_synonym byte = "8 word"

subsection \<open>Conversions\<close>

definition u32 :: "int \<Rightarrow> int" where
  "u32 x = x mod 4294967296"

definition s32 :: "int \<Rightarrow> int" where
  "s32 x = (x + 2147483648) mod 4294967296 - 2147483648"

definition s64 :: "int \<Rightarrow> int" where
  "s64 x = (x + 9223372036854775808) mod 18446744073709551616 - 9223372036854775808"

lemma u32_id [simp, cconv]: "0 \<le> x \<Longrightarrow> x < 4294967296 \<Longrightarrow> u32 x = x"
  by (simp add: u32_def)

lemma s32_id [simp, cconv]: "- 2147483648 \<le> x \<Longrightarrow> x < 2147483648 \<Longrightarrow> s32 x = x"
  by (simp add: s32_def)

lemma s64_id [simp, cconv]:
  "- 9223372036854775808 \<le> x \<Longrightarrow> x < 9223372036854775808 \<Longrightarrow> s64 x = x"
  by (simp add: s64_def)

lemma u32_nonneg [simp]: "0 \<le> u32 x"
  by (simp add: u32_def)

lemma u32_less [simp]: "u32 x < 4294967296"
  by (simp add: u32_def)

lemma s32_lower [simp]: "- 2147483648 \<le> s32 x"
  by (simp add: s32_def)

lemma s32_upper [simp]: "s32 x < 2147483648"
proof -
  have "(x + 2147483648) mod 4294967296 < 4294967296" by simp
  then show ?thesis unfolding s32_def by linarith
qed

lemma u32_neg: "- 4294967296 \<le> x \<Longrightarrow> x < 0 \<Longrightarrow> u32 x = x + 4294967296"
proof -
  assume x: "- 4294967296 \<le> x" "x < 0"
  have "u32 x = (x + 4294967296) mod 4294967296" by (simp add: u32_def)
  also have "\<dots> = x + 4294967296" using x by (intro mod_pos_pos_trivial) auto
  finally show ?thesis .
qed

subsection \<open>Division that truncates towards zero\<close>

definition cdiv :: "int \<Rightarrow> int \<Rightarrow> int" where
  "cdiv a b = sgn a * sgn b * (\<bar>a\<bar> div \<bar>b\<bar>)"

definition crem :: "int \<Rightarrow> int \<Rightarrow> int" where
  "crem a b = a - b * cdiv a b"

lemma cdiv_nonneg [simp, cconv]: "0 \<le> a \<Longrightarrow> 0 < b \<Longrightarrow> cdiv a b = a div b"
  by (cases "a = 0") (simp_all add: cdiv_def sgn_if)

lemma crem_nonneg [simp, cconv]: "0 \<le> a \<Longrightarrow> 0 < b \<Longrightarrow> crem a b = a mod b"
  by (simp add: crem_def minus_mult_div_eq_mod)

lemma crem_less: "0 < b \<Longrightarrow> crem a b < b"
proof (cases "0 \<le> a")
  case False
  assume "0 < b"
  then have "cdiv a b = - (- a div b)" using False by (simp add: cdiv_def sgn_if)
  then have "crem a b = - (- a mod b)" by (simp add: crem_def minus_div_mult_eq_mod [symmetric] mult.commute)
  moreover have "0 \<le> - a mod b" using \<open>0 < b\<close> by simp
  ultimately show ?thesis using \<open>0 < b\<close> by linarith
qed simp

subsection \<open>Places in a circular array\<close>

lemma mod_shift_neq:
  assumes "i < j" "j < (n :: nat)"
  shows "(h + i) mod n \<noteq> (h + j) mod n"
proof
  assume "(h + i) mod n = (h + j) mod n"
  then have "n dvd (h + j) - (h + i)"
    using assms mod_eq_dvd_iff_nat [of "h + i" "h + j" n] by simp
  moreover have "(h + j) - (h + i) = j - i" "0 < j - i" "j - i < n" using assms by simp_all
  ultimately show False by (simp add: nat_dvd_not_less)
qed

lemma mod_shift_inj: "i < n \<Longrightarrow> j < n \<Longrightarrow> (h + i) mod n = (h + j) mod (n :: nat) \<longleftrightarrow> i = j"
  using mod_shift_neq [of i j n h] mod_shift_neq [of j i n h] by (cases i j rule: linorder_cases) auto

subsection \<open>Overwriting a region of a list\<close>

definition blit :: "'a list \<Rightarrow> nat \<Rightarrow> 'a list \<Rightarrow> 'a list" where
  "blit xs i ys = take i xs @ ys @ drop (i + length ys) xs"

lemma blit_Nil [simp, region]: "blit xs i [] = xs"
  by (simp add: blit_def)

lemma length_blit [simp, region]:
  "i + length ys \<le> length xs \<Longrightarrow> length (blit xs i ys) = length xs"
  by (simp add: blit_def)

lemma nth_blit [region]:
  assumes "i + length ys \<le> length xs" and "k < length xs"
  shows "blit xs i ys ! k = (if i \<le> k \<and> k < i + length ys then ys ! (k - i) else xs ! k)"
  using assms by (auto simp: blit_def nth_append min_def)

text \<open>Reading inside and outside the region, where the list may have been extended to reach it.\<close>

lemma nth_blit_hit:
  assumes "i + length ys \<le> length (blit xs i ys)" and "i \<le> k" and "k < i + length ys"
  shows "blit xs i ys ! k = ys ! (k - i)"
proof -
  have "i \<le> length xs" using assms by (simp add: blit_def)
  moreover have "k - i < length ys" using assms(2,3) by linarith
  ultimately show ?thesis using assms(2) by (simp add: blit_def nth_append)
qed

lemma nth_blit_miss:
  assumes "k < length xs" and "k < i \<or> i + length ys \<le> k"
  shows "blit xs i ys ! k = xs ! k"
proof (cases "k < i")
  case True
  then show ?thesis using assms(1) by (simp add: blit_def nth_append)
next
  case False
  then have "i + length ys \<le> k" using assms(2) by simp
  moreover from this have "\<not> k - i < length ys" by linarith
  ultimately show ?thesis using assms(1) by (simp add: blit_def nth_append min_absorb2)
qed

lemma blit_append_left [region]:
  "i + length ys \<le> length xs \<Longrightarrow> blit (xs @ zs) i ys = blit xs i ys @ zs"
  by (simp add: blit_def)

lemma blit_append_right [region]:
  "length xs \<le> i \<Longrightarrow> blit (xs @ zs) i ys = xs @ blit zs (i - length xs) ys"
  by (simp add: blit_def)

lemma blit_append_across [region]:
  assumes "i \<le> length xs" and "length as = length xs - i"
  shows "blit (xs @ zs) i (as @ bs) = blit xs i as @ blit zs 0 bs"
proof -
  have "i + (length as + length bs) = length xs + length bs" using assms by simp
  then show ?thesis using assms by (simp add: blit_def)
qed

lemma take_drop_blit [region]:
  assumes "i + length ys \<le> length xs"
  shows "take (length ys) (drop i (blit xs i ys)) = ys"
  using assms by (simp add: blit_def)

text \<open>Two writes to disjoint regions commute, and a write hides an earlier one below it.\<close>

lemma blit_same [region]:
  assumes "length ys = length zs" and "i + length ys \<le> length xs"
  shows "blit (blit xs i ys) i zs = blit xs i zs"
  using assms by (intro nth_equalityI) (auto simp: nth_blit)

lemma blit_commute:
  assumes "i + length ys \<le> j" and "j + length zs \<le> length xs"
  shows "blit (blit xs i ys) j zs = blit (blit xs j zs) i ys"
  using assms by (intro nth_equalityI) (auto simp: nth_blit)

subsection \<open>Decimal output\<close>

definition digit_char :: "nat \<Rightarrow> char" where
  "digit_char n = char_of (48 + n)"

fun show_nat :: "nat \<Rightarrow> string" where
  "show_nat n = (if n < 10 then [digit_char n] else show_nat (n div 10) @ [digit_char (n mod 10)])"

declare show_nat.simps [simp del]

definition show_int :: "int \<Rightarrow> string" where
  "show_int i = (if i < 0 then CHR ''-'' # show_nat (nat (- i)) else show_nat (nat i))"

lemma show_nat_nonempty: "show_nat n \<noteq> []"
  by (subst show_nat.simps) simp

subsection \<open>Numbers as text\<close>

text \<open>What the scanners of the kernel and of the C library take for space and for digits.\<close>

definition is_digit :: "char \<Rightarrow> bool" where
  "is_digit c \<longleftrightarrow> 48 \<le> (of_char c :: nat) \<and> (of_char c :: nat) \<le> 57"

definition is_space :: "char \<Rightarrow> bool" where
  "is_space c \<longleftrightarrow> c \<in> {CHR '' '', CHR 0x09, CHR 0x0A, CHR 0x0B, CHR 0x0C, CHR 0x0D}"

definition digit_val :: "char \<Rightarrow> nat" where
  "digit_val c = of_char c - 48"

definition digits_val :: "string \<Rightarrow> nat" where
  "digits_val ds = foldl (\<lambda>n c. 10 * n + digit_val c) 0 ds"

lemma of_char_digit [simp]: "d < 10 \<Longrightarrow> (of_char (digit_char d) :: nat) = 48 + d"
  by (simp add: digit_char_def)

lemma digit_char_props [simp]:
  assumes "d < 10"
  shows "is_digit (digit_char d)" "digit_val (digit_char d) = d"
  using assms by (simp_all add: is_digit_def digit_val_def)

lemma digits_val_snoc [simp]: "digits_val (ds @ [c]) = 10 * digits_val ds + digit_val c"
  by (simp add: digits_val_def)

end
