(* ===== verification/Kernel.thy ===== *)
theory Kernel
  imports Prelude
begin

unbundle bit_operations_syntax

section \<open>The kernel services the drivers call\<close>

text \<open>
  The drivers are clients of the Linux kernel. This theory holds the part of the kernel that
  they use, as arguments of the drivers' operations and not as code of its own:
  the allocator is a supply of answers (\<open>kmem\<close>), a copy to or from user space is an oracle
  that says how many bytes the kernel manages to copy (\<open>uaccess\<close>), and what the interfaces
  document about their results is written out below. The constants are those of the kernel
  headers for the 32-bit ARM board.
\<close>

subsection \<open>Constants\<close>

abbreviation (input) PAGE_SIZE :: int where "PAGE_SIZE \<equiv> 4096"
abbreviation (input) EINTR :: int where "EINTR \<equiv> 4"
abbreviation (input) ENOMEM :: int where "ENOMEM \<equiv> 12"
abbreviation (input) EACCES :: int where "EACCES \<equiv> 13"
abbreviation (input) EFAULT :: int where "EFAULT \<equiv> 14"
abbreviation (input) EBUSY :: int where "EBUSY \<equiv> 16"
abbreviation (input) EINVAL :: int where "EINVAL \<equiv> 22"
abbreviation (input) ENOTTY :: int where "ENOTTY \<equiv> 25"
abbreviation (input) ERESTARTSYS :: int where "ERESTARTSYS \<equiv> 512"

abbreviation (input) SEEK_SET :: int where "SEEK_SET \<equiv> 0"
abbreviation (input) SEEK_CUR :: int where "SEEK_CUR \<equiv> 1"
abbreviation (input) SEEK_END :: int where "SEEK_END \<equiv> 2"

abbreviation (input) O_RDONLY :: "32 word" where "O_RDONLY \<equiv> 0"
abbreviation (input) O_WRONLY :: "32 word" where "O_WRONLY \<equiv> 1"
abbreviation (input) O_RDWR :: "32 word" where "O_RDWR \<equiv> 2"
abbreviation (input) O_ACCMODE :: "32 word" where "O_ACCMODE \<equiv> 3"

text \<open>The fields of an ioctl number: the command in the low byte, the type above it.\<close>

definition IOC_NR :: "32 word \<Rightarrow> 32 word" where
  "IOC_NR cmd = cmd AND 255"

definition IOC_TYPE :: "32 word \<Rightarrow> 32 word" where
  "IOC_TYPE cmd = (drop_bit 8 cmd) AND 255"

subsection \<open>Memory\<close>

text \<open>
  The allocator answers from a supply: \<open>kmallocs\<close> holds the answers of the coming
  \<open>kmalloc\<close> calls and \<open>page_allocs\<close> those of the coming \<open>alloc_page\<close> calls; a supply that
  has run out is a machine that has run out of memory. A page comes with its frame number
  and with whatever bytes it held before (\<open>GFP_KERNEL\<close> does not clear it). The counters
  say how many nodes and pages are allocated and not yet freed.
\<close>

type_synonym frame = "nat \<times> byte list"

record kmem =
  kmallocs :: "bool list"
  page_allocs :: "frame option list"
  live_nodes :: int
  live_pages :: int

definition kmalloc :: "kmem \<Rightarrow> bool \<times> kmem" where
  "kmalloc k = (case kmallocs k of
     [] \<Rightarrow> (False, k)
   | ok # rest \<Rightarrow> (ok, k\<lparr>kmallocs := rest, live_nodes := live_nodes k + (if ok then 1 else 0)\<rparr>))"

definition alloc_page :: "kmem \<Rightarrow> frame option \<times> kmem" where
  "alloc_page k = (case page_allocs k of
     [] \<Rightarrow> (None, k)
   | None # rest \<Rightarrow> (None, k\<lparr>page_allocs := rest\<rparr>)
   | Some p # rest \<Rightarrow> (Some p, k\<lparr>page_allocs := rest, live_pages := live_pages k + 1\<rparr>))"

definition kfree :: "kmem \<Rightarrow> kmem" where
  "kfree k = k\<lparr>live_nodes := live_nodes k - 1\<rparr>"

definition free_page :: "kmem \<Rightarrow> kmem" where
  "free_page k = k\<lparr>live_pages := live_pages k - 1\<rparr>"

text \<open>
  What the drivers rely on: a page has \<open>PAGE_SIZE\<close> bytes, and a frame that is handed out is
  not one that is in use or that was handed out before.
\<close>

definition supplied :: "kmem \<Rightarrow> frame list" where
  "supplied k = List.map_filter id (page_allocs k)"

definition kmem_ok :: "nat set \<Rightarrow> kmem \<Rightarrow> bool" where
  "kmem_ok used k \<longleftrightarrow>
     (\<forall>p \<in> set (supplied k). length (snd p) = nat PAGE_SIZE \<and> fst p \<notin> used) \<and>
     distinct (map fst (supplied k))"

text \<open>\<open>n\<close> more nodes with their pages can be had.\<close>

definition mem_available :: "nat \<Rightarrow> kmem \<Rightarrow> bool" where
  "mem_available n k \<longleftrightarrow>
     n \<le> length (kmallocs k) \<and> n \<le> length (page_allocs k) \<and>
     (\<forall>i < n. kmallocs k ! i) \<and> (\<forall>i < n. page_allocs k ! i \<noteq> None)"

lemma kmalloc_shrinks: "fst (kmalloc k) \<Longrightarrow> length (kmallocs (snd (kmalloc k))) < length (kmallocs k)"
  by (auto simp: kmalloc_def split: list.splits)

lemma alloc_page_kmallocs [simp]: "kmallocs (snd (alloc_page k)) = kmallocs k"
  by (auto simp: alloc_page_def split: list.splits option.splits)

lemma kmalloc_page_allocs [simp]: "page_allocs (snd (kmalloc k)) = page_allocs k"
  by (auto simp: kmalloc_def split: list.splits)

lemma kmalloc_live_pages [simp]: "live_pages (snd (kmalloc k)) = live_pages k"
  by (auto simp: kmalloc_def split: list.splits)

lemma alloc_page_live_nodes [simp]: "live_nodes (snd (alloc_page k)) = live_nodes k"
  by (auto simp: alloc_page_def split: list.splits option.splits)

lemma kmalloc_live_nodes:
  "live_nodes (snd (kmalloc k)) = live_nodes k + (if fst (kmalloc k) then 1 else 0)"
  by (auto simp: kmalloc_def split: list.splits)

lemma supplied_kmalloc [simp]: "supplied (snd (kmalloc k)) = supplied k"
  by (simp add: supplied_def)

lemma kmem_ok_kmalloc [simp]: "kmem_ok used (snd (kmalloc k)) = kmem_ok used k"
  by (simp add: kmem_ok_def)

lemma alloc_page_None:
  "fst (alloc_page k) = None \<Longrightarrow>
   live_pages (snd (alloc_page k)) = live_pages k \<and>
   supplied (snd (alloc_page k)) = supplied k"
  by (auto simp: alloc_page_def supplied_def map_filter_def split: list.splits option.splits)

lemma alloc_page_Some:
  "fst (alloc_page k) = Some p \<Longrightarrow>
   live_pages (snd (alloc_page k)) = live_pages k + 1 \<and>
   supplied k = p # supplied (snd (alloc_page k))"
  by (auto simp: alloc_page_def supplied_def map_filter_def split: list.splits option.splits)

lemma kmem_ok_alloc_Some:
  assumes "kmem_ok used k" and "fst (alloc_page k) = Some p"
  shows "length (snd p) = nat PAGE_SIZE" and "fst p \<notin> used"
    and "kmem_ok (insert (fst p) used) (snd (alloc_page k))"
  using assms alloc_page_Some [OF assms(2)] by (auto simp: kmem_ok_def image_iff)

lemma kmem_ok_alloc_None:
  "kmem_ok used k \<Longrightarrow> fst (alloc_page k) = None \<Longrightarrow> kmem_ok used (snd (alloc_page k))"
  using alloc_page_None [of k] by (simp add: kmem_ok_def)

lemma kmem_ok_subset: "kmem_ok used k \<Longrightarrow> used' \<subseteq> used \<Longrightarrow> kmem_ok used' k"
  by (auto simp: kmem_ok_def)

lemma mem_available_mono: "mem_available n k \<Longrightarrow> m \<le> n \<Longrightarrow> mem_available m k"
  by (auto simp: mem_available_def)

lemma mem_available_Suc:
  assumes "mem_available (Suc n) k"
  shows "fst (kmalloc k)" and "\<exists>p. fst (alloc_page (snd (kmalloc k))) = Some p"
    and "mem_available n (snd (alloc_page (snd (kmalloc k))))"
proof -
  from assms obtain a as where a: "kmallocs k = a # as" by (cases "kmallocs k") (auto simp: mem_available_def)
  from assms obtain b bs where b: "page_allocs k = b # bs" by (cases "page_allocs k") (auto simp: mem_available_def)
  have "kmallocs k ! 0" and "page_allocs k ! 0 \<noteq> None"
    using assms unfolding mem_available_def by blast+
  then have ab: "a" "b \<noteq> None" using a b by simp_all
  have ks: "\<forall>i < n. as ! i"
    using assms a unfolding mem_available_def by (metis Suc_less_eq nth_Cons_Suc)
  have ps: "\<forall>i < n. bs ! i \<noteq> None"
    using assms b unfolding mem_available_def by (metis Suc_less_eq nth_Cons_Suc)
  show "fst (kmalloc k)" using a ab by (simp add: kmalloc_def)
  show "\<exists>p. fst (alloc_page (snd (kmalloc k))) = Some p"
    using a b ab by (auto simp: kmalloc_def alloc_page_def)
  show "mem_available n (snd (alloc_page (snd (kmalloc k))))"
    using assms a b ab ks ps by (auto simp: kmalloc_def alloc_page_def mem_available_def)
qed

text \<open>A machine with \<open>n\<close> nodes and \<open>n\<close> cleared pages to give, for examples.\<close>

definition clean_kmem :: "nat \<Rightarrow> kmem" where
  "clean_kmem n =
     \<lparr>kmallocs = replicate n True, page_allocs = map (\<lambda>i. Some (i, replicate 4096 0)) [0..<n],
      live_nodes = 0, live_pages = 0\<rparr>"

text \<open>What a driver expects of the memory it is loaded with.\<close>

definition fresh_kmem :: "kmem \<Rightarrow> bool" where
  "fresh_kmem k \<longleftrightarrow> kmem_ok {} k \<and> length (supplied k) < 1048576"

lemma supplied_clean: "supplied (clean_kmem n) = map (\<lambda>i. (i, replicate 4096 0)) [0..<n]"
proof -
  have "List.map_filter id (map (\<lambda>i. Some (f i)) xs) = map f xs" for f :: "nat \<Rightarrow> frame" and xs
    by (induction xs) (simp_all add: List.map_filter_simps)
  then show ?thesis by (simp add: supplied_def clean_kmem_def)
qed

lemma kmem_ok_clean: "kmem_ok {} (clean_kmem n)"
  by (simp add: kmem_ok_def supplied_clean comp_def)

lemma mem_available_clean: "mem_available n (clean_kmem n)"
  by (simp add: mem_available_def clean_kmem_def)

subsection \<open>Copies to and from user space\<close>

text \<open>
  \<open>ua r off n\<close> is the number of bytes that the kernel manages to copy when it is asked for
  \<open>n\<close> bytes at offset \<open>off\<close> of the user's buffer, in round \<open>r\<close> of the caller's loop. The
  calls return how many bytes were \<^emph>\<open>not\<close> copied; \<open>copy_from_user\<close> also clears the rest of
  the kernel's region, as its documentation says. A user's buffer is the list of its bytes;
  there is nothing to copy beyond its end.
\<close>

type_synonym uaccess = "int \<Rightarrow> int \<Rightarrow> int \<Rightarrow> int"

definition all_copied :: uaccess where
  "all_copied = (\<lambda>r off n. n)"

definition no_fault :: "uaccess \<Rightarrow> bool" where
  "no_fault ua \<longleftrightarrow> (\<forall>r off n. n \<le> ua r off n)"

lemma no_fault_all_copied [simp]: "no_fault all_copied"
  by (simp add: no_fault_def all_copied_def)

definition copy_to_user :: "uaccess \<Rightarrow> int \<Rightarrow> int \<Rightarrow> byte list \<Rightarrow> int \<Rightarrow> byte list \<times> int" where
  "copy_to_user ua r off src n =
     (let c = max 0 (min (ua r off n) n) in (take (nat c) src, n - c))"

definition copy_from_user :: "uaccess \<Rightarrow> int \<Rightarrow> int \<Rightarrow> byte list \<Rightarrow> int \<Rightarrow> byte list \<times> int" where
  "copy_from_user ua r off buf n =
     (let c = max 0 (min (ua r off n) (min n (int (length buf) - off)))
      in (take (nat c) (drop (nat off) buf) @ replicate (nat (n - c)) 0, n - c))"

lemma copy_to_user_bounds:
  "0 \<le> n \<Longrightarrow> 0 \<le> snd (copy_to_user ua r off src n) \<and> snd (copy_to_user ua r off src n) \<le> n"
  by (simp add: copy_to_user_def Let_def)

lemma copy_to_user_length:
  "0 \<le> n \<Longrightarrow> int (length src) = n \<Longrightarrow>
   int (length (fst (copy_to_user ua r off src n))) = n - snd (copy_to_user ua r off src n)"
  by (simp add: copy_to_user_def Let_def)

lemma copy_to_user_full:
  "no_fault ua \<Longrightarrow> 0 \<le> n \<Longrightarrow> int (length src) = n \<Longrightarrow> copy_to_user ua r off src n = (src, 0)"
  by (simp add: copy_to_user_def Let_def no_fault_def min_absorb2)

lemma copy_from_user_bounds:
  "0 \<le> n \<Longrightarrow> 0 \<le> snd (copy_from_user ua r off buf n) \<and> snd (copy_from_user ua r off buf n) \<le> n"
  by (simp add: copy_from_user_def Let_def)

lemma copy_from_user_length:
  "0 \<le> n \<Longrightarrow> 0 \<le> off \<Longrightarrow> int (length (fst (copy_from_user ua r off buf n))) = n"
  by (simp add: copy_from_user_def Let_def min_def max_def nat_diff_distrib split: if_splits) linarith

lemma copy_from_user_full:
  assumes "no_fault ua" and "0 \<le> n" and "0 \<le> off" and "off + n \<le> int (length buf)"
  shows "copy_from_user ua r off buf n = (take (nat n) (drop (nat off) buf), 0)"
proof -
  have "n \<le> ua r off n" using assms(1) by (simp add: no_fault_def)
  then have "max 0 (min (ua r off n) (min n (int (length buf) - off))) = n"
    using assms by linarith
  then show ?thesis by (simp add: copy_from_user_def Let_def)
qed

subsection \<open>Text output\<close>

text \<open>
  \<open>snprintf\<close> returns the length of the whole text and stores at most \<open>n - 1\<close> of its
  characters and a terminating zero.
\<close>

definition snprintf :: "int \<Rightarrow> string \<Rightarrow> int \<times> string" where
  "snprintf n s =
     (int (length s), if n = 0 then [] else take (nat (n - 1)) s @ [CHR 0x00])"

end
