(* ===== verification/Asgn_Device.thy ===== *)
theory Asgn_Device
  imports Kernel
begin

section \<open>The device structure of both assignments and its page list\<close>

text \<open>
  \<^verbatim>\<open>asgn1.c\<close> and \<^verbatim>\<open>asgn2.c\<close> declare the same structure: a list of memory pages and the
  counters beside it. The list is the HOL list of its nodes in list order; a node is the
  frame number of its page and the page's bytes. The registration handles of the structure
  (\<open>dev\<close>, \<open>cdev\<close>, \<open>class\<close>, \<open>device\<close>) belong to the modules' set-up and tear-down.
  The theory also holds what both drivers do with the list: freeing all of it.
\<close>

record page_node =
  pfn :: nat
  frame :: "byte list"

record asgn_dev =
  mem_list :: "page_node list"
  num_pages :: int
  data_size :: int
  nprocs :: int
  max_nprocs :: int

definition list_add_tail :: "page_node \<Rightarrow> page_node list \<Rightarrow> page_node list" where
  "list_add_tail n ns = ns @ [n]"

definition list_del :: "page_node \<Rightarrow> page_node list \<Rightarrow> page_node list" where
  "list_del n ns = remove1 n ns"

text \<open>The bytes of a list of pages, in order.\<close>

definition flat :: "page_node list \<Rightarrow> byte list" where
  "flat ns = concat (map frame ns)"

definition pages_ok :: "page_node list \<Rightarrow> bool" where
  "pages_ok ns \<longleftrightarrow> (\<forall>n \<in> set ns. length (frame n) = nat PAGE_SIZE) \<and> distinct (map pfn ns)"

lemma flat_Nil [simp]: "flat [] = []"
  by (simp add: flat_def)

lemma flat_Cons [simp]: "flat (n # ns) = frame n @ flat ns"
  by (simp add: flat_def)

lemma flat_append [simp]: "flat (ns @ ms) = flat ns @ flat ms"
  by (simp add: flat_def)

lemma pages_ok_Nil [simp]: "pages_ok []"
  by (simp add: pages_ok_def)

lemma pages_ok_Cons [simp]:
  "pages_ok (n # ns) \<longleftrightarrow>
     length (frame n) = 4096 \<and> pfn n \<notin> pfn ` set ns \<and> pages_ok ns"
  by (auto simp: pages_ok_def)

lemma pages_ok_append [simp]:
  "pages_ok (ns @ ms) \<longleftrightarrow>
     pages_ok ns \<and> pages_ok ms \<and> pfn ` set ns \<inter> pfn ` set ms = {}"
  by (auto simp: pages_ok_def)

lemma length_flat: "pages_ok ns \<Longrightarrow> length (flat ns) = 4096 * length ns"
  by (induction ns) simp_all

text \<open>The byte at offset \<open>o\<close> of page \<open>i\<close> is byte \<open>4096 i + o\<close> of the store.\<close>

lemma nth_flat:
  "pages_ok ns \<Longrightarrow> i < length ns \<Longrightarrow> off < 4096 \<Longrightarrow>
   flat ns ! (4096 * i + off) = frame (ns ! i) ! off"
proof (induction ns arbitrary: i)
  case Nil
  then show ?case by simp
next
  case (Cons n ns)
  show ?case
  proof (cases i)
    case 0
    with Cons.prems show ?thesis by (simp add: nth_append)
  next
    case (Suc j)
    with Cons show ?thesis by (simp add: nth_append)
  qed
qed

subsection \<open>The invariant of the device\<close>

definition dev_inv :: "asgn_dev \<Rightarrow> bool" where
  "dev_inv d \<longleftrightarrow>
     num_pages d = int (length (mem_list d)) \<and> num_pages d < 1048576 \<and>
     pages_ok (mem_list d) \<and>
     0 \<le> data_size d \<and> data_size d \<le> num_pages d * PAGE_SIZE"

lemma dev_invD:
  assumes "dev_inv d"
  shows "num_pages d = int (length (mem_list d))" and "num_pages d < 1048576"
    and "pages_ok (mem_list d)" and "0 \<le> data_size d"
    and "data_size d \<le> num_pages d * 4096" and "0 \<le> num_pages d"
    and "int (length (flat (mem_list d))) = num_pages d * 4096"
  using assms length_flat [of "mem_list d"] by (auto simp: dev_inv_def)

lemma dev_inv_counters [simp]:
  "dev_inv (d\<lparr>nprocs := a\<rparr>) = dev_inv d" "dev_inv (d\<lparr>max_nprocs := b\<rparr>) = dev_inv d"
  by (simp_all add: dev_inv_def)

subsection \<open>Access to the bytes of a page\<close>

text \<open>
  A driver reads and writes through the address of a page. Bytes outside the page are not
  the device's: an access that leaves it has no result.
\<close>

definition page_bytes :: "byte list \<Rightarrow> int \<Rightarrow> int \<Rightarrow> byte list option" where
  "page_bytes p off n =
     (if 0 \<le> off \<and> 0 \<le> n \<and> off + n \<le> int (length p)
      then Some (take (nat n) (drop (nat off) p)) else None)"

definition page_store :: "byte list \<Rightarrow> int \<Rightarrow> byte list \<Rightarrow> byte list option" where
  "page_store p off bs =
     (if 0 \<le> off \<and> off + int (length bs) \<le> int (length p)
      then Some (blit p (nat off) bs) else None)"

lemma page_store_SomeD:
  "page_store p off bs = Some p' \<Longrightarrow> length p' = length p"
  by (auto simp: page_store_def nat_add_distrib le_nat_iff split: if_splits intro!: length_blit)

subsection \<open>Freeing all pages\<close>

text \<open>
  The loop of \<open>free_memory_pages\<close> walks over the list as it was and takes every node out of
  it, freeing the page and then the node.
\<close>

fun free_nodes :: "page_node list \<Rightarrow> kmem \<Rightarrow> asgn_dev \<Rightarrow> kmem \<times> asgn_dev" where
  "free_nodes [] k d = (k, d)"
| "free_nodes (node # rest) k d =
     free_nodes rest (kfree (free_page k)) (d\<lparr>mem_list := list_del node (mem_list d)\<rparr>)"

definition free_memory_pages :: "kmem \<Rightarrow> asgn_dev \<Rightarrow> kmem \<times> asgn_dev" where
  "free_memory_pages k d =
     (let (k', d') = free_nodes (mem_list d) k d
      in (k', d'\<lparr>data_size := 0, num_pages := 0\<rparr>))"

lemma free_nodes_all:
  assumes "mem_list d = ns @ ms"
  shows "free_nodes ns k d =
    (k\<lparr>live_nodes := live_nodes k - int (length ns), live_pages := live_pages k - int (length ns)\<rparr>,
     d\<lparr>mem_list := ms\<rparr>)"
  using assms
proof (induction ns arbitrary: k d)
  case Nil
  then show ?case by simp
next
  case (Cons n ns)
  have "mem_list (d\<lparr>mem_list := list_del n (mem_list d)\<rparr>) = ns @ ms"
    using Cons.prems by (simp add: list_del_def)
  from Cons.IH [OF this] show ?case
    by (simp add: kfree_def free_page_def)
qed

lemma free_memory_pages_eq:
  "free_memory_pages k d =
    (k\<lparr>live_nodes := live_nodes k - int (length (mem_list d)),
       live_pages := live_pages k - int (length (mem_list d))\<rparr>,
     d\<lparr>mem_list := [], data_size := 0, num_pages := 0\<rparr>)"
  using free_nodes_all [of d "mem_list d" "[]" k] by (simp add: free_memory_pages_def)

lemma free_memory_pages_inv: "dev_inv (snd (free_memory_pages k d))"
  by (simp add: free_memory_pages_eq dev_inv_def)

end
