(* ===== verification/Modules.thy ===== *)
theory Modules
  imports Asgn_Device
begin

section \<open>Loading and unloading a driver\<close>

text \<open>
  What the two drivers' \<open>init\<close> and \<open>exit\<close> functions have in common: the static handles they
  fill in, the kernel calls they make, in order, and the part of the kernel's contract that
  matters for them, that what is taken is given back once. \<open>fail_device\<close> is the error path
  that both files have.
\<close>

subsection \<open>State and calls\<close>

text \<open>A pointer that a call may have set to a \<open>PTR_ERR\<close> value, which is not \<open>NULL\<close>.\<close>

datatype handle = Null | ErrPtr | Valid

datatype kcall =
  Alloc_region | Unregister_region | Cdev_alloc | Cdev_del | Create_proc | Remove_proc
| Class_create | Class_destroy | Device_create | Device_destroy
| Request_gpios | Free_gpios | Request_irq | Free_irq | Kmalloc_ram | Kfree_ram
| Misc_register | Misc_deregister

record module_state =
  m_kmem :: kmem
  m_dev :: asgn_dev
  m_list_ready :: bool
  m_devno :: int
  m_cdev :: bool
  m_class :: handle
  m_proc :: bool
  m_trace :: "kcall list"

text \<open>A function returns or, where it follows a null pointer, ends the kernel thread.\<close>

datatype outcome = Returned int | Oops

text \<open>The answers of the kernel during one \<open>init\<close>.\<close>

record init_env =
  e_region :: int
  e_devno :: int
  e_cdev_alloc :: bool
  e_cdev_add :: int
  e_proc :: bool
  e_class :: bool
  e_device :: bool

definition log_call :: "kcall \<Rightarrow> module_state \<Rightarrow> module_state" where
  "log_call c s = s\<lparr>m_trace := m_trace s @ [c]\<rparr>"

text \<open>The static memory of a module that was just loaded: all zero.\<close>

definition zero_dev :: asgn_dev where
  "zero_dev = \<lparr>mem_list = [], num_pages = 0, data_size = 0, nprocs = 0, max_nprocs = 0\<rparr>"

definition just_loaded :: "kmem \<Rightarrow> module_state" where
  "just_loaded k =
     \<lparr>m_kmem = k, m_dev = zero_dev, m_list_ready = False, m_devno = 0, m_cdev = False,
      m_class = Null, m_proc = False, m_trace = []\<rparr>"

subsection \<open>Kernel calls\<close>

text \<open>\<open>class_destroy\<close> ignores a pointer that is \<open>NULL\<close> or an error.\<close>

definition class_destroy :: "module_state \<Rightarrow> module_state" where
  "class_destroy s = (if m_class s = Valid then log_call Class_destroy s else s)"

text \<open>Where the list head was not set up, its \<open>next\<close> pointer is \<open>NULL\<close> and the walk follows it.\<close>

definition free_all_pages :: "module_state \<Rightarrow> module_state option" where
  "free_all_pages s =
     (if m_list_ready s
      then (let (k, d) = free_memory_pages (m_kmem s) (m_dev s) in Some (s\<lparr>m_kmem := k, m_dev := d\<rparr>))
      else None)"

definition fail_device :: "int \<Rightarrow> module_state \<Rightarrow> outcome \<times> module_state" where
  "fail_device result s =
     (let s = class_destroy s
      in case free_all_pages s of
           None \<Rightarrow> (Oops, s)
         | Some s \<Rightarrow>
             (let s = (if m_devno s \<noteq> 0 then log_call Unregister_region s else s);
                  s = (if m_class s \<noteq> Null then class_destroy s else s);
                  s = (if m_proc s then log_call Remove_proc s else s);
                  s = (if m_cdev s then log_call Cdev_del s else s)
              in (Returned result, s)))"

subsection \<open>What is held\<close>

datatype resource = Region | Cdev | Proc | Class | Device | Gpios | Irq | Ram | Misc

fun takes :: "kcall \<Rightarrow> resource option" where
  "takes Alloc_region = Some Region"
| "takes Cdev_alloc = Some Cdev"
| "takes Create_proc = Some Proc"
| "takes Class_create = Some Class"
| "takes Device_create = Some Device"
| "takes Request_gpios = Some Gpios"
| "takes Request_irq = Some Irq"
| "takes Kmalloc_ram = Some Ram"
| "takes Misc_register = Some Misc"
| "takes _ = None"

fun gives_back :: "kcall \<Rightarrow> resource option" where
  "gives_back Unregister_region = Some Region"
| "gives_back Cdev_del = Some Cdev"
| "gives_back Remove_proc = Some Proc"
| "gives_back Class_destroy = Some Class"
| "gives_back Device_destroy = Some Device"
| "gives_back Free_gpios = Some Gpios"
| "gives_back Free_irq = Some Irq"
| "gives_back Kfree_ram = Some Ram"
| "gives_back Misc_deregister = Some Misc"
| "gives_back _ = None"

text \<open>The resources held after a sequence of calls; none if one was given back that was not held.\<close>

fun held :: "resource set \<Rightarrow> kcall list \<Rightarrow> resource set option" where
  "held R [] = Some R"
| "held R (c # cs) =
     (case gives_back c of
        Some r \<Rightarrow> if r \<in> R then held (R - {r}) cs else None
      | None \<Rightarrow> (case takes c of Some r \<Rightarrow> held (insert r R) cs | None \<Rightarrow> held R cs))"

lemma held_append: "held R (as @ bs) = (case held R as of None \<Rightarrow> None | Some R' \<Rightarrow> held R' bs)"
  by (induction as arbitrary: R) (auto split: option.splits)

lemma m_log_call [simp]:
  "m_kmem (log_call c s) = m_kmem s" "m_dev (log_call c s) = m_dev s"
  "m_list_ready (log_call c s) = m_list_ready s" "m_devno (log_call c s) = m_devno s"
  "m_cdev (log_call c s) = m_cdev s" "m_class (log_call c s) = m_class s"
  "m_proc (log_call c s) = m_proc s" "m_trace (log_call c s) = m_trace s @ [c]"
  by (simp_all add: log_call_def)

lemma class_destroy_fields [simp]:
  "m_kmem (class_destroy s) = m_kmem s" "m_dev (class_destroy s) = m_dev s"
  "m_list_ready (class_destroy s) = m_list_ready s" "m_devno (class_destroy s) = m_devno s"
  "m_cdev (class_destroy s) = m_cdev s" "m_class (class_destroy s) = m_class s"
  "m_proc (class_destroy s) = m_proc s"
  "m_trace (class_destroy s) = m_trace s @ (if m_class s = Valid then [Class_destroy] else [])"
  by (simp_all add: class_destroy_def)

text \<open>Kernels that grant everything, and that grant everything up to the device, for examples.\<close>

definition good_env :: init_env where
  "good_env = \<lparr>e_region = 0, e_devno = 1, e_cdev_alloc = True, e_cdev_add = 0, e_proc = True,
     e_class = True, e_device = True\<rparr>"

definition no_device_env :: init_env where
  "no_device_env = good_env\<lparr>e_device := False\<rparr>"

end
