(* ===== verification/Asgn1.thy ===== *)
theory Asgn1
  imports Asgn_Device
begin

section \<open>The RAM disk of assignment 1: its file operations\<close>

text \<open>
  The operations of \<^verbatim>\<open>asgn1.c\<close> in the order of the file. An operation takes the device, the
  memory supply where it allocates or frees, and its arguments, and returns the C result
  with the new state. The file position is passed and returned, as the kernel passes a
  pointer to it. An operation that touches memory outside a page has no result (\<open>None\<close>).
  The messages to the kernel log are left out.
\<close>

subsection \<open>Open and release\<close>

definition asgn1_open :: "kmem \<Rightarrow> asgn_dev \<Rightarrow> 32 word \<Rightarrow> int \<times> kmem \<times> asgn_dev" where
  "asgn1_open k d f_flags =
     (let num_procs = nprocs d; max_num_procs = max_nprocs d
      in if num_procs \<ge> max_num_procs then (- EBUSY, k, d)
         else let d1 = d\<lparr>nprocs := s32 (nprocs d + 1)\<rparr>
              in if f_flags AND O_ACCMODE = O_WRONLY
                 then (let (k2, d2) = free_memory_pages k d1 in (0, k2, d2))
                 else (0, k, d1))"

definition asgn1_release :: "asgn_dev \<Rightarrow> int \<times> asgn_dev" where
  "asgn1_release d = (0, d\<lparr>nprocs := s32 (nprocs d - 1)\<rparr>)"

subsection \<open>Read\<close>

text \<open>
  The loop over the list. \<open>page_no\<close> is \<open>curr_page_no\<close>, and \<open>size_read\<close> what has been copied
  so far; the result holds the total and the bytes that reached the user's buffer.
\<close>

fun read_pages :: "uaccess \<Rightarrow> int \<Rightarrow> int \<Rightarrow> int \<Rightarrow> int \<Rightarrow> int \<Rightarrow> page_node list \<Rightarrow>
    (int \<times> byte list) option" where
  "read_pages ua size_from_pages page_no begin_page_no begin_offset size_read [] =
     Some (size_read, [])"
| "read_pages ua size_from_pages page_no begin_page_no begin_offset size_read (node # rest) =
     (let page_no = s32 (page_no + 1)
      in if page_no = begin_page_no then
           (let size_to_read = u32 (min (s32 (u32 (PAGE_SIZE - begin_offset)))
                                        (s32 (u32 (size_from_pages - size_read))))
            in case page_bytes (frame node) begin_offset size_to_read of
                 None \<Rightarrow> None
               | Some src \<Rightarrow>
                   (let (out, size_to_be_read) = copy_to_user ua page_no size_read src size_to_read;
                        curr_size_read = u32 (size_to_read - size_to_be_read);
                        size_read = u32 (size_read + curr_size_read)
                    in if size_from_pages \<noteq> size_read
                       then map_option (\<lambda>(n, more). (n, out @ more))
                              (read_pages ua size_from_pages page_no (s32 (begin_page_no + 1)) 0
                                 size_read rest)
                       else Some (size_read, out)))
         else read_pages ua size_from_pages page_no begin_page_no begin_offset size_read rest)"

definition asgn1_read :: "uaccess \<Rightarrow> asgn_dev \<Rightarrow> int \<Rightarrow> int \<Rightarrow> (int \<times> byte list \<times> int) option" where
  "asgn1_read ua d count f_pos =
     (let begin_offset = u32 (crem f_pos PAGE_SIZE);
          begin_page_no = s32 (cdiv f_pos PAGE_SIZE)
      in if f_pos > data_size d then Some (0, [], f_pos)
         else (let size_from_pages = min count (u32 (data_size d - u32 f_pos))
               in case read_pages ua size_from_pages (- 1) begin_page_no begin_offset 0 (mem_list d) of
                    None \<Rightarrow> None
                  | Some (size_read, out) \<Rightarrow> Some (s32 size_read, out, s64 (f_pos + size_read))))"

subsection \<open>Seek\<close>

definition asgn1_lseek :: "asgn_dev \<Rightarrow> int \<Rightarrow> int \<Rightarrow> int \<Rightarrow> int \<times> int" where
  "asgn1_lseek d f_pos offset cmd =
     (let buffer_size = u32 (num_pages d * PAGE_SIZE);
          seek_to = (\<lambda>testpos.
            let testpos = (if testpos > buffer_size then buffer_size
                           else if testpos < 0 then 0 else testpos)
            in (testpos, testpos))
      in if cmd = SEEK_SET then seek_to offset
         else if cmd = SEEK_CUR then seek_to (s64 (f_pos + offset))
         else if cmd = SEEK_END then seek_to (s64 (buffer_size + offset))
         else (- EINVAL, f_pos))"

subsection \<open>Write\<close>

text \<open>
  The first loop allocates pages until they reach the end of what is to be written. It calls
  \<open>kmalloc\<close> in every round, so it ends at the latest when the supply does. The flag of the
  result says whether the loop's condition was met.
\<close>

function add_pages :: "int \<Rightarrow> kmem \<Rightarrow> asgn_dev \<Rightarrow> bool \<times> kmem \<times> asgn_dev" where
  "add_pages target k d =
     (if u32 (num_pages d * PAGE_SIZE) < target then
        (let (ok, k1) = kmalloc k
         in if ok then
              (case alloc_page k1 of
                 (None, k2) \<Rightarrow> (False, k2, d)
               | (Some (f, bs), k2) \<Rightarrow>
                   add_pages target k2
                     (d\<lparr>mem_list := list_add_tail \<lparr>pfn = f, frame = bs\<rparr> (mem_list d),
                        num_pages := s32 (num_pages d + 1)\<rparr>))
            else (False, k1, d))
      else (True, k, d))"
  by pat_completeness auto
termination
  by (relation "measure (\<lambda>(target, k, d). length (kmallocs k))")
     (auto simp: kmalloc_def alloc_page_def split: list.splits option.splits if_splits)

declare add_pages.simps [simp del]

text \<open>The second loop copies from the user's buffer into the pages.\<close>

fun write_pages :: "uaccess \<Rightarrow> byte list \<Rightarrow> int \<Rightarrow> int \<Rightarrow> int \<Rightarrow> int \<Rightarrow> int \<Rightarrow> page_node list \<Rightarrow>
    (int \<times> page_node list) option" where
  "write_pages ua buf count page_no begin_page_no begin_offset size_written [] =
     Some (size_written, [])"
| "write_pages ua buf count page_no begin_page_no begin_offset size_written (node # rest) =
     (let page_no = s32 (page_no + 1)
      in if page_no = begin_page_no then
           (let size_to_write = u32 (min (s32 (u32 (PAGE_SIZE - begin_offset)))
                                         (s32 (u32 (count - size_written))));
                (bytes, size_to_be_written) = copy_from_user ua page_no size_written buf size_to_write
            in case page_store (frame node) begin_offset bytes of
                 None \<Rightarrow> None
               | Some page \<Rightarrow>
                   (let node = node\<lparr>frame := page\<rparr>;
                        curr_size_written = u32 (size_to_write - size_to_be_written);
                        size_written = u32 (size_written + curr_size_written)
                    in if size_written \<noteq> count
                       then map_option (\<lambda>(n, more). (n, node # more))
                              (write_pages ua buf count page_no (s32 (begin_page_no + 1)) 0
                                 size_written rest)
                       else Some (size_written, node # rest)))
         else map_option (\<lambda>(n, more). (n, node # more))
                (write_pages ua buf count page_no begin_page_no begin_offset size_written rest))"

definition asgn1_write :: "uaccess \<Rightarrow> kmem \<Rightarrow> asgn_dev \<Rightarrow> byte list \<Rightarrow> int \<Rightarrow> int \<Rightarrow>
    (int \<times> int \<times> kmem \<times> asgn_dev) option" where
  "asgn1_write ua k d buf count f_pos =
     (let orig_f_pos = u32 f_pos;
          begin_offset = u32 (crem f_pos PAGE_SIZE);
          begin_page_no = s32 (cdiv f_pos PAGE_SIZE);
          (added, k, d) = add_pages (s64 (f_pos + count)) k d
      in if \<not> added then Some (0, f_pos, k, d)
         else (case write_pages ua buf count (- 1) begin_page_no begin_offset 0 (mem_list d) of
                 None \<Rightarrow> None
               | Some (size_written, nodes) \<Rightarrow>
                   Some (s32 size_written, s64 (f_pos + size_written), k,
                         d\<lparr>mem_list := nodes,
                           data_size := max (data_size d) (u32 (orig_f_pos + size_written))\<rparr>)))"

subsection \<open>Ioctl and the status file\<close>

abbreviation (input) MYIOC_TYPE :: "32 word" where "MYIOC_TYPE \<equiv> 107"
abbreviation (input) SET_NPROC_OP :: "32 word" where "SET_NPROC_OP \<equiv> 1"

text \<open>
  \<open>access_ok\<close> and \<open>get_user\<close> look at the user's address \<open>arg\<close>: \<open>arg_ok\<close> and \<open>arg\<close> are their
  answers. \<open>get_user\<close> sets its variable to zero where it fails (\<open>None\<close>); the driver does not
  look at its result.
\<close>

definition asgn1_ioctl :: "asgn_dev \<Rightarrow> 32 word \<Rightarrow> bool \<Rightarrow> int option \<Rightarrow> int \<times> asgn_dev" where
  "asgn1_ioctl d cmd arg_ok arg =
     (let nr = IOC_NR cmd
      in if IOC_TYPE cmd \<noteq> MYIOC_TYPE then (- EINVAL, d)
         else if nr = SET_NPROC_OP then
           (if \<not> arg_ok then (- EFAULT, d)
            else let new_nprocs = (case arg of None \<Rightarrow> 0 | Some n \<Rightarrow> n)
                 in if new_nprocs < 0 then (- EINVAL, d)
                    else (0, d\<lparr>max_nprocs := new_nprocs\<rparr>))
         else (- ENOTTY, d))"

definition asgn1_read_procmem :: "asgn_dev \<Rightarrow> int \<Rightarrow> int \<times> string" where
  "asgn1_read_procmem d count =
     snprintf (u32 count)
       (''nprocs '' @ show_int (nprocs d) @ '', max_nprocs '' @ show_int (max_nprocs d) @
        [CHR 0x0A] @ ''num_pages '' @ show_int (num_pages d) @ '', data_size '' @
        show_int (s32 (data_size d)) @ [CHR 0x0A])"

subsection \<open>Memory mapping\<close>

record vma =
  vm_start :: int
  vm_end :: int
  vm_pgoff :: int

text \<open>
  The loop asks the kernel to map single pages: the result lists the requests, each an
  address and the frame to map there. The kernel's answers are not looked at.
\<close>

fun mmap_pages :: "vma \<Rightarrow> int \<Rightarrow> int \<Rightarrow> page_node list \<Rightarrow> (int \<times> nat) list" where
  "mmap_pages vma offset index [] = []"
| "mmap_pages vma offset index (node # rest) =
     (if index \<ge> offset \<and> u32 (vm_start vma + u32 (index * PAGE_SIZE)) < vm_end vma
      then [(u32 (vm_start vma + u32 (index * PAGE_SIZE)), pfn node)] else []) @
     mmap_pages vma offset (u32 (index + 1)) rest"

definition asgn1_mmap :: "asgn_dev \<Rightarrow> vma \<Rightarrow> int \<times> (int \<times> nat) list" where
  "asgn1_mmap d vma =
     (let offset = u32 (vm_pgoff vma * 2 ^ 12);
          len = u32 (vm_end vma - vm_start vma);
          ramdisk_size = u32 (num_pages d * PAGE_SIZE)
      in if len > ramdisk_size \<or> offset > u32 (num_pages d) then (- EINVAL, [])
         else (0, mmap_pages vma offset 0 (mem_list d)))"

end
