(* ===== verification/Asgn1_Store.thy ===== *)
theory Asgn1_Store
  imports Asgn1
begin

section \<open>What the loops of the RAM disk do to its bytes\<close>

text \<open>
  The page loops of \<^verbatim>\<open>asgn1.c\<close>, related to the flat sequence of bytes that the pages hold.
  The first group of lemmas is about the allocation loop, the second about the two copy
  loops under arbitrary faults of the user's memory (no access outside a page, no byte
  counted twice), the third about the copy loops when the user's memory does not fault
  (exactly the requested region is read or overwritten).
\<close>

subsection \<open>The machine around the device\<close>

text \<open>
  The device is well formed, the frames still to be handed out are fresh, and the machine
  has fewer than \<open>2 ^ 20\<close> page frames, as a 32-bit address space does.
\<close>

definition machine_ok :: "kmem \<Rightarrow> asgn_dev \<Rightarrow> bool" where
  "machine_ok k d \<longleftrightarrow>
     dev_inv d \<and> kmem_ok (pfn ` set (mem_list d)) k \<and>
     length (mem_list d) + length (supplied k) < 1048576"

lemma machine_okD: "machine_ok k d \<Longrightarrow> dev_inv d"
  by (simp add: machine_ok_def)

lemma machine_ok_counters [simp]:
  "machine_ok k (d\<lparr>nprocs := a\<rparr>) = machine_ok k d"
  "machine_ok k (d\<lparr>max_nprocs := b\<rparr>) = machine_ok k d"
  by (simp_all add: machine_ok_def)

subsection \<open>Allocation\<close>

definition add_page :: "frame \<Rightarrow> asgn_dev \<Rightarrow> asgn_dev" where
  "add_page p d =
     d\<lparr>mem_list := mem_list d @ [\<lparr>pfn = fst p, frame = snd p\<rparr>], num_pages := num_pages d + 1\<rparr>"

lemma add_page_fields [simp]:
  "mem_list (add_page p d) = mem_list d @ [\<lparr>pfn = fst p, frame = snd p\<rparr>]"
  "num_pages (add_page p d) = num_pages d + 1" "data_size (add_page p d) = data_size d"
  "nprocs (add_page p d) = nprocs d" "max_nprocs (add_page p d) = max_nprocs d"
  by (simp_all add: add_page_def)

lemma machine_ok_alloc:
  assumes "machine_ok k d" and "fst (alloc_page (snd (kmalloc k))) = Some p"
  shows "machine_ok (snd (alloc_page (snd (kmalloc k)))) (add_page p d)"
proof -
  let ?k = "snd (kmalloc k)"
  have ok: "kmem_ok (pfn ` set (mem_list d)) ?k" using assms(1) by (simp add: machine_ok_def)
  note p = kmem_ok_alloc_Some [OF ok assms(2)]
  have "supplied k = p # supplied (snd (alloc_page ?k))"
    using alloc_page_Some [OF assms(2)] by simp
  then have len: "length (mem_list d) + Suc (length (supplied (snd (alloc_page ?k)))) < 1048576"
    using assms(1) by (simp add: machine_ok_def)
  have "dev_inv (add_page p d)"
    using assms(1) p(1,2) len by (auto simp: dev_inv_def machine_ok_def)
  then show ?thesis using p(3) len by (simp add: machine_ok_def)
qed

lemma machine_ok_alloc_None:
  "machine_ok k d \<Longrightarrow> fst (alloc_page (snd (kmalloc k))) = None \<Longrightarrow>
   machine_ok (snd (alloc_page (snd (kmalloc k)))) d"
  using kmem_ok_alloc_None [of _ "snd (kmalloc k)"] alloc_page_None [of "snd (kmalloc k)"]
  by (auto simp: machine_ok_def)

lemma machine_ok_kmalloc: "machine_ok k d \<Longrightarrow> machine_ok (snd (kmalloc k)) d"
  by (simp add: machine_ok_def)

text \<open>One round of the loop, and the rule of induction that goes with it.\<close>

lemma add_pages_step:
  assumes "machine_ok k d"
  shows "add_pages target k d =
    (if num_pages d * 4096 < target then
       (if fst (kmalloc k) then
          (case fst (alloc_page (snd (kmalloc k))) of
             None \<Rightarrow> (False, snd (alloc_page (snd (kmalloc k))), d)
           | Some p \<Rightarrow> add_pages target (snd (alloc_page (snd (kmalloc k)))) (add_page p d))
        else (False, snd (kmalloc k), d))
     else (True, k, d))"
proof -
  have "0 \<le> num_pages d" "num_pages d < 1048576"
    using assms by (auto simp: machine_ok_def dev_inv_def)
  then have "u32 (num_pages d * 4096) = num_pages d * 4096"
    "s32 (num_pages d + 1) = num_pages d + 1" by simp_all
  then show ?thesis
    by (subst add_pages.simps)
       (auto simp: add_page_def list_add_tail_def split: prod.splits option.splits)
qed

lemma machine_induct [consumes 1, case_names round]:
  assumes "machine_ok k d"
    and step: "\<And>k d. machine_ok k d \<Longrightarrow>
      (\<And>p. fst (kmalloc k) \<Longrightarrow> fst (alloc_page (snd (kmalloc k))) = Some p \<Longrightarrow>
         P (snd (alloc_page (snd (kmalloc k)))) (add_page p d)) \<Longrightarrow> P k d"
  shows "P k d"
  using assms(1)
proof (induction "length (kmallocs k)" arbitrary: k d rule: less_induct)
  case less
  show ?case
  proof (rule step [OF less.prems])
    fix p
    assume p: "fst (kmalloc k)" "fst (alloc_page (snd (kmalloc k))) = Some p"
    then have "length (kmallocs (snd (alloc_page (snd (kmalloc k))))) < length (kmallocs k)"
      using kmalloc_shrinks by simp
    then show "P (snd (alloc_page (snd (kmalloc k)))) (add_page p d)"
      using less.hyps machine_ok_alloc [OF less.prems p(2)] by blast
  qed
qed

text \<open>
  What the loop keeps: it only appends pages, and whatever it allocates is on the list, but
  for the node of a page that could not be had.
\<close>

lemma add_pages_frame:
  assumes "machine_ok k d" and "add_pages target k d = (ok, k', d')"
  shows "machine_ok k' d'"
    and "\<exists>ms. mem_list d' = mem_list d @ ms"
    and "d' = d\<lparr>mem_list := mem_list d', num_pages := num_pages d'\<rparr>"
    and "ok \<Longrightarrow> target \<le> num_pages d' * 4096"
    and "live_pages k' - live_pages k = num_pages d' - num_pages d"
    and "ok \<Longrightarrow> live_nodes k' - live_nodes k = num_pages d' - num_pages d"
proof -
  have "machine_ok k' d' \<and> (\<exists>ms. mem_list d' = mem_list d @ ms) \<and>
    d' = d\<lparr>mem_list := mem_list d', num_pages := num_pages d'\<rparr> \<and>
    (ok \<longrightarrow> target \<le> num_pages d' * 4096) \<and>
    live_pages k' - live_pages k = num_pages d' - num_pages d \<and>
    (ok \<longrightarrow> live_nodes k' - live_nodes k = num_pages d' - num_pages d)"
    using assms
  proof (induction k d rule: machine_induct)
    case (round k d)
    consider (full) "\<not> num_pages d * 4096 < target"
      | (no_node) "num_pages d * 4096 < target" "\<not> fst (kmalloc k)"
      | (no_page) "num_pages d * 4096 < target" "fst (kmalloc k)"
          "fst (alloc_page (snd (kmalloc k))) = None"
      | (page) p where "num_pages d * 4096 < target" "fst (kmalloc k)"
          "fst (alloc_page (snd (kmalloc k))) = Some p"
      by fastforce
    then show ?case
    proof cases
      case full
      then show ?thesis using round.prems round.hyps by (simp add: add_pages_step)
    next
      case no_node
      then have "ok = False" "k' = snd (kmalloc k)" "d' = d"
        using round.prems round.hyps by (simp_all add: add_pages_step)
      then show ?thesis using round.hyps machine_ok_kmalloc by simp
    next
      case no_page
      then have "ok = False" "k' = snd (alloc_page (snd (kmalloc k)))" "d' = d"
        using round.prems round.hyps by (simp_all add: add_pages_step)
      then show ?thesis
        using round.hyps no_page machine_ok_alloc_None alloc_page_None by simp
    next
      case page
      let ?k = "snd (alloc_page (snd (kmalloc k)))"
      have "add_pages target ?k (add_page p d) = (ok, k', d')"
        using round.prems round.hyps page by (simp add: add_pages_step)
      note IH = round.IH [OF page(2,3) this]
      have "live_pages ?k = live_pages k + 1" "live_nodes ?k = live_nodes k + 1"
        using alloc_page_Some [OF page(3)] kmalloc_live_nodes [of k] page(2) by simp_all
      then show ?thesis using IH by (auto simp: add_page_def)
    qed
  qed
  then show "machine_ok k' d'" "\<exists>ms. mem_list d' = mem_list d @ ms"
    "d' = d\<lparr>mem_list := mem_list d', num_pages := num_pages d'\<rparr>"
    "ok \<Longrightarrow> target \<le> num_pages d' * 4096"
    "live_pages k' - live_pages k = num_pages d' - num_pages d"
    "ok \<Longrightarrow> live_nodes k' - live_nodes k = num_pages d' - num_pages d" by blast+
qed

text \<open>
  The node of a page that cannot be had is not freed: one node is lost, and no page.
\<close>

lemma add_pages_nodes:
  assumes "machine_ok k d" and "add_pages target k d = (ok, k', d')"
  shows "live_nodes k' - live_nodes k = num_pages d' - num_pages d \<or>
    \<not> ok \<and> live_nodes k' - live_nodes k = num_pages d' - num_pages d + 1"
  using assms
proof (induction k d rule: machine_induct)
  case (round k d)
  note step = round.prems [unfolded add_pages_step [OF round.hyps]]
  show ?case
  proof (cases "num_pages d * 4096 < target \<and> fst (kmalloc k)")
    case False
    then show ?thesis using step kmalloc_live_nodes [of k] by (auto split: if_splits)
  next
    case True
    then have node: "live_nodes (snd (kmalloc k)) = live_nodes k + 1" using kmalloc_live_nodes [of k] by simp
    show ?thesis
    proof (cases "fst (alloc_page (snd (kmalloc k)))")
      case None
      then show ?thesis using True step node by auto
    next
      case (Some p)
      then have "add_pages target (snd (alloc_page (snd (kmalloc k)))) (add_page p d) = (ok, k', d')"
        using True step by simp
      from round.IH [OF _ Some this] True node show ?thesis by auto
    qed
  qed
qed

text \<open>
  With memory for the pages that are missing the loop meets its condition, and it stops at
  the first page count that reaches the target.
\<close>

definition pages_for :: "int \<Rightarrow> int" where
  "pages_for target = (target + 4095) div 4096"

text \<open>No page comes from nowhere: what the list gains, the supply loses.\<close>

lemma add_pages_supply:
  assumes "machine_ok k d" and "add_pages target k d = (ok, k', d')"
  shows "num_pages d' + int (length (supplied k')) = num_pages d + int (length (supplied k))"
  using assms
proof (induction k d rule: machine_induct)
  case (round k d)
  note step = round.prems [unfolded add_pages_step [OF round.hyps]]
  show ?case
  proof (cases "num_pages d * 4096 < target \<and> fst (kmalloc k)")
    case False
    then show ?thesis using step by (auto split: if_splits)
  next
    case True
    show ?thesis
    proof (cases "fst (alloc_page (snd (kmalloc k)))")
      case None
      then show ?thesis using step True alloc_page_None [OF None] by simp
    next
      case (Some p)
      then show ?thesis
        using step True round.IH [of p] alloc_page_Some [OF Some] by (simp add: add_page_def)
    qed
  qed
qed

lemma add_pages_enough:
  assumes "machine_ok k d" and "mem_available n k" and "target \<le> (num_pages d + int n) * 4096"
  shows "fst (add_pages target k d) \<and>
    num_pages (snd (snd (add_pages target k d))) = max (num_pages d) (pages_for target)"
  using assms
proof (induction n arbitrary: k d)
  case 0
  then show ?case by (auto simp: add_pages_step pages_for_def)
next
  case (Suc n)
  show ?case
  proof (cases "num_pages d * 4096 < target")
    case False
    then show ?thesis using Suc.prems by (auto simp: add_pages_step pages_for_def)
  next
    case True
    note more = mem_available_Suc [OF Suc.prems(2)]
    then obtain p where p: "fst (alloc_page (snd (kmalloc k))) = Some p" by blast
    let ?k = "snd (alloc_page (snd (kmalloc k)))"
    have "target \<le> (num_pages (add_page p d) + int n) * 4096" using Suc.prems(3) by simp
    then have "fst (add_pages target ?k (add_page p d)) \<and>
        num_pages (snd (snd (add_pages target ?k (add_page p d)))) =
        max (num_pages (add_page p d)) (pages_for target)"
      by (rule Suc.IH [OF machine_ok_alloc [OF Suc.prems(1) p] more(3)])
    moreover have "num_pages d + 1 \<le> pages_for target" using True by (simp add: pages_for_def)
    ultimately show ?thesis
      using Suc.prems(1) True more(1) p by (simp add: add_pages_step)
  qed
qed

text \<open>
  A target beyond the last page count that 32 bits can hold is never reached: the loop goes
  on until the allocator refuses.
\<close>

lemma add_pages_never:
  assumes "machine_ok k d" and "4294963200 < target"
  shows "\<not> fst (add_pages target k d)"
proof
  obtain ok k' d' where r: "add_pages target k d = (ok, k', d')" by (metis prod_cases3)
  assume "fst (add_pages target k d)"
  then have "target \<le> num_pages d' * 4096" using add_pages_frame(4) [OF assms(1) r] r by simp
  moreover have "num_pages d' < 1048576"
    using add_pages_frame(1) [OF assms(1) r] by (simp add: machine_ok_def dev_inv_def)
  ultimately show False using assms(2) by simp
qed

lemma add_pages_takes_all:
  assumes "machine_ok k d" and "4294963200 < target" and "mem_available n k"
    and "length (page_allocs k) = n" and "length (kmallocs k) = n"
  shows "page_allocs (fst (snd (add_pages target k d))) = [] \<and>
    num_pages (snd (snd (add_pages target k d))) = num_pages d + int n"
  using assms
proof (induction n arbitrary: k d)
  case 0
  have "num_pages d < 1048576" using 0 by (simp add: machine_ok_def dev_inv_def)
  then show ?case using 0 by (simp add: add_pages_step kmalloc_def)
next
  case (Suc n)
  have small: "num_pages d < 1048576" using Suc.prems by (simp add: machine_ok_def dev_inv_def)
  note more = mem_available_Suc [OF Suc.prems(3)]
  then obtain p where p: "fst (alloc_page (snd (kmalloc k))) = Some p" by blast
  let ?k = "snd (alloc_page (snd (kmalloc k)))"
  have "length (page_allocs ?k) = n" "length (kmallocs ?k) = n"
    using Suc.prems(4,5) p by (auto simp: kmalloc_def alloc_page_def split: list.splits option.splits)
  from Suc.IH [OF machine_ok_alloc [OF Suc.prems(1) p] Suc.prems(2) more(3) this]
  show ?case using Suc.prems(1,2) small more(1) p by (simp add: add_pages_step)
qed

subsection \<open>The copy loops under faults\<close>

definition full_frames :: "page_node list \<Rightarrow> bool" where
  "full_frames ns \<longleftrightarrow> (\<forall>n \<in> set ns. length (frame n) = 4096)"

lemma full_frames_simps [simp]:
  "full_frames []" "full_frames (n # ns) \<longleftrightarrow> length (frame n) = 4096 \<and> full_frames ns"
  by (auto simp: full_frames_def)

lemma full_frames_drop: "full_frames ns \<Longrightarrow> full_frames (drop m ns)"
  by (auto simp: full_frames_def dest: in_set_dropD)

lemma length_flat_full: "full_frames ns \<Longrightarrow> length (flat ns) = 4096 * length ns"
  by (induction ns) simp_all

lemma pages_ok_full: "pages_ok ns \<longleftrightarrow> full_frames ns \<and> distinct (map pfn ns)"
  by (simp add: pages_ok_def full_frames_def)

text \<open>The amount of one round: what is left of the page, or what is left of the request.\<close>

lemma round_size:
  assumes "0 \<le> off" "off < 4096" "0 \<le> w" "w \<le> n" "n < 2147483648"
  shows "u32 (min (s32 (u32 (PAGE_SIZE - off))) (s32 (u32 (n - w)))) = min (4096 - off) (n - w)"
  using assms by (simp add: min_def)

text \<open>
  The write loop never leaves a page, writes at most what was asked for, and changes nothing
  but the bytes of pages.
\<close>

lemma write_pages_safe:
  assumes "full_frames ns" "0 \<le> off" "off < 4096" "0 \<le> w" "w \<le> count" "count < 2147483648"
    and "- 1 \<le> no" "no + int (length ns) < 2147483646" "bno \<le> 2147483646"
  shows "\<exists>w' ns'. write_pages ua buf count no bno off w ns = Some (w', ns') \<and>
    w \<le> w' \<and> w' \<le> count \<and> full_frames ns' \<and> map pfn ns' = map pfn ns"
  using assms
proof (induction ns arbitrary: no bno off w)
  case Nil
  then show ?case by simp
next
  case (Cons n ns)
  have no: "s32 (no + 1) = no + 1" using Cons.prems by simp
  have rest: "full_frames ns" "no + 1 + int (length ns) < 2147483646" using Cons.prems by simp_all
  show ?case
  proof (cases "no + 1 = bno")
    case False
    obtain w' ns' where "write_pages ua buf count (no + 1) bno off w ns = Some (w', ns')"
      "w \<le> w'" "w' \<le> count" "full_frames ns'" "map pfn ns' = map pfn ns"
      using Cons.IH [of off w "no + 1" bno] Cons.prems rest by auto
    then show ?thesis using False no Cons.prems(1) by simp
  next
    case True
    define sz where "sz = min (4096 - off) (count - w)"
    have sz: "u32 (min (s32 (u32 (PAGE_SIZE - off))) (s32 (u32 (count - w)))) = sz"
      using Cons.prems unfolding sz_def by (intro round_size) simp_all
    have szb: "0 \<le> sz" "off + sz \<le> 4096" "w + sz \<le> count" using Cons.prems by (auto simp: sz_def)
    obtain bytes left where cp: "copy_from_user ua (no + 1) w buf sz = (bytes, left)" by fastforce
    have left: "0 \<le> left" "left \<le> sz" using copy_from_user_bounds [OF szb(1)] cp by (metis snd_conv)+
    have len: "int (length bytes) = sz"
      using copy_from_user_length [OF szb(1) Cons.prems(4)] cp by (metis fst_conv)
    have st: "page_store (frame n) off bytes = Some (blit (frame n) (nat off) bytes)"
      using Cons.prems szb len by (simp add: page_store_def)
    have fr: "length (blit (frame n) (nat off) bytes) = 4096"
      using Cons.prems szb len by simp
    define v where "v = w + (sz - left)"
    have v: "u32 (w + u32 (sz - left)) = v" "w \<le> v" "v \<le> count"
      using szb left Cons.prems by (simp_all add: v_def)
    show ?thesis
    proof (cases "v = count")
      case True
      then show ?thesis
        using \<open>no + 1 = bno\<close> no sz cp st fr v Cons.prems(1) by (simp add: Let_def)
    next
      case False
      obtain w' ns' where "write_pages ua buf count bno (s32 (bno + 1)) 0 v ns = Some (w', ns')"
        "v \<le> w'" "w' \<le> count" "full_frames ns'" "map pfn ns' = map pfn ns"
        using Cons.IH [of 0 v bno "s32 (bno + 1)"] Cons.prems rest v \<open>no + 1 = bno\<close> by auto
      then show ?thesis
        using False \<open>no + 1 = bno\<close> no sz cp st fr v Cons.prems(1) by (simp add: Let_def)
    qed
  qed
qed

text \<open>
  The read loop never leaves a page, and the user gets exactly as many bytes as it counts.
\<close>

lemma read_pages_safe:
  assumes "full_frames ns" "0 \<le> off" "off < 4096" "0 \<le> r" "r \<le> n" "n < 2147483648"
    and "- 1 \<le> no" "no + int (length ns) < 2147483646" "bno \<le> 2147483646"
  shows "\<exists>r' out. read_pages ua n no bno off r ns = Some (r', out) \<and>
    r' = r + int (length out) \<and> r' \<le> n"
  using assms
proof (induction ns arbitrary: no bno off r)
  case Nil
  then show ?case by simp
next
  case (Cons m ns)
  have no: "s32 (no + 1) = no + 1" using Cons.prems by simp
  have rest: "full_frames ns" "no + 1 + int (length ns) < 2147483646" using Cons.prems by simp_all
  show ?case
  proof (cases "no + 1 = bno")
    case False
    then show ?thesis using Cons.IH [of off r "no + 1" bno] Cons.prems rest no by auto
  next
    case True
    define sz where "sz = min (4096 - off) (n - r)"
    have sz: "u32 (min (s32 (u32 (PAGE_SIZE - off))) (s32 (u32 (n - r)))) = sz"
      using Cons.prems unfolding sz_def by (intro round_size) simp_all
    have szb: "0 \<le> sz" "off + sz \<le> 4096" "r + sz \<le> n" using Cons.prems by (auto simp: sz_def)
    define src where "src = take (nat sz) (drop (nat off) (frame m))"
    have pb: "page_bytes (frame m) off sz = Some src" and src: "int (length src) = sz"
      using Cons.prems szb by (simp_all add: page_bytes_def src_def)
    obtain bytes left where cp: "copy_to_user ua (no + 1) r src sz = (bytes, left)" by fastforce
    have left: "0 \<le> left" "left \<le> sz" using copy_to_user_bounds [OF szb(1)] cp by (metis snd_conv)+
    have len: "int (length bytes) = sz - left"
      using copy_to_user_length [OF szb(1) src] cp by (metis fst_conv snd_conv)
    define v where "v = r + (sz - left)"
    have v: "u32 (r + u32 (sz - left)) = v" "r \<le> v" "v \<le> n"
      using szb left Cons.prems by (simp_all add: v_def)
    show ?thesis
    proof (cases "v = n")
      case True
      then show ?thesis
        using \<open>no + 1 = bno\<close> no sz cp pb len v by (simp add: Let_def v_def)
    next
      case False
      obtain r' out where "read_pages ua n bno (s32 (bno + 1)) 0 v ns = Some (r', out)"
        "r' = v + int (length out)" "r' \<le> n"
        using Cons.IH [of 0 v bno "s32 (bno + 1)"] Cons.prems rest v \<open>no + 1 = bno\<close> by auto
      then show ?thesis
        using False \<open>no + 1 = bno\<close> no sz cp pb len v by (simp add: Let_def v_def)
    qed
  qed
qed

subsection \<open>The copy loops without faults\<close>

text \<open>
  From the page where the request begins, the write loop overwrites the region that follows
  in the flat store. The recursion over the pages splits the data at the page's end.
\<close>

lemma write_pages_from:
  assumes "no_fault ua" "full_frames ns" "0 \<le> off" "off < 4096" "0 \<le> w" "w \<le> count"
    and "count < 2147483648" "count \<le> int (length buf)" "- 1 \<le> no"
    and "no + int (length ns) < 2147483646" "off + (count - w) \<le> 4096 * int (length ns)"
  shows "\<exists>ns'. write_pages ua buf count no (no + 1) off w ns = Some (count, ns') \<and>
    full_frames ns' \<and> map pfn ns' = map pfn ns \<and>
    flat ns' = blit (flat ns) (nat off) (take (nat (count - w)) (drop (nat w) buf))"
  using assms
proof (induction ns arbitrary: no off w)
  case Nil
  then show ?case by simp
next
  case (Cons n ns)
  define sz where "sz = min (4096 - off) (count - w)"
  have sz: "u32 (min (s32 (u32 (PAGE_SIZE - off))) (s32 (u32 (count - w)))) = sz"
    using Cons.prems unfolding sz_def by (intro round_size) simp_all
  have szb: "0 \<le> sz" "off + sz \<le> 4096" "w + sz \<le> count" using Cons.prems by (auto simp: sz_def)
  have no: "s32 (no + 1) = no + 1" "s32 (no + 1 + 1) = no + 1 + 1" using Cons.prems by simp_all
  define bytes where "bytes = take (nat sz) (drop (nat w) buf)"
  have cp: "copy_from_user ua (no + 1) w buf sz = (bytes, 0)"
    unfolding bytes_def using Cons.prems szb by (intro copy_from_user_full) simp_all
  have len: "length bytes = nat sz" using Cons.prems szb by (simp add: bytes_def nat_le_iff)
  have st: "page_store (frame n) off bytes = Some (blit (frame n) (nat off) bytes)"
    using Cons.prems szb len by (simp add: page_store_def)
  have fr: "length (blit (frame n) (nat off) bytes) = 4096"
    using Cons.prems szb len by simp
  have v: "u32 (w + u32 (sz - 0)) = w + sz" using Cons.prems szb by simp
  have split: "take (nat (count - w)) (drop (nat w) buf) =
      bytes @ take (nat (count - (w + sz))) (drop (nat (w + sz)) buf)"
  proof -
    have "nat (count - w) = nat sz + nat (count - (w + sz))" "nat (w + sz) = nat sz + nat w"
      using szb Cons.prems by (simp_all add: nat_add_distrib [symmetric])
    then show ?thesis by (simp add: take_add bytes_def)
  qed
  show ?case
  proof (cases "w + sz = count")
    case True
    then have "flat (n\<lparr>frame := blit (frame n) (nat off) bytes\<rparr> # ns) =
        blit (flat (n # ns)) (nat off) (take (nat (count - w)) (drop (nat w) buf))"
      using split len Cons.prems szb by (simp add: blit_append_left)
    then show ?thesis
      using True no sz cp st fr v Cons.prems(2) by (simp add: Let_def)
  next
    case False
    then have whole: "off + sz = 4096" using szb by (auto simp: sz_def)
    define more where "more = take (nat (count - (w + sz))) (drop (nat (w + sz)) buf)"
    have "(count - (w + sz)) \<le> 4096 * int (length ns)" using Cons.prems whole by simp
    then obtain ns' where ns': "write_pages ua buf count (no + 1) (no + 1 + 1) 0 (w + sz) ns = Some (count, ns')"
      "full_frames ns'" "map pfn ns' = map pfn ns" "flat ns' = blit (flat ns) 0 more"
      using Cons.IH [of 0 "w + sz" "no + 1"] Cons.prems szb unfolding more_def by auto
    have "flat (n\<lparr>frame := blit (frame n) (nat off) bytes\<rparr> # ns') =
        blit (frame n @ flat ns) (nat off) (bytes @ more)"
      using ns'(4) len Cons.prems szb whole by (simp add: blit_append_across)
    then have "flat (n\<lparr>frame := blit (frame n) (nat off) bytes\<rparr> # ns') =
        blit (flat (n # ns)) (nat off) (take (nat (count - w)) (drop (nat w) buf))"
      using split by (simp add: more_def)
    then show ?thesis
      using False no sz cp st fr v ns' Cons.prems(2) by (simp add: Let_def)
  qed
qed

text \<open>The pages before the one where the request begins are passed over.\<close>

lemma write_pages_skip:
  assumes "m \<le> length ns" "- 1 \<le> no" "no + int (length ns) < 2147483646" "no + int m < bno"
  shows "write_pages ua buf count no bno off w ns =
    map_option (\<lambda>(r, ns'). (r, take m ns @ ns'))
      (write_pages ua buf count (no + int m) bno off w (drop m ns))"
  using assms
proof (induction ns arbitrary: no m)
  case Nil
  then show ?case by simp
next
  case (Cons n ns)
  show ?case
  proof (cases m)
    case 0
    then show ?thesis by (simp add: case_prod_beta option.map_ident)
  next
    case (Suc j)
    have "write_pages ua buf count (no + 1) bno off w ns =
      map_option (\<lambda>(r, ns'). (r, take j ns @ ns'))
        (write_pages ua buf count (no + 1 + int j) bno off w (drop j ns))"
      using Cons Suc by (intro Cons.IH) simp_all
    then show ?thesis
      using Cons.prems Suc by (simp add: option.map_comp o_def case_prod_beta ac_simps)
  qed
qed

lemma nat_page_split: "0 \<le> pos \<Longrightarrow> nat pos = 4096 * nat (pos div 4096) + nat (pos mod 4096)"
proof -
  assume "0 \<le> pos"
  then have "nat pos = nat (4096 * (pos div 4096) + pos mod 4096)" by simp
  also have "\<dots> = nat (4096 * (pos div 4096)) + nat (pos mod 4096)"
    using \<open>0 \<le> pos\<close> by (intro nat_add_distrib) simp_all
  finally show ?thesis by (simp add: nat_mult_distrib)
qed

lemma flat_take_drop: "flat ns = flat (take m ns) @ flat (drop m ns)"
  by (metis append_take_drop_id flat_append)

lemma write_pages_full:
  assumes "no_fault ua" "full_frames ns" "0 \<le> pos" "0 \<le> count" "count < 2147483648"
    and "count \<le> int (length buf)" "length ns < 1048576" "pos + count \<le> 4096 * int (length ns)"
    and "pos < 4294967296"
  shows "\<exists>ns'. write_pages ua buf count (- 1) (s32 (cdiv pos PAGE_SIZE)) (u32 (crem pos PAGE_SIZE)) 0 ns =
      Some (count, ns') \<and> full_frames ns' \<and> map pfn ns' = map pfn ns \<and>
    flat ns' = blit (flat ns) (nat pos) (take (nat count) buf)"
proof -
  define m where "m = nat (pos div 4096)"
  have m: "int m = pos div 4096" "m \<le> length ns" using assms by (simp_all add: m_def)
  have args: "s32 (cdiv pos PAGE_SIZE) = int m" "u32 (crem pos PAGE_SIZE) = pos mod 4096"
    using assms m by simp_all
  have pos: "pos = 4096 * int m + pos mod 4096" using m by simp
  have "int (length (drop m ns)) = int (length ns) - int m" using m by (simp add: of_nat_diff)
  then have room: "pos mod 4096 + (count - 0) \<le> 4096 * int (length (drop m ns))"
    using assms pos by linarith
  obtain ns' where ns': "write_pages ua buf count (int m - 1) (int m - 1 + 1) (pos mod 4096) 0 (drop m ns) =
      Some (count, ns')" "full_frames ns'" "map pfn ns' = map pfn (drop m ns)"
    "flat ns' = blit (flat (drop m ns)) (nat (pos mod 4096)) (take (nat (count - 0)) (drop (nat 0) buf))"
    using write_pages_from [of ua "drop m ns" "pos mod 4096" 0 count buf "int m - 1"]
      full_frames_drop [OF assms(2)] assms room m by (auto simp: of_nat_diff)
  have "write_pages ua buf count (- 1) (int m) (pos mod 4096) 0 ns = Some (count, take m ns @ ns')"
    using write_pages_skip [of m ns "- 1" "int m" ua buf count "pos mod 4096" 0] ns'(1) m assms by simp
  moreover have "flat (take m ns @ ns') = blit (flat ns) (nat pos) (take (nat count) buf)"
  proof -
    have full: "full_frames (take m ns)" using assms(2) by (auto simp: full_frames_def dest: in_set_takeD)
    have len: "length (flat (take m ns)) = 4096 * m"
      using length_flat_full [OF full] m by simp
    have "nat pos = 4096 * m + nat (pos mod 4096)"
      using nat_page_split [OF assms(3)] by (simp add: m_def)
    then show ?thesis
      using ns'(4) len by (subst flat_take_drop [of ns m]) (simp add: blit_append_right)
  qed
  moreover have "full_frames (take m ns @ ns')"
    using ns'(2) assms(2) by (auto simp: full_frames_def dest: in_set_takeD)
  moreover have "map pfn (take m ns @ ns') = map pfn ns"
    using ns'(3) by (metis append_take_drop_id map_append)
  ultimately show ?thesis using args by auto
qed

text \<open>The read loop in the same two steps.\<close>

lemma read_pages_from:
  assumes "no_fault ua" "full_frames ns" "0 \<le> off" "off < 4096" "0 \<le> r" "r \<le> n"
    and "n < 2147483648" "- 1 \<le> no" "no + int (length ns) < 2147483646"
    and "off + (n - r) \<le> 4096 * int (length ns)"
  shows "read_pages ua n no (no + 1) off r ns =
    Some (n, take (nat (n - r)) (drop (nat off) (flat ns)))"
  using assms
proof (induction ns arbitrary: no off r)
  case Nil
  then show ?case by simp
next
  case (Cons m ns)
  define sz where "sz = min (4096 - off) (n - r)"
  have sz: "u32 (min (s32 (u32 (PAGE_SIZE - off))) (s32 (u32 (n - r)))) = sz"
    using Cons.prems unfolding sz_def by (intro round_size) simp_all
  have szb: "0 \<le> sz" "off + sz \<le> 4096" "r + sz \<le> n" using Cons.prems by (auto simp: sz_def)
  have no: "s32 (no + 1) = no + 1" "s32 (no + 1 + 1) = no + 1 + 1" using Cons.prems by simp_all
  define src where "src = take (nat sz) (drop (nat off) (frame m))"
  have pb: "page_bytes (frame m) off sz = Some src" and src: "int (length src) = sz"
    using Cons.prems szb by (simp_all add: page_bytes_def src_def)
  have cp: "copy_to_user ua (no + 1) r src sz = (src, 0)"
    using Cons.prems szb src by (intro copy_to_user_full) simp_all
  have v: "u32 (r + u32 (sz - 0)) = r + sz" using Cons.prems szb by simp
  show ?case
  proof (cases "r + sz = n")
    case True
    then have "n - r = sz" and "nat (n - r) \<le> 4096 - nat off" using szb Cons.prems(3) by arith+
    then have "take (nat (n - r)) (drop (nat off) (flat (m # ns))) = src"
      using True Cons.prems(2,3,4) by (simp add: src_def \<open>n - r = sz\<close>)
    then show ?thesis using True no sz cp pb v by (simp add: Let_def)
  next
    case False
    then have whole: "off + sz = 4096" using szb by (auto simp: sz_def)
    have "read_pages ua n (no + 1) (no + 1 + 1) 0 (r + sz) ns =
        Some (n, take (nat (n - (r + sz))) (drop (nat 0) (flat ns)))"
      using Cons.prems szb whole by (intro Cons.IH) simp_all
    moreover have "src @ take (nat (n - (r + sz))) (flat ns) =
        take (nat (n - r)) (drop (nat off) (flat (m # ns)))"
    proof -
      have "nat sz = 4096 - nat off" using whole szb Cons.prems by (simp add: nat_diff_distrib [symmetric])
      then have "drop (nat off) (flat (m # ns)) = src @ flat ns"
        using Cons.prems(2,4) by (simp add: src_def)
      moreover have "nat (n - r) = length src + nat (n - (r + sz))" using src szb by simp
      ultimately show ?thesis by simp
    qed
    ultimately show ?thesis using False no sz cp pb v by (simp add: Let_def)
  qed
qed

lemma read_pages_skip:
  assumes "m \<le> length ns" "- 1 \<le> no" "no + int (length ns) < 2147483646" "no + int m < bno"
  shows "read_pages ua n no bno off r ns = read_pages ua n (no + int m) bno off r (drop m ns)"
  using assms
proof (induction ns arbitrary: no m)
  case Nil
  then show ?case by simp
next
  case (Cons p ns)
  show ?case
  proof (cases m)
    case 0
    then show ?thesis by simp
  next
    case (Suc j)
    have "read_pages ua n (no + 1) bno off r ns = read_pages ua n (no + 1 + int j) bno off r (drop j ns)"
      using Cons Suc by (intro Cons.IH) simp_all
    then show ?thesis using Cons.prems Suc by (simp add: ac_simps)
  qed
qed

lemma read_pages_full:
  assumes "no_fault ua" "full_frames ns" "0 \<le> pos" "0 \<le> n" "n < 2147483648"
    and "length ns < 1048576" "pos + n \<le> 4096 * int (length ns)" "pos < 4294967296"
  shows "read_pages ua n (- 1) (s32 (cdiv pos PAGE_SIZE)) (u32 (crem pos PAGE_SIZE)) 0 ns =
    Some (n, take (nat n) (drop (nat pos) (flat ns)))"
proof -
  define m where "m = nat (pos div 4096)"
  have m: "int m = pos div 4096" "m \<le> length ns" using assms by (simp_all add: m_def)
  have args: "s32 (cdiv pos PAGE_SIZE) = int m" "u32 (crem pos PAGE_SIZE) = pos mod 4096"
    using assms m by simp_all
  have pos: "pos = 4096 * int m + pos mod 4096" using m by simp
  have "int (length (drop m ns)) = int (length ns) - int m" using m by (simp add: of_nat_diff)
  then have room: "pos mod 4096 + (n - 0) \<le> 4096 * int (length (drop m ns))"
    using assms pos by linarith
  have "read_pages ua n (int m - 1) (int m - 1 + 1) (pos mod 4096) 0 (drop m ns) =
      Some (n, take (nat (n - 0)) (drop (nat (pos mod 4096)) (flat (drop m ns))))"
    using full_frames_drop [OF assms(2)] assms room m
    by (intro read_pages_from) (simp_all add: of_nat_diff)
  then have "read_pages ua n (- 1) (int m) (pos mod 4096) 0 ns =
      Some (n, take (nat n) (drop (nat (pos mod 4096)) (flat (drop m ns))))"
    using read_pages_skip [of m ns "- 1" "int m" ua n "pos mod 4096" 0] m assms by simp
  moreover have "drop (nat pos) (flat ns) = drop (nat (pos mod 4096)) (flat (drop m ns))"
  proof -
    have full: "full_frames (take m ns)" using assms(2) by (auto simp: full_frames_def dest: in_set_takeD)
    have "length (flat (take m ns)) = 4096 * m" using length_flat_full [OF full] m by simp
    moreover have "nat pos = 4096 * m + nat (pos mod 4096)"
      using nat_page_split [OF assms(3)] by (simp add: m_def)
    ultimately show ?thesis by (subst flat_take_drop [of ns m]) simp
  qed
  ultimately show ?thesis using args by simp
qed

end
