(* ===== verification/Interfaces.thy ===== *)
theory Interfaces
  imports Kernel
begin

section \<open>The contracts the drivers share\<close>

text \<open>
  Each locale states one contract that several drivers of the repository have, and proves
  what a client may conclude from it: a store of bytes that is written and read at
  positions, a bounded first-in-first-out buffer, a file position that seeks keep inside the
  device, the admission of a bounded number of users, and the refinement of a specification by runs. The drivers' theories interpret
  them on their own operations.
\<close>

subsection \<open>A store of bytes\<close>

text \<open>
  \<open>put\<close> overwrites from a position, \<open>get\<close> reads up to so many bytes from one; \<open>fits\<close> says
  when a \<open>put\<close> of so many bytes is possible. The store may grow at its end; bytes in a gap
  between the old end and a later \<open>put\<close> are not specified.
\<close>

fun put_chunks :: "('s \<Rightarrow> int \<Rightarrow> byte list \<Rightarrow> 's) \<Rightarrow> 's \<Rightarrow> int \<Rightarrow> byte list list \<Rightarrow> 's" where
  "put_chunks put s p [] = s"
| "put_chunks put s p (c # cs) = put_chunks put (put s p c) (p + int (length c)) cs"

locale byte_store =
  fixes ok :: "'s \<Rightarrow> bool"
    and size_of :: "'s \<Rightarrow> int"
    and byte_at :: "'s \<Rightarrow> int \<Rightarrow> byte"
    and fits :: "'s \<Rightarrow> int \<Rightarrow> int \<Rightarrow> bool"
    and put :: "'s \<Rightarrow> int \<Rightarrow> byte list \<Rightarrow> 's"
    and get :: "'s \<Rightarrow> int \<Rightarrow> int \<Rightarrow> byte list"
  assumes size_nonneg: "ok s \<Longrightarrow> 0 \<le> size_of s"
    and fits_nonneg: "fits s p n \<Longrightarrow> 0 \<le> p"
    and fits_prefix: "fits s p n \<Longrightarrow> 0 \<le> m \<Longrightarrow> m \<le> n \<Longrightarrow> fits s p m"
    and fits_after: "ok s \<Longrightarrow> fits s p (int (length bs) + n) \<Longrightarrow> 0 \<le> n \<Longrightarrow>
      fits (put s p bs) (p + int (length bs)) n"
    and ok_put: "ok s \<Longrightarrow> fits s p (int (length bs)) \<Longrightarrow> ok (put s p bs)"
    and size_put: "ok s \<Longrightarrow> fits s p (int (length bs)) \<Longrightarrow>
      size_of (put s p bs) = max (size_of s) (p + int (length bs))"
    and put_hit: "ok s \<Longrightarrow> fits s p (int (length bs)) \<Longrightarrow> p \<le> i \<Longrightarrow> i < p + int (length bs) \<Longrightarrow>
      byte_at (put s p bs) i = bs ! nat (i - p)"
    and put_miss: "ok s \<Longrightarrow> fits s p (int (length bs)) \<Longrightarrow> 0 \<le> i \<Longrightarrow> i < size_of s \<Longrightarrow>
      i < p \<or> p + int (length bs) \<le> i \<Longrightarrow> byte_at (put s p bs) i = byte_at s i"
    and get_bytes: "ok s \<Longrightarrow> 0 \<le> p \<Longrightarrow> p \<le> size_of s \<Longrightarrow> 0 \<le> n \<Longrightarrow> n < 2147483648 \<Longrightarrow>
      get s p n = map (byte_at s) [p..min (p + n) (size_of s) - 1]"
begin

lemma put_covers:
  assumes "ok s" and "fits s p (int (length bs))"
  shows "p + int (length bs) \<le> size_of (put s p bs)" and "size_of s \<le> size_of (put s p bs)"
  using assms by (simp_all add: size_put)

text \<open>What was put is what a \<open>get\<close> of the same region returns.\<close>

lemma get_put:
  assumes "ok s" and "fits s p (int (length bs))" and "length bs < 2147483648"
  shows "get (put s p bs) p (int (length bs)) = bs"
proof -
  have p: "0 \<le> p" using assms(2) by (rule fits_nonneg)
  have "get (put s p bs) p (int (length bs)) =
      map (byte_at (put s p bs)) [p..p + int (length bs) - 1]"
    using get_bytes [OF ok_put [OF assms(1,2)], of p "int (length bs)"] put_covers [OF assms(1,2)] p assms(3)
    by (simp add: min_absorb1)
  also have "\<dots> = bs"
    by (rule nth_equalityI) (simp_all add: put_hit [OF assms(1,2)])
  finally show ?thesis .
qed

text \<open>A \<open>get\<close> of a region that the \<open>put\<close> does not touch is not changed by it.\<close>

lemma get_put_other:
  assumes "ok s" and "fits s p (int (length bs))"
    and "0 \<le> q" "0 \<le> n" "n < 2147483648" "q + n \<le> size_of s"
    and "q + n \<le> p \<or> p + int (length bs) \<le> q"
  shows "get (put s p bs) q n = get s q n"
proof -
  have "q + n \<le> size_of (put s p bs)" using put_covers(2) [OF assms(1,2)] assms(6) by linarith
  then show ?thesis
    using assms get_bytes [OF ok_put [OF assms(1,2)], of q n] get_bytes [OF assms(1), of q n]
    by (auto simp: min_absorb1 put_miss intro!: map_cong)
qed

text \<open>A region written by one \<open>put\<close> after the other reads as the concatenation.\<close>

lemma put_chunks_bytes:
  assumes "ok s" and "fits s p (int (length (concat cs)))"
  shows "ok (put_chunks put s p cs) \<and>
    size_of (put_chunks put s p cs) \<ge> size_of s \<and>
    (cs \<noteq> [] \<longrightarrow> size_of (put_chunks put s p cs) = max (size_of s) (p + int (length (concat cs)))) \<and>
    (\<forall>i. 0 \<le> i \<longrightarrow> i < p \<longrightarrow> i < size_of s \<longrightarrow> byte_at (put_chunks put s p cs) i = byte_at s i) \<and>
    (\<forall>i. p \<le> i \<longrightarrow> i < p + int (length (concat cs)) \<longrightarrow>
       byte_at (put_chunks put s p cs) i = concat cs ! nat (i - p))"
  using assms
proof (induction cs arbitrary: s p)
  case Nil
  then show ?case by simp
next
  case (Cons c cs)
  let ?t = "put s p c" and ?q = "p + int (length c)"
  have fit: "fits s p (int (length c))"
    using Cons.prems(2) by (rule fits_prefix) simp_all
  have p: "0 \<le> p" using fit by (rule fits_nonneg)
  have t: "ok ?t" "size_of ?t = max (size_of s) ?q"
    using ok_put [OF Cons.prems(1) fit] size_put [OF Cons.prems(1) fit] by auto
  have "fits ?t ?q (int (length (concat cs)))"
    using fits_after [OF Cons.prems(1)] Cons.prems(2) by simp
  note IH = Cons.IH [OF t(1) this]
  have whole: "put_chunks put s p (c # cs) = put_chunks put ?t ?q cs" by simp
  have size: "size_of (put_chunks put ?t ?q cs) = max (size_of s) (?q + int (length (concat cs)))"
    using IH t(2) by (cases "cs = []") auto
  have low: "byte_at (put_chunks put ?t ?q cs) i = byte_at s i"
    if "0 \<le> i" "i < p" "i < size_of s" for i
  proof -
    have "byte_at (put_chunks put ?t ?q cs) i = byte_at ?t i" using IH that t(2) by auto
    also have "\<dots> = byte_at s i" using put_miss [OF Cons.prems(1) fit] that by simp
    finally show ?thesis .
  qed
  have hit: "byte_at (put_chunks put ?t ?q cs) i = concat (c # cs) ! nat (i - p)"
    if "p \<le> i" "i < p + int (length (concat (c # cs)))" for i
  proof (cases "i < ?q")
    case True
    then have "byte_at (put_chunks put ?t ?q cs) i = byte_at ?t i" using IH that t(2) p by auto
    then show ?thesis
      using True that put_hit [OF Cons.prems(1) fit, of i] by (simp add: nth_append nat_less_iff)
  next
    case False
    then have "byte_at (put_chunks put ?t ?q cs) i = concat cs ! nat (i - ?q)" using IH that by auto
    moreover have "nat (i - ?q) = nat (i - p) - length c" using False by arith
    ultimately show ?thesis using False by (simp add: nth_append nat_less_iff)
  qed
  have "size_of s \<le> size_of (put_chunks put ?t ?q cs)" using size by simp
  then show ?case using whole IH size low hit by (simp del: put_chunks.simps)
qed

lemma get_put_chunks:
  assumes "ok s" and "fits s p (int (length (concat cs)))" and "cs \<noteq> []"
    and "length (concat cs) < 2147483648"
  shows "get (put_chunks put s p cs) p (int (length (concat cs))) = concat cs"
proof -
  note w = put_chunks_bytes [OF assms(1,2)]
  have p: "0 \<le> p" using assms(2) by (rule fits_nonneg)
  have "p + int (length (concat cs)) \<le> size_of (put_chunks put s p cs)" using w assms(3) by simp
  then have "get (put_chunks put s p cs) p (int (length (concat cs))) =
      map (byte_at (put_chunks put s p cs)) [p..p + int (length (concat cs)) - 1]"
    using get_bytes [of "put_chunks put s p cs" p] w p assms(4) by (simp add: min_absorb1)
  also have "\<dots> = concat cs"
    using w by (intro nth_equalityI) simp_all
  finally show ?thesis .
qed

end

subsection \<open>A bounded first-in-first-out buffer\<close>

text \<open>
  \<open>contents\<close> is the queue that the buffer holds, oldest element first. A client may add while
  there is room and take while it is not empty.
\<close>

fun take_all :: "('q \<Rightarrow> 'a \<times> 'q) \<Rightarrow> nat \<Rightarrow> 'q \<Rightarrow> 'a list \<times> 'q" where
  "take_all deq 0 q = ([], q)"
| "take_all deq (Suc n) q =
     (let (x, q1) = deq q; (xs, q2) = take_all deq n q1 in (x # xs, q2))"

locale bounded_queue =
  fixes well_formed :: "'q \<Rightarrow> bool"
    and contents :: "'q \<Rightarrow> 'a list"
    and capacity :: nat
    and enq :: "'a \<Rightarrow> 'q \<Rightarrow> 'q"
    and deq :: "'q \<Rightarrow> 'a \<times> 'q"
  assumes room: "well_formed q \<Longrightarrow> length (contents q) \<le> capacity"
    and wf_enq: "well_formed q \<Longrightarrow> length (contents q) < capacity \<Longrightarrow> well_formed (enq x q)"
    and contents_enq: "well_formed q \<Longrightarrow> length (contents q) < capacity \<Longrightarrow>
      contents (enq x q) = contents q @ [x]"
    and wf_deq: "well_formed q \<Longrightarrow> contents q \<noteq> [] \<Longrightarrow> well_formed (snd (deq q))"
    and contents_deq: "well_formed q \<Longrightarrow> contents q \<noteq> [] \<Longrightarrow>
      contents q = fst (deq q) # contents (snd (deq q))"
begin

lemma enq_all:
  "well_formed q \<Longrightarrow> length (contents q) + length xs \<le> capacity \<Longrightarrow>
   well_formed (fold enq xs q) \<and> contents (fold enq xs q) = contents q @ xs"
  by (induction xs arbitrary: q) (simp_all add: wf_enq contents_enq)

lemma deq_all:
  "well_formed q \<Longrightarrow> n = length (contents q) \<Longrightarrow>
   fst (take_all deq n q) = contents q \<and> well_formed (snd (take_all deq n q)) \<and>
   contents (snd (take_all deq n q)) = []"
proof (induction n arbitrary: q)
  case 0
  then show ?case by simp
next
  case (Suc n)
  then have ne: "contents q \<noteq> []" by auto
  note d = wf_deq [OF Suc.prems(1) ne] contents_deq [OF Suc.prems(1) ne]
  have "n = length (contents (snd (deq q)))" using Suc.prems(2) d(2) by (metis length_Cons nat.inject)
  from Suc.IH [OF d(1) this] d(2) show ?case
    by (simp add: case_prod_beta Let_def)
qed

text \<open>What was added comes out in the same order, after what was there before.\<close>

lemma fifo:
  assumes "well_formed q" and "length (contents q) + length xs \<le> capacity"
  shows "fst (take_all deq (length (contents q) + length xs) (fold enq xs q)) = contents q @ xs"
  using enq_all [OF assms] deq_all [of "fold enq xs q" "length (contents q) + length xs"] by simp

end

subsection \<open>A file position\<close>

text \<open>
  A seek returns the new position or a negative error, and the position the file then has.
\<close>

fun seeks :: "('d \<Rightarrow> int \<Rightarrow> int \<Rightarrow> int \<Rightarrow> int \<times> int) \<Rightarrow> 'd \<Rightarrow> int \<Rightarrow> (int \<times> int) list \<Rightarrow> int" where
  "seeks lseek d pos [] = pos"
| "seeks lseek d pos ((offset, whence) # rest) =
     seeks lseek d (snd (lseek d pos offset whence)) rest"

locale seekable =
  fixes sane :: "'d \<Rightarrow> bool"
    and limit :: "'d \<Rightarrow> int"
    and lseek :: "'d \<Rightarrow> int \<Rightarrow> int \<Rightarrow> int \<Rightarrow> int \<times> int"
  assumes seek_inside: "sane d \<Longrightarrow> 0 \<le> pos \<Longrightarrow> pos \<le> limit d \<Longrightarrow> lseek d pos off whence = (r, pos') \<Longrightarrow>
      0 \<le> pos' \<and> pos' \<le> limit d"
    and seek_result: "sane d \<Longrightarrow> lseek d pos off whence = (r, pos') \<Longrightarrow>
      (0 \<le> r \<and> pos' = r) \<or> (r = - EINVAL \<and> pos' = pos)"
begin

lemma seeks_inside:
  "sane d \<Longrightarrow> 0 \<le> pos \<Longrightarrow> pos \<le> limit d \<Longrightarrow>
   0 \<le> seeks lseek d pos cmds \<and> seeks lseek d pos cmds \<le> limit d"
proof (induction cmds arbitrary: pos)
  case Nil
  then show ?case by simp
next
  case (Cons c cmds)
  obtain off whence where c: "c = (off, whence)" by fastforce
  obtain r pos' where l: "lseek d pos off whence = (r, pos')" by fastforce
  from seek_inside [OF Cons.prems l] Cons.IH [OF Cons.prems(1)] c l show ?case by simp
qed

end

subsection \<open>Admission\<close>

text \<open>
  A device admits users up to a limit. \<open>enter\<close> says whether it let the user in.
\<close>

datatype visit = Enter | Leave

fun visits :: "('d \<Rightarrow> bool \<times> 'd) \<Rightarrow> ('d \<Rightarrow> 'd) \<Rightarrow> nat \<times> 'd \<Rightarrow> visit list \<Rightarrow> nat \<times> 'd" where
  "visits enter leave (n, d) [] = (n, d)"
| "visits enter leave (n, d) (Enter # vs) =
     (let (ok, d') = enter d in visits enter leave (if ok then Suc n else n, d') vs)"
| "visits enter leave (n, d) (Leave # vs) =
     (if n = 0 then visits enter leave (n, d) vs else visits enter leave (n - 1, leave d) vs)"

locale admission =
  fixes users :: "'d \<Rightarrow> int"
    and bound :: "'d \<Rightarrow> int"
    and enter :: "'d \<Rightarrow> bool \<times> 'd"
    and leave :: "'d \<Rightarrow> 'd"
  assumes enter_iff: "fst (enter d) \<longleftrightarrow> users d < bound d"
    and enter_users: "0 \<le> users d \<Longrightarrow> bound d \<le> 2147483647 \<Longrightarrow> fst (enter d) \<Longrightarrow>
      users (snd (enter d)) = users d + 1"
    and enter_refused: "\<not> fst (enter d) \<Longrightarrow> snd (enter d) = d"
    and enter_bound: "bound (snd (enter d)) = bound d"
    and leave_users: "0 < users d \<Longrightarrow> users d \<le> 2147483647 \<Longrightarrow> users (leave d) = users d - 1"
    and leave_bound: "bound (leave d) = bound d"
begin

text \<open>Whatever the users do one after the other, the count is exact and within the limit.\<close>

lemma visits_bounded:
  assumes "users d = int n" and "int n \<le> bound d" and "bound d \<le> 2147483647"
    and "visits enter leave (n, d) vs = (n', d')"
  shows "users d' = int n' \<and> int n' \<le> bound d' \<and> bound d' = bound d"
  using assms
proof (induction vs arbitrary: n d)
  case Nil
  then show ?case by simp
next
  case (Cons v vs)
  show ?case
  proof (cases v)
    case Enter
    show ?thesis
    proof (cases "fst (enter d)")
      case True
      then have "users (snd (enter d)) = int (Suc n)" "int (Suc n) \<le> bound (snd (enter d))"
        using Cons.prems enter_users enter_iff enter_bound by auto
      from Cons.IH [OF this] True Enter Cons.prems(3,4) show ?thesis
        by (simp add: case_prod_beta Let_def enter_bound)
    next
      case False
      then show ?thesis
        using Cons.IH [of d n] Enter Cons.prems enter_refused by (simp add: case_prod_beta Let_def)
    qed
  next
    case Leave
    show ?thesis
    proof (cases n)
      case 0
      then show ?thesis using Cons.IH [of d n] Leave Cons.prems by simp
    next
      case (Suc m)
      have "0 < users d" "users d \<le> 2147483647" using Cons.prems Suc by simp_all
      then have "users (leave d) = int m" "int m \<le> bound (leave d)"
        using leave_users leave_bound Cons.prems Suc by simp_all
      from Cons.IH [OF this] Leave Suc Cons.prems(3,4) show ?thesis by (simp add: leave_bound)
    qed
  qed
qed

end

subsection \<open>Refinement of runs\<close>

text \<open>
  An implementation answers an event in a state, or has no result; a specification always has
  an answer, but promises something only for the events that it allows in its state. Where every
  step of the one is matched by a step of the other, so is every run, answer by answer.
\<close>

fun answers :: "('e \<Rightarrow> 'c \<Rightarrow> ('o \<times> 'c) option) \<Rightarrow> 'e list \<Rightarrow> 'c \<Rightarrow> ('o list \<times> 'c) option" where
  "answers impl [] c = Some ([], c)"
| "answers impl (e # es) c =
     (case impl e c of
        None \<Rightarrow> None
      | Some (r, c) \<Rightarrow> map_option (\<lambda>(rs, c). (r # rs, c)) (answers impl es c))"

fun promised :: "('e \<Rightarrow> 'a \<Rightarrow> 'o \<times> 'a) \<Rightarrow> 'e list \<Rightarrow> 'a \<Rightarrow> 'o list \<times> 'a" where
  "promised spec [] a = ([], a)"
| "promised spec (e # es) a = (let (r, a) = spec e a; (rs, a) = promised spec es a in (r # rs, a))"

fun all_allowed :: "('a \<Rightarrow> 'e \<Rightarrow> bool) \<Rightarrow> ('e \<Rightarrow> 'a \<Rightarrow> 'o \<times> 'a) \<Rightarrow> 'e list \<Rightarrow> 'a \<Rightarrow> bool" where
  "all_allowed allowed spec [] a = True"
| "all_allowed allowed spec (e # es) a = (allowed a e \<and> all_allowed allowed spec es (snd (spec e a)))"

locale run_refinement =
  fixes related :: "'c \<Rightarrow> 'a \<Rightarrow> bool"
    and impl :: "'e \<Rightarrow> 'c \<Rightarrow> ('o \<times> 'c) option"
    and spec :: "'e \<Rightarrow> 'a \<Rightarrow> 'o \<times> 'a"
    and allowed :: "'a \<Rightarrow> 'e \<Rightarrow> bool"
  assumes step: "related c a \<Longrightarrow> allowed a e \<Longrightarrow>
      \<exists>d. impl e c = Some (fst (spec e a), d) \<and> related d (snd (spec e a))"
begin

lemma runs:
  "related c a \<Longrightarrow> all_allowed allowed spec es a \<Longrightarrow>
   \<exists>d. answers impl es c = Some (fst (promised spec es a), d) \<and> related d (snd (promised spec es a))"
proof (induction es arbitrary: c a)
  case Nil
  then show ?case by simp
next
  case (Cons e es)
  from step [OF Cons.prems(1), of e] Cons.prems(2) obtain d where
    d: "impl e c = Some (fst (spec e a), d)" "related d (snd (spec e a))" by auto
  from Cons.IH [OF d(2)] Cons.prems(2) obtain u where
    "answers impl es d = Some (fst (promised spec es (snd (spec e a))), u)"
    "related u (snd (promised spec es (snd (spec e a))))" by auto
  then show ?case using d(1) by (simp add: case_prod_beta Let_def)
qed

end

end
