(* ===== verification/Asgn1_Spec.thy ===== *)
theory Asgn1_Spec
  imports Asgn1_Store Interfaces
begin

section \<open>The RAM disk of assignment 1 against its specification\<close>

text \<open>
  The operations as wholes: what a read returns and what a write leaves, with and without
  faults of the user's memory; the interpretations of the shared contracts on the driver
  (store of bytes, file position, admission); and the properties of the component.
\<close>

subsection \<open>Reads\<close>

lemma dev_inv_bounds:
  assumes "dev_inv d"
  shows "full_frames (mem_list d)" "length (mem_list d) < 1048576"
    "data_size d \<le> 4096 * int (length (mem_list d))" "data_size d < 4294967296"
  using assms by (auto simp: dev_inv_def pages_ok_full)

lemma asgn1_read_ok:
  assumes "dev_inv d" "no_fault ua" "0 \<le> pos" "pos \<le> data_size d" "0 \<le> count" "count < 2147483648"
  shows "asgn1_read ua d count pos =
    Some (min count (data_size d - pos),
          take (nat (min count (data_size d - pos))) (drop (nat pos) (flat (mem_list d))),
          pos + min count (data_size d - pos))"
proof -
  note b = dev_inv_bounds [OF assms(1)]
  define n where "n = min count (data_size d - pos)"
  have n: "0 \<le> n" "n < 2147483648" "pos + n \<le> 4096 * int (length (mem_list d))" "pos < 4294967296"
    using assms b by (auto simp: n_def)
  have "u32 (data_size d - u32 pos) = data_size d - pos" using assms b n by simp
  then show ?thesis
    using read_pages_full [OF assms(2) b(1) assms(3) n(1,2) b(2) n(3,4)] assms n
    unfolding asgn1_read_def n_def [symmetric] by (simp add: Let_def n_def [symmetric])
qed

lemma asgn1_read_past_end: "data_size d < pos \<Longrightarrow> asgn1_read ua d count pos = Some (0, [], pos)"
  by (simp add: asgn1_read_def)

lemma asgn1_read_safe:
  assumes "dev_inv d" "0 \<le> pos" "pos < 9223372034707292160" "0 \<le> count" "count < 2147483648"
  shows "\<exists>ret out. asgn1_read ua d count pos = Some (ret, out, pos + ret) \<and>
    ret = int (length out) \<and> ret \<le> count \<and> (pos \<le> data_size d \<longrightarrow> pos + ret \<le> data_size d)"
proof (cases "pos \<le> data_size d")
  case False
  then show ?thesis using assms by (simp add: asgn1_read_past_end)
next
  case True
  note b = dev_inv_bounds [OF assms(1)]
  define n where "n = min count (data_size d - pos)"
  have n: "0 \<le> n" "n < 2147483648" "pos + n \<le> data_size d" "pos < 4294967296" "n \<le> count"
    using assms b True by (auto simp: n_def)
  have u: "u32 (data_size d - u32 pos) = data_size d - pos" using assms b n True by simp
  have off: "0 \<le> u32 (crem pos PAGE_SIZE)" "u32 (crem pos PAGE_SIZE) < 4096" using assms n by simp_all
  have bno: "s32 (cdiv pos PAGE_SIZE) \<le> 2147483646" using assms n by simp
  obtain r' out where "read_pages ua n (- 1) (s32 (cdiv pos PAGE_SIZE)) (u32 (crem pos PAGE_SIZE)) 0 (mem_list d) =
      Some (r', out)" "r' = 0 + int (length out)" "r' \<le> n"
    using read_pages_safe [where ua = ua and ns = "mem_list d" and off = "u32 (crem pos PAGE_SIZE)"
        and r = 0 and n = n and no = "- 1" and bno = "s32 (cdiv pos PAGE_SIZE)"] b off n(1,2) bno by auto
  then show ?thesis
    using True n u assms unfolding asgn1_read_def by (auto simp: Let_def n_def [symmetric])
qed

subsection \<open>Writes\<close>

text \<open>Whatever faults: no access outside a page, the machine stays well formed.\<close>

lemma asgn1_write_safe:
  assumes "machine_ok k d" "0 \<le> pos" "pos < 9223372034707292160" "0 \<le> count" "count < 2147483648"
  shows "\<exists>ret k' d'. asgn1_write ua k d buf count pos = Some (ret, pos + ret, k', d') \<and>
    0 \<le> ret \<and> ret \<le> count \<and> machine_ok k' d' \<and>
    data_size d \<le> data_size d' \<and> (0 < ret \<longrightarrow> data_size d' = max (data_size d) (pos + ret)) \<and>
    take (length (mem_list d)) (map pfn (mem_list d')) = map pfn (mem_list d) \<and>
    nprocs d' = nprocs d \<and> max_nprocs d' = max_nprocs d"
proof -
  obtain added k1 d1 where a: "add_pages (pos + count) k d = (added, k1, d1)" by (metis prod_cases3)
  have t: "s64 (pos + count) = pos + count" using assms by simp
  note f = add_pages_frame [OF assms(1) a]
  obtain ms where ms: "mem_list d1 = mem_list d @ ms" using f(2) by blast
  have same: "data_size d1 = data_size d" "nprocs d1 = nprocs d" "max_nprocs d1 = max_nprocs d"
    using f(3) by (metis asgn_dev.select_convs asgn_dev.surjective asgn_dev.update_convs)+
  show ?thesis
  proof (cases added)
    case False
    then show ?thesis
      using a t f(1) same ms assms unfolding asgn1_write_def by (simp add: Let_def)
  next
    case True
    have inv: "dev_inv d1" using f(1) by (simp add: machine_ok_def)
    note b = dev_inv_bounds [OF inv]
    have cap: "pos + count \<le> num_pages d1 * 4096" "num_pages d1 = int (length (mem_list d1))"
      using f(4) True inv by (simp_all add: dev_inv_def)
    then have small: "pos < 4294967296" "pos + count < 4294967296" using b(2) assms by linarith+
    have off: "0 \<le> u32 (crem pos PAGE_SIZE)" "u32 (crem pos PAGE_SIZE) < 4096" using assms small by simp_all
    have bno: "s32 (cdiv pos PAGE_SIZE) \<le> 2147483646" using assms small by simp
    obtain w ns where w: "write_pages ua buf count (- 1) (s32 (cdiv pos PAGE_SIZE)) (u32 (crem pos PAGE_SIZE)) 0
        (mem_list d1) = Some (w, ns)" "0 \<le> w" "w \<le> count" "full_frames ns" "map pfn ns = map pfn (mem_list d1)"
      using write_pages_safe [where ua = ua and buf = buf and ns = "mem_list d1"
          and off = "u32 (crem pos PAGE_SIZE)" and w = 0 and count = count and no = "- 1"
          and bno = "s32 (cdiv pos PAGE_SIZE)"] b off assms(4,5) bno by auto
    define d2 where "d2 = d1\<lparr>mem_list := ns, data_size := max (data_size d1) (pos + w)\<rparr>"
    have res: "asgn1_write ua k d buf count pos = Some (w, pos + w, k1, d2)"
      using a t True w small assms unfolding asgn1_write_def d2_def by (simp add: Let_def)
    have "length ns = length (mem_list d1)" using w(5) by (metis length_map)
    moreover have "pfn ` set ns = pfn ` set (mem_list d1)" using w(5) by (metis list.set_map)
    ultimately have "machine_ok k1 d2"
      using f(1) w cap assms by (auto simp: machine_ok_def dev_inv_def d2_def pages_ok_full)
    moreover have "take (length (mem_list d)) (map pfn (mem_list d2)) = map pfn (mem_list d)"
      using w(5) ms by (simp add: d2_def)
    ultimately show ?thesis using res w same by (auto simp: d2_def)
  qed
qed

text \<open>Without faults and with the memory it takes: the region is overwritten in the flat store.\<close>

lemma add_pages_remaining:
  assumes "machine_ok k d" and "mem_available n k" and "target \<le> (num_pages d + int n) * 4096"
  shows "mem_available (nat (num_pages d + int n - num_pages (snd (snd (add_pages target k d)))))
    (fst (snd (add_pages target k d)))"
  using assms
proof (induction n arbitrary: k d)
  case 0
  then show ?case by (simp add: add_pages_step)
next
  case (Suc n)
  show ?case
  proof (cases "num_pages d * 4096 < target")
    case False
    then show ?thesis using Suc.prems by (simp add: add_pages_step nat_add_distrib)
  next
    case True
    note more = mem_available_Suc [OF Suc.prems(2)]
    then obtain p where p: "fst (alloc_page (snd (kmalloc k))) = Some p" by blast
    have "target \<le> (num_pages (add_page p d) + int n) * 4096" using Suc.prems(3) by simp
    note IH = Suc.IH [OF machine_ok_alloc [OF Suc.prems(1) p] more(3) this]
    then show ?thesis
      using Suc.prems(1) True more(1) p by (simp add: add_pages_step algebra_simps)
  qed
qed

text \<open>\<open>writable\<close>: the request lies below the last page count of 32 bits, and there is memory.\<close>

definition writable :: "kmem \<Rightarrow> asgn_dev \<Rightarrow> int \<Rightarrow> int \<Rightarrow> bool" where
  "writable k d pos n \<longleftrightarrow>
     0 \<le> pos \<and> 0 \<le> n \<and> n < 2147483648 \<and> pos + n \<le> 4294963200 \<and>
     mem_available (nat (pages_for (pos + n) - num_pages d)) k"

lemma pages_for_le:
  assumes "pages_for target \<le> m" shows "target \<le> m * 4096"
proof -
  have "target \<le> (target + 4095) div 4096 * 4096" by simp
  also have "\<dots> \<le> m * 4096" using assms unfolding pages_for_def by (rule mult_right_mono) simp
  finally show ?thesis .
qed

lemma asgn1_write_ok:
  assumes "machine_ok k d" "no_fault ua" "writable k d pos count" "count \<le> int (length buf)"
  shows "\<exists>k' d' fill. asgn1_write ua k d buf count pos = Some (count, pos + count, k', d') \<and>
    machine_ok k' d' \<and> data_size d' = max (data_size d) (pos + count) \<and>
    num_pages d' = max (num_pages d) (pages_for (pos + count)) \<and>
    flat (mem_list d') = blit (flat (mem_list d) @ fill) (nat pos) (take (nat count) buf) \<and>
    nprocs d' = nprocs d \<and> max_nprocs d' = max_nprocs d \<and>
    (\<forall>n. mem_available n k \<longrightarrow> pages_for (pos + count) \<le> num_pages d + int n \<longrightarrow>
       mem_available (nat (num_pages d + int n - num_pages d')) k')"
proof -
  have p: "0 \<le> pos" "0 \<le> count" "count < 2147483648" "pos + count \<le> 4294963200"
    and m: "mem_available (nat (pages_for (pos + count) - num_pages d)) k"
    using assms(3) by (auto simp: writable_def)
  obtain added k1 d1 where a: "add_pages (pos + count) k d = (added, k1, d1)" by (metis prod_cases3)
  have t: "s64 (pos + count) = pos + count" using p by simp
  note f = add_pages_frame [OF assms(1) a]
  obtain ms where ms: "mem_list d1 = mem_list d @ ms" using f(2) by blast
  have same: "data_size d1 = data_size d" "nprocs d1 = nprocs d" "max_nprocs d1 = max_nprocs d"
    using f(3) by (metis asgn_dev.select_convs asgn_dev.surjective asgn_dev.update_convs)+
  have "pages_for (pos + count) \<le> num_pages d + int (nat (pages_for (pos + count) - num_pages d))" by simp
  then have enough: "pos + count \<le> (num_pages d + int (nat (pages_for (pos + count) - num_pages d))) * 4096"
    by (rule pages_for_le)
  have added: added and np: "num_pages d1 = max (num_pages d) (pages_for (pos + count))"
    using add_pages_enough [OF assms(1) m enough] a by simp_all
  have inv: "dev_inv d1" using f(1) by (simp add: machine_ok_def)
  note b = dev_inv_bounds [OF inv]
  have cap: "pos + count \<le> 4096 * int (length (mem_list d1))" "pos < 4294967296"
    using f(4) added inv p by (simp_all add: dev_inv_def)
  obtain ns where ns: "write_pages ua buf count (- 1) (s32 (cdiv pos PAGE_SIZE)) (u32 (crem pos PAGE_SIZE)) 0
      (mem_list d1) = Some (count, ns)" "full_frames ns" "map pfn ns = map pfn (mem_list d1)"
    "flat ns = blit (flat (mem_list d1)) (nat pos) (take (nat count) buf)"
    using write_pages_full [OF assms(2) b(1) p(1,2,3) assms(4) b(2) cap] by blast
  define d2 where "d2 = d1\<lparr>mem_list := ns, data_size := max (data_size d1) (pos + count)\<rparr>"
  have res: "asgn1_write ua k d buf count pos = Some (count, pos + count, k1, d2)"
    using a t added ns p unfolding asgn1_write_def d2_def by (simp add: Let_def)
  have "length ns = length (mem_list d1)" using ns(3) by (metis length_map)
  moreover have "pfn ` set ns = pfn ` set (mem_list d1)" using ns(3) by (metis list.set_map)
  ultimately have "machine_ok k1 d2"
    using f(1) ns cap p by (auto simp: machine_ok_def dev_inv_def d2_def pages_ok_full)
  moreover have "flat (mem_list d2) = blit (flat (mem_list d) @ flat ms) (nat pos) (take (nat count) buf)"
    using ns(4) ms by (simp add: d2_def)
  moreover have "mem_available (nat (num_pages d + int n - num_pages d2)) k1"
    if "mem_available n k" "pages_for (pos + count) \<le> num_pages d + int n" for n
  proof -
    have "pos + count \<le> (num_pages d + int n) * 4096"
      using that(2) by (rule pages_for_le)
    from add_pages_remaining [OF assms(1) that(1) this] a show ?thesis by (simp add: d2_def)
  qed
  ultimately show ?thesis using res same np by (auto simp: d2_def)
qed

subsection \<open>The driver as a store of bytes\<close>

type_synonym disk = "kmem \<times> asgn_dev"

definition disk_put :: "disk \<Rightarrow> int \<Rightarrow> byte list \<Rightarrow> disk" where
  "disk_put s p bs = (case asgn1_write all_copied (fst s) (snd s) bs (int (length bs)) p of
     None \<Rightarrow> s | Some (ret, pos, k, d) \<Rightarrow> (k, d))"

definition disk_get :: "disk \<Rightarrow> int \<Rightarrow> int \<Rightarrow> byte list" where
  "disk_get s p n = (case asgn1_read all_copied (snd s) n p of
     None \<Rightarrow> [] | Some (ret, out, pos) \<Rightarrow> out)"

definition disk_ok :: "disk \<Rightarrow> bool" where
  "disk_ok s = machine_ok (fst s) (snd s)"

definition disk_size :: "disk \<Rightarrow> int" where
  "disk_size s = data_size (snd s)"

definition disk_byte :: "disk \<Rightarrow> int \<Rightarrow> byte" where
  "disk_byte s i = flat (mem_list (snd s)) ! nat i"

definition disk_fits :: "disk \<Rightarrow> int \<Rightarrow> int \<Rightarrow> bool" where
  "disk_fits s = writable (fst s) (snd s)"

lemma pages_for_mono: "a \<le> b \<Longrightarrow> pages_for a \<le> pages_for b"
  by (simp add: pages_for_def zdiv_mono1)

lemma writable_prefix: "writable k d p n \<Longrightarrow> 0 \<le> m \<Longrightarrow> m \<le> n \<Longrightarrow> writable k d p m"
  unfolding writable_def
  by (auto elim!: mem_available_mono intro!: nat_mono diff_right_mono pages_for_mono)

text \<open>What a \<open>put\<close> that fits does, in one place.\<close>

lemma disk_put_ok:
  assumes "disk_ok s" and "disk_fits s p (int (length bs))"
  obtains fill where
    "asgn1_write all_copied (fst s) (snd s) bs (int (length bs)) p =
       Some (int (length bs), p + int (length bs), fst (disk_put s p bs), snd (disk_put s p bs))"
    "disk_ok (disk_put s p bs)"
    "disk_size (disk_put s p bs) = max (disk_size s) (p + int (length bs))"
    "flat (mem_list (snd (disk_put s p bs))) = blit (flat (mem_list (snd s)) @ fill) (nat p) bs"
    "\<And>n. writable (fst s) (snd s) p (int (length bs) + n) \<Longrightarrow> 0 \<le> n \<Longrightarrow>
       writable (fst (disk_put s p bs)) (snd (disk_put s p bs)) (p + int (length bs)) n"
proof -
  obtain k d where s: "s = (k, d)" by fastforce
  have ok: "machine_ok k d" and fit: "writable k d p (int (length bs))"
    using assms s by (simp_all add: disk_ok_def disk_fits_def)
  obtain k' d' fill where w: "asgn1_write all_copied k d bs (int (length bs)) p =
      Some (int (length bs), p + int (length bs), k', d')"
    and r: "machine_ok k' d'" "data_size d' = max (data_size d) (p + int (length bs))"
      "num_pages d' = max (num_pages d) (pages_for (p + int (length bs)))"
      "flat (mem_list d') = blit (flat (mem_list d) @ fill) (nat p) bs"
    and left: "\<And>n. mem_available n k \<Longrightarrow> pages_for (p + int (length bs)) \<le> num_pages d + int n \<Longrightarrow>
       mem_available (nat (num_pages d + int n - num_pages d')) k'"
    using asgn1_write_ok [OF ok no_fault_all_copied fit, of bs] by (auto simp del: max_def)
  have put: "disk_put s p bs = (k', d')" using w s by (simp add: disk_put_def)
  have more: "writable k' d' (p + int (length bs)) n"
    if a: "writable k d p (int (length bs) + n)" "0 \<le> n" for n
  proof -
    define need where "need = nat (pages_for (p + (int (length bs) + n)) - num_pages d)"
    have le: "pages_for (p + int (length bs)) \<le> pages_for (p + (int (length bs) + n))"
      using a(2) by (intro pages_for_mono) simp
    have "mem_available need k" using a(1) by (simp add: writable_def need_def)
    moreover have "pages_for (p + int (length bs)) \<le> num_pages d + int need"
      using le by (simp add: need_def)
    ultimately have "mem_available (nat (num_pages d + int need - num_pages d')) k'" by (rule left)
    moreover have "pages_for (p + (int (length bs) + n)) - num_pages d' \<le> num_pages d + int need - num_pages d'"
      by (simp add: need_def)
    ultimately have "mem_available (nat (pages_for (p + (int (length bs) + n)) - num_pages d')) k'"
      by (elim mem_available_mono) (rule nat_mono)
    then show ?thesis using a by (simp add: writable_def add.assoc)
  qed
  show ?thesis
    using w r more put s by (intro that [of fill]) (simp_all add: disk_ok_def disk_size_def)
qed

lemma map_upto_nth:
  assumes "0 \<le> p" and "0 \<le> n" and "p + n \<le> int (length xs)"
  shows "map (\<lambda>i. xs ! nat i) [p..p + n - 1] = take (nat n) (drop (nat p) xs)"
proof (rule nth_equalityI)
  show "length (map (\<lambda>i. xs ! nat i) [p..p + n - 1]) = length (take (nat n) (drop (nat p) xs))"
    using assms by simp
next
  fix j
  assume "j < length (map (\<lambda>i. xs ! nat i) [p..p + n - 1])"
  then have j: "int j < n" by simp
  moreover have "nat (p + int j) = nat p + j" using assms by (simp add: nat_add_distrib)
  ultimately show "map (\<lambda>i. xs ! nat i) [p..p + n - 1] ! j = take (nat n) (drop (nat p) xs) ! j"
    using assms by simp
qed

lemma disk_length: "disk_ok s \<Longrightarrow> disk_size s \<le> int (length (flat (mem_list (snd s))))"
  using dev_invD(5,7) by (fastforce simp: disk_ok_def machine_ok_def disk_size_def)

interpretation disk: byte_store disk_ok disk_size disk_byte disk_fits disk_put disk_get
proof (unfold_locales, goal_cases)
  case (1 s)
  then show ?case by (simp add: disk_ok_def machine_ok_def disk_size_def dev_inv_def)
next
  case (2 s p n)
  then show ?case by (simp add: disk_fits_def writable_def)
next
  case (3 s p n m)
  then show ?case by (auto simp: disk_fits_def intro: writable_prefix)
next
  case (4 s p bs n)
  then have "disk_fits s p (int (length bs))" by (auto simp: disk_fits_def intro: writable_prefix)
  from disk_put_ok [OF 4(1) this] 4 show ?case by (auto simp: disk_fits_def)
next
  case (5 s p bs)
  then show ?case by (rule disk_put_ok)
next
  case (6 s p bs)
  then show ?case by (rule disk_put_ok)
next
  case (7 s p bs i)
  obtain fill where f: "flat (mem_list (snd (disk_put s p bs))) = blit (flat (mem_list (snd s)) @ fill) (nat p) bs"
    "disk_ok (disk_put s p bs)" "disk_size (disk_put s p bs) = max (disk_size s) (p + int (length bs))"
    by (rule disk_put_ok [OF 7(1,2)])
  have p: "0 \<le> p" using 7(2) by (simp add: disk_fits_def writable_def)
  have "p + int (length bs) \<le> int (length (blit (flat (mem_list (snd s)) @ fill) (nat p) bs))"
    using disk_length [OF f(2)] f(1,3) by simp
  then have "nat p + length bs \<le> length (blit (flat (mem_list (snd s)) @ fill) (nat p) bs)"
    using p by linarith
  moreover have "nat p \<le> nat i" "nat i < nat p + length bs" "nat i - nat p = nat (i - p)"
    using 7(3,4) p by linarith+
  ultimately show ?case using f(1) nth_blit_hit by (metis disk_byte_def)
next
  case (8 s p bs i)
  obtain fill where f: "flat (mem_list (snd (disk_put s p bs))) = blit (flat (mem_list (snd s)) @ fill) (nat p) bs"
    "disk_ok (disk_put s p bs)" "disk_size (disk_put s p bs) = max (disk_size s) (p + int (length bs))"
    by (rule disk_put_ok [OF 8(1,2)])
  have p: "0 \<le> p" using 8(2) by (simp add: disk_fits_def writable_def)
  have i: "nat i < length (flat (mem_list (snd s)))" using disk_length [OF 8(1)] 8(3,4) by linarith
  have "nat i < nat p \<or> nat p + length bs \<le> nat i" using 8(3,5) p by linarith
  then have "blit (flat (mem_list (snd s)) @ fill) (nat p) bs ! nat i = flat (mem_list (snd s)) ! nat i"
    using i nth_blit_miss [of "nat i" "flat (mem_list (snd s)) @ fill" "nat p" bs] by (simp add: nth_append)
  then show ?case using f(1) by (simp add: disk_byte_def)
next
  case (9 s p n)
  then have inv: "dev_inv (snd s)" and p: "p \<le> data_size (snd s)"
    by (simp_all add: disk_ok_def machine_ok_def disk_size_def)
  define m where "m = min n (data_size (snd s) - p)"
  have m: "0 \<le> m" "p + m = min (p + n) (data_size (snd s))" using 9 p by (auto simp: m_def)
  have "disk_get s p n = take (nat m) (drop (nat p) (flat (mem_list (snd s))))"
    using asgn1_read_ok [OF inv no_fault_all_copied 9(2) p 9(4,5)] by (simp add: disk_get_def m_def)
  also have "\<dots> = map (disk_byte s) [p..p + m - 1]"
    using disk_length [OF 9(1)] m 9(2) by (subst map_upto_nth [symmetric]) (auto simp: disk_byte_def [abs_def] disk_size_def)
  finally show ?case using m(2) by (simp add: disk_size_def)
qed

subsection \<open>The file position and the users\<close>

definition disk_limit :: "asgn_dev \<Rightarrow> int" where
  "disk_limit d = num_pages d * PAGE_SIZE"

interpretation disk_seek: seekable dev_inv disk_limit asgn1_lseek
proof
  fix d pos off whence r pos'
  assume "dev_inv d"
  then have cap: "u32 (num_pages d * PAGE_SIZE) = disk_limit d" "0 \<le> disk_limit d"
    using dev_invD(2,6) [of d] by (simp_all add: disk_limit_def)
  assume "asgn1_lseek d pos off whence = (r, pos')"
  then show "0 \<le> r \<and> pos' = r \<or> r = - EINVAL \<and> pos' = pos"
    using cap by (auto simp: asgn1_lseek_def Let_def split: if_splits)
  assume "0 \<le> pos" "pos \<le> disk_limit d"
  then show "0 \<le> pos' \<and> pos' \<le> disk_limit d"
    using \<open>asgn1_lseek d pos off whence = (r, pos')\<close> cap
    by (auto simp: asgn1_lseek_def Let_def split: if_splits)
qed

definition disk_enter :: "32 word \<Rightarrow> disk \<Rightarrow> bool \<times> disk" where
  "disk_enter flags s = (let (r, k, d) = asgn1_open (fst s) (snd s) flags in (r = 0, (k, d)))"

definition disk_leave :: "disk \<Rightarrow> disk" where
  "disk_leave s = (fst s, snd (asgn1_release (snd s)))"

interpretation disk_users: admission "\<lambda>s. nprocs (snd s)" "\<lambda>s. max_nprocs (snd s)" "disk_enter flags" disk_leave
  for flags
  by unfold_locales
     (auto simp: disk_enter_def disk_leave_def asgn1_open_def asgn1_release_def free_memory_pages_eq Let_def)

lemma asgn1_open_cases:
  "asgn1_open k d flags =
    (if max_nprocs d \<le> nprocs d then (- EBUSY, k, d)
     else if flags AND O_ACCMODE = O_WRONLY
     then (0, fst (free_memory_pages k (d\<lparr>nprocs := s32 (nprocs d + 1)\<rparr>)),
              snd (free_memory_pages k (d\<lparr>nprocs := s32 (nprocs d + 1)\<rparr>)))
     else (0, k, d\<lparr>nprocs := s32 (nprocs d + 1)\<rparr>))"
  by (simp add: asgn1_open_def Let_def case_prod_beta)

lemma machine_ok_freed:
  assumes "machine_ok k d"
  shows "machine_ok (fst (free_memory_pages k d)) (snd (free_memory_pages k d))"
proof -
  have "kmem_ok {} k" using assms by (auto simp: machine_ok_def intro: kmem_ok_subset)
  then show ?thesis
    using assms by (simp add: machine_ok_def free_memory_pages_eq dev_inv_def kmem_ok_def supplied_def)
qed

end
