(* ===== verification/Asgn1_System.thy ===== *)
theory Asgn1_System
  imports Asgn1_Spec
begin

section \<open>The RAM disk under any sequence of system calls\<close>

text \<open>
  The driver as the kernel runs it: a table of open files, each with its position and its
  flags, over the device. The kernel's file layer, which is not part of the repository,
  checks the arguments before it calls the driver (\<open>vfs_passes\<close>): the descriptor is open,
  counts are at most \<open>MAX_RW_COUNT\<close>, explicit positions are not negative and do not overflow.
  Allocations may fail and the user's memory may fault in any call.
\<close>

record open_file =
  f_pos :: int
  f_flags :: "32 word"

record asgn1_sys =
  kmem_of :: kmem
  dev_of :: asgn_dev
  files :: "nat \<Rightarrow> open_file option"

datatype call =
  Open nat "32 word"
| Close nat
| Read nat uaccess int
| Write nat uaccess "byte list" int
| Pread nat uaccess int int
| Pwrite nat uaccess "byte list" int int
| Lseek nat int int
| Ioctl nat "32 word" bool "int option"
| Mmap nat vma

abbreviation (input) MAX_RW_COUNT :: int where "MAX_RW_COUNT \<equiv> 2147479552"

definition rw_args :: "int \<Rightarrow> int \<Rightarrow> bool" where
  "rw_args count pos \<longleftrightarrow> 0 \<le> count \<and> count \<le> MAX_RW_COUNT \<and> 0 \<le> pos \<and> pos + count < 2 ^ 63"

fun vfs_passes :: "asgn1_sys \<Rightarrow> call \<Rightarrow> bool" where
  "vfs_passes s (Open fd flags) = (files s fd = None)"
| "vfs_passes s (Close fd) = (files s fd \<noteq> None)"
| "vfs_passes s (Read fd ua count) =
     (case files s fd of None \<Rightarrow> False | Some f \<Rightarrow> rw_args count (f_pos f))"
| "vfs_passes s (Write fd ua buf count) =
     (case files s fd of None \<Rightarrow> False | Some f \<Rightarrow> rw_args count (f_pos f))"
| "vfs_passes s (Pread fd ua count pos) = (files s fd \<noteq> None \<and> rw_args count pos)"
| "vfs_passes s (Pwrite fd ua buf count pos) = (files s fd \<noteq> None \<and> rw_args count pos)"
| "vfs_passes s (Lseek fd off whence) = (files s fd \<noteq> None)"
| "vfs_passes s (Ioctl fd cmd arg_ok arg) =
     (files s fd \<noteq> None \<and> (case arg of None \<Rightarrow> True | Some n \<Rightarrow> n < 2147483648))"
| "vfs_passes s (Mmap fd vma) = (files s fd \<noteq> None)"

definition pos_of :: "asgn1_sys \<Rightarrow> nat \<Rightarrow> int" where
  "pos_of s fd = (case files s fd of None \<Rightarrow> 0 | Some f \<Rightarrow> f_pos f)"

definition set_pos :: "nat \<Rightarrow> int \<Rightarrow> asgn1_sys \<Rightarrow> asgn1_sys" where
  "set_pos fd pos s =
     s\<lparr>files := (files s)(fd := map_option (\<lambda>f. f\<lparr>f_pos := pos\<rparr>) (files s fd))\<rparr>"

text \<open>The dispatch through \<open>asgn1_fops\<close>; a memory access outside a page has no result.\<close>

fun asgn1_call :: "asgn1_sys \<Rightarrow> call \<Rightarrow> (int \<times> asgn1_sys) option" where
  "asgn1_call s (Open fd flags) =
     (let (r, k, d) = asgn1_open (kmem_of s) (dev_of s) flags
      in Some (r, s\<lparr>kmem_of := k, dev_of := d,
                   files := (if r = 0 then (files s)(fd \<mapsto> \<lparr>f_pos = 0, f_flags = flags\<rparr>) else files s)\<rparr>))"
| "asgn1_call s (Close fd) =
     (let (r, d) = asgn1_release (dev_of s)
      in Some (r, s\<lparr>dev_of := d, files := (files s)(fd := None)\<rparr>))"
| "asgn1_call s (Read fd ua count) =
     map_option (\<lambda>(r, out, pos). (r, set_pos fd pos s)) (asgn1_read ua (dev_of s) count (pos_of s fd))"
| "asgn1_call s (Write fd ua buf count) =
     map_option (\<lambda>(r, pos, k, d). (r, set_pos fd pos (s\<lparr>kmem_of := k, dev_of := d\<rparr>)))
       (asgn1_write ua (kmem_of s) (dev_of s) buf count (pos_of s fd))"
| "asgn1_call s (Pread fd ua count pos) =
     map_option (\<lambda>(r, out, _). (r, s)) (asgn1_read ua (dev_of s) count pos)"
| "asgn1_call s (Pwrite fd ua buf count pos) =
     map_option (\<lambda>(r, _, k, d). (r, s\<lparr>kmem_of := k, dev_of := d\<rparr>))
       (asgn1_write ua (kmem_of s) (dev_of s) buf count pos)"
| "asgn1_call s (Lseek fd off whence) =
     (let (r, pos) = asgn1_lseek (dev_of s) (pos_of s fd) off whence in Some (r, set_pos fd pos s))"
| "asgn1_call s (Ioctl fd cmd arg_ok arg) =
     (let (r, d) = asgn1_ioctl (dev_of s) cmd arg_ok arg in Some (r, s\<lparr>dev_of := d\<rparr>))"
| "asgn1_call s (Mmap fd vma) = Some (fst (asgn1_mmap (dev_of s) vma), s)"

text \<open>The module as loaded: no page, no user, one user allowed.\<close>

definition asgn1_loaded :: "kmem \<Rightarrow> asgn1_sys" where
  "asgn1_loaded k =
     \<lparr>kmem_of = k,
      dev_of = \<lparr>mem_list = [], num_pages = 0, data_size = 0, nprocs = 0, max_nprocs = 1\<rparr>,
      files = (\<lambda>_. None)\<rparr>"

inductive asgn1_step :: "asgn1_sys \<Rightarrow> asgn1_sys \<Rightarrow> bool" where
  call: "vfs_passes s c \<Longrightarrow> asgn1_call s c = Some (r, t) \<Longrightarrow> asgn1_step s t"

inductive asgn1_reachable :: "kmem \<Rightarrow> asgn1_sys \<Rightarrow> bool" for k where
  loaded: "asgn1_reachable k (asgn1_loaded k)"
| step: "asgn1_reachable k s \<Longrightarrow> asgn1_step s t \<Longrightarrow> asgn1_reachable k t"

inductive_cases asgn1_stepE: "asgn1_step s t"

subsection \<open>The invariant\<close>

definition pos_ok :: "open_file option \<Rightarrow> bool" where
  "pos_ok f = (case f of None \<Rightarrow> True | Some f \<Rightarrow> 0 \<le> f_pos f \<and> f_pos f < 4294967296)"

definition sys_inv :: "kmem \<Rightarrow> asgn1_sys \<Rightarrow> bool" where
  "sys_inv k s \<longleftrightarrow>
     machine_ok (kmem_of s) (dev_of s) \<and>
     (\<forall>fd. pos_ok (files s fd)) \<and>
     finite (dom (files s)) \<and> nprocs (dev_of s) = int (card (dom (files s))) \<and>
     nprocs (dev_of s) < 2147483648 \<and>
     0 \<le> max_nprocs (dev_of s) \<and> max_nprocs (dev_of s) < 2147483648 \<and>
     live_pages (kmem_of s) - live_pages k = num_pages (dev_of s) \<and>
     num_pages (dev_of s) \<le> live_nodes (kmem_of s) - live_nodes k"

lemma sys_inv_loaded: "fresh_kmem k \<Longrightarrow> sys_inv k (asgn1_loaded k)"
  by (simp add: fresh_kmem_def sys_inv_def asgn1_loaded_def machine_ok_def dev_inv_def pos_ok_def dom_def)

lemma set_pos_simps [simp]:
  "kmem_of (set_pos fd p s) = kmem_of s" "dev_of (set_pos fd p s) = dev_of s"
  "dom (files (set_pos fd p s)) = dom (files s)"
  by (auto simp: set_pos_def dom_def)

lemma set_pos_ok:
  "\<forall>fd. pos_ok (files s fd) \<Longrightarrow> 0 \<le> p \<Longrightarrow> p < 4294967296 \<Longrightarrow> pos_ok (files (set_pos fd p s) fd')"
  by (auto simp: set_pos_def pos_ok_def split: option.splits)

lemma sys_inv_set_pos: "sys_inv k s \<Longrightarrow> 0 \<le> p \<Longrightarrow> p < 4294967296 \<Longrightarrow> sys_inv k (set_pos fd p s)"
  by (simp add: sys_inv_def set_pos_ok)

lemma sys_inv_pos: "sys_inv k s \<Longrightarrow> 0 \<le> pos_of s fd \<and> pos_of s fd < 4294967296"
  by (auto simp: sys_inv_def pos_ok_def pos_of_def split: option.splits)

lemma asgn1_write_accounting:
  assumes "machine_ok k d" "asgn1_write ua k d buf count pos = Some (r, pos', k', d')"
    and "0 \<le> pos" "pos + count < 2 ^ 63" "0 \<le> count"
  shows "live_pages k' - live_pages k = num_pages d' - num_pages d"
    "num_pages d' - num_pages d \<le> live_nodes k' - live_nodes k"
proof -
  obtain added k1 d1 where a: "add_pages (pos + count) k d = (added, k1, d1)" by (metis prod_cases3)
  have "k' = k1 \<and> num_pages d' = num_pages d1"
    using assms(2-5) a unfolding asgn1_write_def by (auto simp: Let_def split: if_splits option.splits)
  then show "live_pages k' - live_pages k = num_pages d' - num_pages d"
    "num_pages d' - num_pages d \<le> live_nodes k' - live_nodes k"
    using add_pages_frame(5) [OF assms(1) a] add_pages_nodes [OF assms(1) a] by auto
qed

text \<open>One lemma per call that changes the device.\<close>

lemma sys_inv_write:
  assumes "sys_inv k s" "rw_args count pos"
  shows "\<exists>r k' d'. asgn1_write ua (kmem_of s) (dev_of s) buf count pos = Some (r, pos + r, k', d') \<and>
    0 \<le> pos + r \<and> (pos < 4294967296 \<longrightarrow> pos + r < 4294967296) \<and>
    sys_inv k (s\<lparr>kmem_of := k', dev_of := d'\<rparr>)"
proof -
  have ok: "machine_ok (kmem_of s) (dev_of s)" using assms(1) by (simp add: sys_inv_def)
  have p: "0 \<le> pos" "0 \<le> count" "count < 2147483648" "pos + count < 2 ^ 63"
    using assms(2) by (simp_all add: rw_args_def)
  show ?thesis
  proof (cases "pos < 9223372034707292160")
    case True
    obtain r k' d' where w: "asgn1_write ua (kmem_of s) (dev_of s) buf count pos = Some (r, pos + r, k', d')"
      and r: "0 \<le> r" "machine_ok k' d'" "0 < r \<longrightarrow> data_size d' = max (data_size (dev_of s)) (pos + r)"
        "nprocs d' = nprocs (dev_of s)" "max_nprocs d' = max_nprocs (dev_of s)"
      using asgn1_write_safe [OF ok p(1) True p(2,3), of ua buf] by blast
    have "data_size d' < 4294967296" using r(2) by (auto simp: machine_ok_def intro: dev_inv_bounds)
    then have "pos < 4294967296 \<longrightarrow> pos + r < 4294967296" using r(1,3) by (cases "r = 0") auto
    moreover have "sys_inv k (s\<lparr>kmem_of := k', dev_of := d'\<rparr>)"
      using assms(1) r asgn1_write_accounting [OF ok w p(1,4,2)] by (simp add: sys_inv_def)
    ultimately show ?thesis using w r(1) p(1) by auto
  next
    case False
    have s: "s64 (pos + count) = pos + count" using p by simp
    obtain added k1 d1 where a: "add_pages (pos + count) (kmem_of s) (dev_of s) = (added, k1, d1)"
      by (metis prod_cases3)
    have "\<not> added" using add_pages_never [OF ok, of "pos + count"] False p a by simp
    then have w: "asgn1_write ua (kmem_of s) (dev_of s) buf count pos = Some (0, pos + 0, k1, d1)"
      using a s unfolding asgn1_write_def by (simp add: Let_def)
    note f = add_pages_frame [OF ok a]
    have "nprocs d1 = nprocs (dev_of s)" "max_nprocs d1 = max_nprocs (dev_of s)"
      using f(3) by (metis asgn_dev.select_convs asgn_dev.surjective asgn_dev.update_convs)+
    then have "sys_inv k (s\<lparr>kmem_of := k1, dev_of := d1\<rparr>)"
      using assms(1) f(1) asgn1_write_accounting [OF ok w p(1,4,2)] by (simp add: sys_inv_def)
    then show ?thesis using w p False by auto
  qed
qed

lemma sys_inv_read:
  assumes "sys_inv k s" "rw_args count pos"
  shows "\<exists>r out. asgn1_read ua (dev_of s) count pos = Some (r, out, pos + r) \<and> 0 \<le> r \<and>
    (pos < 4294967296 \<longrightarrow> pos + r < 4294967296)"
proof -
  have inv: "dev_inv (dev_of s)" using assms(1) by (simp add: sys_inv_def machine_ok_def)
  have p: "0 \<le> pos" "0 \<le> count" "count < 2147483648" using assms(2) by (simp_all add: rw_args_def)
  show ?thesis
  proof (cases "pos \<le> data_size (dev_of s)")
    case True
    then have "pos < 9223372034707292160" using dev_inv_bounds(4) [OF inv] by simp
    from asgn1_read_safe [OF inv p(1) this p(2,3), of ua] show ?thesis
      using True dev_inv_bounds(4) [OF inv] by fastforce
  next
    case False
    then show ?thesis by (simp add: asgn1_read_past_end)
  qed
qed

lemma sys_inv_open:
  assumes "sys_inv k s" "files s fd = None"
  shows "\<exists>r t. asgn1_call s (Open fd flags) = Some (r, t) \<and> sys_inv k t"
proof (cases "max_nprocs (dev_of s) \<le> nprocs (dev_of s)")
  case True
  then show ?thesis using assms(1) by (simp add: asgn1_open_cases sys_inv_def)
next
  case False
  have card: "card (insert fd (dom (files s))) = Suc (card (dom (files s)))"
    using assms by (auto simp: sys_inv_def dom_def)
  have s: "s32 (nprocs (dev_of s) + 1) = nprocs (dev_of s) + 1"
    using assms(1) False by (simp add: sys_inv_def)
  have fr: "machine_ok (fst (free_memory_pages (kmem_of s) (dev_of s\<lparr>nprocs := n\<rparr>)))
      (snd (free_memory_pages (kmem_of s) (dev_of s\<lparr>nprocs := n\<rparr>)))" for n
    using assms(1) by (intro machine_ok_freed) (simp add: sys_inv_def)
  have len: "int (length (mem_list (dev_of s))) = num_pages (dev_of s)"
    using assms(1) by (simp add: sys_inv_def machine_ok_def dev_inv_def)
  show ?thesis
    using assms(1) False card s fr len
    by (auto simp: asgn1_open_cases sys_inv_def pos_ok_def free_memory_pages_eq)
qed

lemma sys_inv_close:
  assumes "sys_inv k s" "files s fd \<noteq> None"
  shows "\<exists>r t. asgn1_call s (Close fd) = Some (r, t) \<and> sys_inv k t"
proof -
  have "fd \<in> dom (files s)" and fin: "finite (dom (files s))"
    using assms by (auto simp: sys_inv_def)
  then have "card (dom (files s)) = Suc (card (dom (files s) - {fd}))"
    by (metis card.remove)
  then show ?thesis
    using assms(1) by (auto simp: asgn1_release_def sys_inv_def pos_ok_def)
qed

text \<open>Every call that the kernel passes on has a result, and keeps the invariant.\<close>

lemma sys_inv_call:
  assumes "sys_inv k s" "vfs_passes s c"
  shows "\<exists>r t. asgn1_call s c = Some (r, t) \<and> sys_inv k t"
proof (cases c)
  case (Open fd flags)
  then show ?thesis using sys_inv_open assms by simp
next
  case (Close fd)
  then show ?thesis using sys_inv_close assms by simp
next
  case (Read fd ua count)
  then have "rw_args count (pos_of s fd)" using assms(2) by (auto simp: pos_of_def split: option.splits)
  from sys_inv_read [OF assms(1) this, of ua] show ?thesis
    using Read sys_inv_pos [OF assms(1)] sys_inv_set_pos [OF assms(1)] by fastforce
next
  case (Write fd ua buf count)
  then have "rw_args count (pos_of s fd)" using assms(2) by (auto simp: pos_of_def split: option.splits)
  from sys_inv_write [OF assms(1) this, of ua buf] show ?thesis
    using Write sys_inv_pos [OF assms(1)] sys_inv_set_pos by fastforce
next
  case (Pread fd ua count pos)
  then have "rw_args count pos" using assms(2) by simp
  from sys_inv_read [OF assms(1) this, of ua] show ?thesis using Pread assms(1) by fastforce
next
  case (Pwrite fd ua buf count pos)
  then have "rw_args count pos" using assms(2) by simp
  from sys_inv_write [OF assms(1) this, of ua buf] show ?thesis using Pwrite by fastforce
next
  case (Lseek fd off whence)
  obtain r p where l: "asgn1_lseek (dev_of s) (pos_of s fd) off whence = (r, p)" by fastforce
  define cap where "cap = u32 (num_pages (dev_of s) * PAGE_SIZE)"
  have "p = pos_of s fd \<or> 0 \<le> p \<and> p \<le> cap"
    using l unfolding asgn1_lseek_def cap_def [symmetric]
    by (auto simp: Let_def cap_def split: if_splits)
  moreover have "cap < 4294967296" by (simp add: cap_def)
  ultimately have "0 \<le> p \<and> p < 4294967296" using sys_inv_pos [OF assms(1), of fd] by linarith
  then show ?thesis using Lseek l sys_inv_set_pos [OF assms(1)] by simp
next
  case (Ioctl fd cmd arg_ok arg)
  then show ?thesis
    using assms by (auto simp: asgn1_ioctl_def sys_inv_def Let_def split: if_splits option.splits)
next
  case (Mmap fd vma)
  then show ?thesis using assms by simp
qed

lemma reachable_inv: "asgn1_reachable k s \<Longrightarrow> fresh_kmem k \<Longrightarrow> sys_inv k s"
proof (induction rule: asgn1_reachable.induct)
  case loaded
  then show ?case by (rule sys_inv_loaded)
next
  case (step s t)
  then have "sys_inv k s" by simp
  from step.hyps(2) show ?case
  proof (rule asgn1_stepE)
    fix c r
    assume "vfs_passes s c" "asgn1_call s c = Some (r, t)"
    then show "sys_inv k t" using sys_inv_call [OF \<open>sys_inv k s\<close>] by fastforce
  qed
qed

end
