(* ===== verification/Asgn1_Module.thy ===== *)
theory Asgn1_Module
  imports Modules Asgn1_System
begin

section \<open>Loading and unloading the RAM disk\<close>

text \<open>
  \<^verbatim>\<open>asgn1_init_module\<close> and \<^verbatim>\<open>asgn1_exit_module\<close>, call by call, against the kernel's answers.
  \<open>cdev_alloc\<close>'s result is used without a check, \<open>class_create\<close>'s error is looked at and
  ignored, and \<open>device_create\<close> fails on a class that is an error.
\<close>

definition asgn1_init_module :: "init_env \<Rightarrow> module_state \<Rightarrow> outcome \<times> module_state" where
  "asgn1_init_module e s =
     (let s = s\<lparr>m_dev := (m_dev s)\<lparr>nprocs := 0, max_nprocs := 1\<rparr>\<rparr>;
          result = e_region e
      in if result < 0 then fail_device result s
         else
      (let s = log_call Alloc_region (s\<lparr>m_devno := e_devno e\<rparr>)
       in if \<not> e_cdev_alloc e then (Oops, s)
          else
       (let s = log_call Cdev_alloc (s\<lparr>m_cdev := True\<rparr>);
            result = e_cdev_add e
        in if result < 0 then fail_device result s
           else
        (let s = s\<lparr>m_dev := (m_dev s)\<lparr>mem_list := []\<rparr>, m_list_ready := True\<rparr>
         in if \<not> e_proc e then (Returned (- ENOMEM), s)
            else
         (let s = log_call Create_proc (s\<lparr>m_proc := True\<rparr>);
              s = (if e_class e then log_call Class_create (s\<lparr>m_class := Valid\<rparr>)
                   else s\<lparr>m_class := ErrPtr\<rparr>)
          in if \<not> e_device e \<or> m_class s = ErrPtr then fail_device (- ENOMEM) s
             else (Returned 0, log_call Device_create s))))))"

definition asgn1_exit_module :: "module_state \<Rightarrow> outcome \<times> module_state" where
  "asgn1_exit_module s =
     (let s = class_destroy (log_call Device_destroy s)
      in case free_all_pages s of
           None \<Rightarrow> (Oops, s)
         | Some s \<Rightarrow>
             (Returned 0, log_call Cdev_del (log_call Remove_proc (log_call Unregister_region s))))"

text \<open>The kernel answers every request.\<close>

definition all_granted :: "init_env \<Rightarrow> bool" where
  "all_granted e \<longleftrightarrow> e_region e = 0 \<and> e_devno e \<noteq> 0 \<and> e_cdev_alloc e \<and> e_cdev_add e = 0 \<and>
     e_proc e \<and> e_class e \<and> e_device e"

lemma asgn1_init_granted:
  assumes "all_granted e"
  shows "asgn1_init_module e (just_loaded k) =
    (Returned 0,
     \<lparr>m_kmem = k, m_dev = dev_of (asgn1_loaded k), m_list_ready = True, m_devno = e_devno e,
      m_cdev = True, m_class = Valid, m_proc = True,
      m_trace = [Alloc_region, Cdev_alloc, Create_proc, Class_create, Device_create]\<rparr>)"
  using assms
  by (simp add: all_granted_def asgn1_init_module_def just_loaded_def zero_dev_def asgn1_loaded_def
      Let_def log_call_def)

text \<open>Loading, any system calls, and unloading again.\<close>

definition unload_after :: "init_env \<Rightarrow> kmem \<Rightarrow> asgn1_sys \<Rightarrow> outcome \<times> module_state" where
  "unload_after e k t =
     asgn1_exit_module
       ((snd (asgn1_init_module e (just_loaded k)))\<lparr>m_kmem := kmem_of t, m_dev := dev_of t\<rparr>)"

text \<open>
  C12: a module that was loaded, served any calls, and is unloaded gives back every kernel
  resource exactly once, and every page.
\<close>

theorem asgn1_load_unload:
  assumes "all_granted e" "fresh_kmem k" "asgn1_reachable k t"
  shows "fst (asgn1_init_module e (just_loaded k)) = Returned 0 \<and>
    fst (unload_after e k t) = Returned 0 \<and>
    held {} (m_trace (snd (unload_after e k t))) = Some {} \<and>
    live_pages (m_kmem (snd (unload_after e k t))) = live_pages k \<and>
    mem_list (m_dev (snd (unload_after e k t))) = []"
proof -
  have "sys_inv k t" using reachable_inv assms(2,3) by blast
  then have "int (length (mem_list (dev_of t))) = live_pages (kmem_of t) - live_pages k"
    by (simp add: sys_inv_def machine_ok_def dev_inv_def)
  then show ?thesis
    by (auto simp: unload_after_def asgn1_init_granted [OF assms(1)] asgn1_exit_module_def Let_def
        free_all_pages_def free_memory_pages_eq)
qed

theorem asgn1_load_unload_witness:
  "held {} (m_trace (snd (unload_after good_env (clean_kmem 4) (asgn1_loaded (clean_kmem 4))))) = Some {}"
proof -
  have "all_granted good_env" "fresh_kmem (clean_kmem 4)"
    by (simp_all add: all_granted_def good_env_def fresh_kmem_def kmem_ok_clean supplied_clean)
  from asgn1_load_unload [OF this asgn1_reachable.loaded] show ?thesis by simp
qed

lemma asgn1_init_early_failure:
  assumes "e_region e < 0 \<or> \<not> e_cdev_alloc e \<or> e_cdev_add e < 0"
  shows "fst (asgn1_init_module e (just_loaded k)) = Oops"
  using assms
  by (auto simp: asgn1_init_module_def fail_device_def free_all_pages_def just_loaded_def Let_def)

text \<open>
  What a refusal by the kernel does to the loading: before the list head is set up, the
  clean-up code follows a null pointer; without a status file the module returns an error and
  keeps its device numbers and its character device; without a device it destroys its class
  twice; only where the class itself cannot be created is everything given back.
\<close>

lemma asgn1_init_failures:
  assumes "asgn1_init_module e (just_loaded k) = (r, s)"
  shows "(e_region e < 0 \<or> \<not> e_cdev_alloc e \<or> e_cdev_add e < 0 \<longrightarrow> r = Oops) \<and>
    (e_region e = 0 \<and> e_devno e \<noteq> 0 \<and> e_cdev_alloc e \<and> e_cdev_add e = 0 \<longrightarrow>
      (\<not> e_proc e \<longrightarrow> r = Returned (- ENOMEM) \<and> held {} (m_trace s) = Some {Region, Cdev}) \<and>
      (e_proc e \<and> e_class e \<and> \<not> e_device e \<longrightarrow> r = Returned (- ENOMEM) \<and> held {} (m_trace s) = None) \<and>
      (e_proc e \<and> \<not> e_class e \<longrightarrow> r = Returned (- ENOMEM) \<and> held {} (m_trace s) = Some {}))"
proof (intro conjI impI, goal_cases)
  case 1
  then show ?case using asgn1_init_early_failure [of e k] assms by simp
qed (use assms in \<open>auto simp: asgn1_init_module_def fail_device_def free_all_pages_def just_loaded_def Let_def
      free_memory_pages_eq\<close>)

end
