(* ===== verification/Asgn1_Race.thy ===== *)
theory Asgn1_Race
  imports Asgn1_Spec
begin

section \<open>Concurrent opens\<close>

text \<open>
  \<^verbatim>\<open>asgn1_open\<close> reads the two counters, tests its copies, and then increments. Here the
  function is cut between its reads and the rest, and several processes take turns: a schedule is
  the list of the processes whose turn it is. The increment itself is atomic.
\<close>

datatype opener = Starting "32 word" | Checking "32 word" int int | Admitted | Refused

definition open_reads :: "asgn_dev \<Rightarrow> 32 word \<Rightarrow> opener" where
  "open_reads d flags = Checking flags (nprocs d) (max_nprocs d)"

definition open_rest :: "kmem \<Rightarrow> asgn_dev \<Rightarrow> 32 word \<Rightarrow> int \<Rightarrow> int \<Rightarrow> opener \<times> kmem \<times> asgn_dev" where
  "open_rest k d flags num_procs max_num_procs =
     (if num_procs \<ge> max_num_procs then (Refused, k, d)
      else let d1 = d\<lparr>nprocs := s32 (nprocs d + 1)\<rparr>
           in if flags AND O_ACCMODE = O_WRONLY
              then (let (k2, d2) = free_memory_pages k d1 in (Admitted, k2, d2))
              else (Admitted, k, d1))"

record openers =
  o_kmem :: kmem
  o_dev :: asgn_dev
  o_procs :: "opener list"

definition open_turn :: "openers \<Rightarrow> nat \<Rightarrow> openers" where
  "open_turn s i =
     (if i < length (o_procs s)
      then (case o_procs s ! i of
              Starting flags \<Rightarrow> s\<lparr>o_procs := (o_procs s)[i := open_reads (o_dev s) flags]\<rparr>
            | Checking flags n m \<Rightarrow>
                (let (p, k, d) = open_rest (o_kmem s) (o_dev s) flags n m
                 in s\<lparr>o_kmem := k, o_dev := d, o_procs := (o_procs s)[i := p]\<rparr>)
            | _ \<Rightarrow> s)
      else s)"

definition run_openers :: "openers \<Rightarrow> nat list \<Rightarrow> openers" where
  "run_openers s sched = foldl open_turn s sched"

lemma run_openers_simps [simp]:
  "run_openers s [] = s" "run_openers s (i # is) = run_openers (open_turn s i) is"
  "run_openers s (is @ js) = run_openers (run_openers s is) js"
  by (simp_all add: run_openers_def)

text \<open>A process that takes both of its turns one after the other does what \<open>asgn1_open\<close> does.\<close>

lemma open_turns_atomic:
  assumes "i < length ps" "ps ! i = Starting flags"
    and "asgn1_open k d flags = (r, k', d')"
  shows "run_openers \<lparr>o_kmem = k, o_dev = d, o_procs = ps\<rparr> [i, i] =
    \<lparr>o_kmem = k', o_dev = d', o_procs = ps[i := (if r = 0 then Admitted else Refused)]\<rparr>"
  using assms
  by (auto simp: open_turn_def open_reads_def open_rest_def asgn1_open_def Let_def
      split: if_splits prod.splits)

lemma turns_Suc: "[a..<a + Suc n] = a # [Suc a..<Suc a + n]"
  by (simp add: upt_rec [of a] del: upt_Suc)

lemma reads_all:
  "run_openers \<lparr>o_kmem = k, o_dev = d, o_procs = ps @ replicate n (Starting flags)\<rparr>
     [length ps..<length ps + n] =
   \<lparr>o_kmem = k, o_dev = d, o_procs = ps @ replicate n (open_reads d flags)\<rparr>"
proof (induction n arbitrary: ps)
  case 0
  then show ?case by simp
next
  case (Suc n)
  have t: "open_turn \<lparr>o_kmem = k, o_dev = d, o_procs = ps @ replicate (Suc n) (Starting flags)\<rparr> (length ps) =
      \<lparr>o_kmem = k, o_dev = d, o_procs = (ps @ [open_reads d flags]) @ replicate n (Starting flags)\<rparr>"
    by (simp add: open_turn_def nth_append list_update_append)
  show ?case
    unfolding turns_Suc run_openers_simps t
    using Suc.IH [of "ps @ [open_reads d flags]"] by (simp del: upt_Suc)
qed

lemma rests_all:
  assumes "flags AND O_ACCMODE \<noteq> O_WRONLY" "a < b" "0 \<le> nprocs d" "nprocs d + int n < 2147483648"
  shows "run_openers \<lparr>o_kmem = k, o_dev = d, o_procs = ps @ replicate n (Checking flags a b)\<rparr>
     [length ps..<length ps + n] =
   \<lparr>o_kmem = k, o_dev = d\<lparr>nprocs := nprocs d + int n\<rparr>, o_procs = ps @ replicate n Admitted\<rparr>"
  using assms
proof (induction n arbitrary: ps d)
  case 0
  then show ?case by simp
next
  case (Suc n)
  let ?d = "d\<lparr>nprocs := nprocs d + 1\<rparr>"
  have t: "open_turn \<lparr>o_kmem = k, o_dev = d, o_procs = ps @ replicate (Suc n) (Checking flags a b)\<rparr> (length ps) =
      \<lparr>o_kmem = k, o_dev = ?d, o_procs = (ps @ [Admitted]) @ replicate n (Checking flags a b)\<rparr>"
    using Suc.prems by (simp add: open_turn_def nth_append list_update_append open_rest_def Let_def)
  have IH: "run_openers \<lparr>o_kmem = k, o_dev = ?d, o_procs = (ps @ [Admitted]) @ replicate n (Checking flags a b)\<rparr>
      [length (ps @ [Admitted])..<length (ps @ [Admitted]) + n] =
      \<lparr>o_kmem = k, o_dev = ?d\<lparr>nprocs := nprocs ?d + int n\<rparr>, o_procs = (ps @ [Admitted]) @ replicate n Admitted\<rparr>"
    using Suc.prems by (intro Suc.IH) simp_all
  show ?case
    unfolding turns_Suc run_openers_simps t using IH by (simp add: ac_simps del: upt_Suc)
qed

lemma race_all:
  assumes "nprocs d = 0" "max_nprocs d = 1" "int n < 2147483648" "flags AND O_ACCMODE \<noteq> O_WRONLY"
  shows "run_openers \<lparr>o_kmem = k, o_dev = d, o_procs = replicate n (Starting flags)\<rparr> ([0..<n] @ [0..<n]) =
    \<lparr>o_kmem = k, o_dev = d\<lparr>nprocs := int n\<rparr>, o_procs = replicate n Admitted\<rparr>"
  using reads_all [of k d "[]" n flags] rests_all [of flags 0 1 d n k "[]"] assms
  by (simp add: open_reads_def)



end
