(* ===== verification/Asgn1_Mmap.thy ===== *)
theory Asgn1_Mmap
  imports Asgn1_System
begin

section \<open>Memory mapping of the RAM disk\<close>

text \<open>
  What \<open>asgn1_mmap\<close> asks the kernel to map, and what a process then sees through the mapping:
  the byte at an address is the byte of the frame that the address's page was mapped to.
\<close>

definition mapped_byte :: "(int \<times> nat) list \<Rightarrow> page_node list \<Rightarrow> int \<Rightarrow> byte option" where
  "mapped_byte maps ns a =
     (case map_of maps (a - a mod PAGE_SIZE) of
        None \<Rightarrow> None
      | Some f \<Rightarrow> map_option (\<lambda>n. frame n ! nat (a mod PAGE_SIZE)) (find (\<lambda>n. pfn n = f) ns))"

text \<open>A store through the mapping changes the frame itself.\<close>

definition poke :: "nat \<Rightarrow> nat \<Rightarrow> byte \<Rightarrow> page_node list \<Rightarrow> page_node list" where
  "poke f off b ns = map (\<lambda>n. if pfn n = f then n\<lparr>frame := (frame n)[off := b]\<rparr> else n) ns"

definition mapped_store :: "(int \<times> nat) list \<Rightarrow> page_node list \<Rightarrow> int \<Rightarrow> byte \<Rightarrow> page_node list option" where
  "mapped_store maps ns a b =
     map_option (\<lambda>f. poke f (nat (a mod PAGE_SIZE)) b ns) (map_of maps (a - a mod PAGE_SIZE))"

text \<open>
  The loop at offset zero: page \<open>i\<close> of the list goes to page \<open>i\<close> of the area, up to the
  area's end.
\<close>

lemma mmap_pages_from:
  assumes "0 \<le> vm_start vma" "vm_start vma + (int i + int (length ns)) * 4096 \<le> 4294967296"
    and "vm_end vma = vm_start vma + int m * 4096" "i + length ns < 1048576"
  shows "mmap_pages vma 0 (int i) ns =
    map (\<lambda>j. (vm_start vma + int (i + j) * 4096, pfn (ns ! j))) [0..<min (length ns) (m - i)]"
  using assms
proof (induction ns arbitrary: i)
  case Nil
  then show ?case by simp
next
  case (Cons n ns)
  have u: "u32 (int i * 4096) = int i * 4096" "u32 (int i + 1) = int (Suc i)"
    "u32 (vm_start vma + int i * 4096) = vm_start vma + int i * 4096"
    using Cons.prems by simp_all
  have IH: "mmap_pages vma 0 (int (Suc i)) ns =
      map (\<lambda>j. (vm_start vma + int (Suc i + j) * 4096, pfn (ns ! j))) [0..<min (length ns) (m - Suc i)]"
    using Cons.prems by (intro Cons.IH) (simp_all add: algebra_simps)
  show ?case
  proof (cases "i < m")
    case True
    have "[0..<min (length (n # ns)) (m - i)] = 0 # map Suc [0..<min (length ns) (m - Suc i)]"
    proof -
      have "min (length (n # ns)) (m - i) = Suc (min (length ns) (m - Suc i))" using True by simp
      then show ?thesis by (simp only: upt_conv_Cons map_Suc_upt zero_less_Suc One_nat_def)
    qed
    then show ?thesis
      using True u IH Cons.prems(3) by (simp add: comp_def del: upt_Suc)
  next
    case False
    then show ?thesis using u IH Cons.prems(3) by simp
  qed
qed

text \<open>A mapping of \<open>m\<close> pages from the start of the device.\<close>

definition whole_vma :: "int \<Rightarrow> nat \<Rightarrow> vma" where
  "whole_vma start m = \<lparr>vm_start = start, vm_end = start + int m * PAGE_SIZE, vm_pgoff = 0\<rparr>"

lemma asgn1_mmap_zero:
  assumes "dev_inv d" "0 \<le> start" "int m \<le> num_pages d" "start + num_pages d * 4096 \<le> 4294967296"
    and "start + int m * 4096 < 4294967296"
  shows "asgn1_mmap d (whole_vma start m) =
    (0, map (\<lambda>i. (start + int i * 4096, pfn (mem_list d ! i))) [0..<m])"
proof -
  note inv = dev_invD [OF assms(1)]
  have "u32 (vm_end (whole_vma start m) - vm_start (whole_vma start m)) = int m * 4096"
    using assms inv by (simp add: whole_vma_def)
  moreover have "u32 (num_pages d * 4096) = num_pages d * 4096" using inv by simp
  moreover have "mmap_pages (whole_vma start m) 0 (int 0) (mem_list d) =
      map (\<lambda>i. (start + int i * 4096, pfn (mem_list d ! i))) [0..<m]"
    using assms inv mmap_pages_from [of "whole_vma start m" 0 "mem_list d" m]
    by (simp add: whole_vma_def min_absorb2)
  ultimately show ?thesis
    using assms(3) inv by (simp add: asgn1_mmap_def whole_vma_def Let_def)
qed

lemma map_of_pages:
  assumes "i < m"
  shows "map_of (map (\<lambda>i. (start + int i * 4096, f i)) [0..<m]) (start + int i * 4096) = Some (f i)"
proof (rule map_of_is_SomeI)
  show "distinct (map fst (map (\<lambda>i. (start + int i * 4096, f i)) [0..<m]))"
    by (simp add: comp_def distinct_map inj_on_def)
  show "(start + int i * 4096, f i) \<in> set (map (\<lambda>i. (start + int i * 4096, f i)) [0..<m])"
    using assms by auto
qed

lemma find_pfn:
  assumes "pages_ok ns" "i < length ns"
  shows "find (\<lambda>n. pfn n = pfn (ns ! i)) ns = Some (ns ! i)"
proof -
  have "distinct (map pfn ns)" using assms(1) by (simp add: pages_ok_def)
  then show ?thesis
    using assms(2) by (auto simp: find_Some_iff distinct_conv_nth)
qed

text \<open>An address in the area, as a page and an offset.\<close>

lemma page_and_offset:
  assumes "start mod 4096 = 0" "start \<le> a" "a < start + int m * 4096"
  obtains i off where "i < m" "off < 4096" "a = start + int i * 4096 + int off"
    "a mod 4096 = int off" "a - a mod 4096 = start + int i * 4096" "nat (a - start) = 4096 * i + off"
proof -
  define i where "i = nat ((a - start) div 4096)"
  define off where "off = nat ((a - start) mod 4096)"
  have i: "int i = (a - start) div 4096" and off: "int off = (a - start) mod 4096"
    using assms by (simp_all add: i_def off_def)
  have a: "a = start + int i * 4096 + int off" unfolding i off by simp
  have "i < m" using i assms(3) by linarith
  moreover have "off < 4096" using off by simp
  moreover have "a mod 4096 = int off"
  proof -
    have "a mod 4096 = (start mod 4096 + (int i * 4096 + int off)) mod 4096"
      using a by (simp add: mod_simps add.assoc)
    then show ?thesis using assms(1) \<open>off < 4096\<close> by simp
  qed
  moreover from this a have "a - a mod 4096 = start + int i * 4096" by simp
  moreover have "nat (a - start) = 4096 * i + off" using a by simp
  ultimately show ?thesis using a that by blast
qed

lemma mapped_byte_eq:
  assumes "dev_inv d" "start mod 4096 = 0" "int m \<le> num_pages d" "start \<le> a" "a < start + int m * 4096"
  shows "mapped_byte (map (\<lambda>i. (start + int i * 4096, pfn (mem_list d ! i))) [0..<m]) (mem_list d) a =
    Some (flat (mem_list d) ! nat (a - start))"
proof -
  note inv = dev_invD [OF assms(1)]
  obtain i off where io: "i < m" "off < 4096" "a mod 4096 = int off" "a - a mod 4096 = start + int i * 4096"
    "nat (a - start) = 4096 * i + off"
    using page_and_offset [OF assms(2,4,5)] by metis
  have len: "i < length (mem_list d)" using io(1) assms(3) inv(1) by simp
  then show ?thesis
    using io map_of_pages [OF io(1), of start "\<lambda>i. pfn (mem_list d ! i)"] find_pfn [OF inv(3) len] nth_flat [OF inv(3) len io(2)]
    by (simp add: mapped_byte_def)
qed

lemma flat_poke:
  assumes "pages_ok ns" "i < length ns" "off < 4096"
  shows "flat (poke (pfn (ns ! i)) off b ns) = (flat ns)[4096 * i + off := b]"
  using assms
proof (induction ns arbitrary: i)
  case Nil
  then show ?case by simp
next
  case (Cons n ns)
  show ?case
  proof (cases i)
    case 0
    have "poke (pfn n) off b ns = ns"
    proof -
      have "\<forall>x \<in> set ns. pfn x \<noteq> pfn n" using Cons.prems(1) by (auto simp: image_iff)
      then show ?thesis by (simp add: poke_def map_idI)
    qed
    then show ?thesis using 0 Cons.prems by (simp add: poke_def list_update_append)
  next
    case (Suc j)
    then have "pfn n \<noteq> pfn (ns ! j)" using Cons.prems(1,2) by (auto simp: image_iff)
    then have "poke (pfn (ns ! j)) off b (n # ns) = n # poke (pfn (ns ! j)) off b ns"
      by (simp add: poke_def)
    then show ?thesis using Suc Cons by (simp add: list_update_append)
  qed
qed

lemma mapped_store_eq:
  assumes "dev_inv d" "start mod 4096 = 0" "int m \<le> num_pages d" "start \<le> a" "a < start + int m * 4096"
  shows "\<exists>ns. mapped_store (map (\<lambda>i. (start + int i * 4096, pfn (mem_list d ! i))) [0..<m]) (mem_list d) a b =
      Some ns \<and> flat ns = (flat (mem_list d))[nat (a - start) := b] \<and> dev_inv (d\<lparr>mem_list := ns\<rparr>)"
proof -
  note inv = dev_invD [OF assms(1)]
  obtain i off where io: "i < m" "off < 4096" "a mod 4096 = int off" "a - a mod 4096 = start + int i * 4096"
    "nat (a - start) = 4096 * i + off"
    using page_and_offset [OF assms(2,4,5)] by metis
  have len: "i < length (mem_list d)" using io(1) assms(3) inv(1) by simp
  have "pages_ok (poke f o' b (mem_list d))" for f o'
    using inv(3) by (auto simp: pages_ok_def poke_def comp_def if_distrib [of pfn] cong: if_cong)
  then have "dev_inv (d\<lparr>mem_list := poke f o' b (mem_list d)\<rparr>)" for f o'
    using assms(1) by (simp add: dev_inv_def poke_def)
  then show ?thesis
    using io map_of_pages [OF io(1), of start "\<lambda>i. pfn (mem_list d ! i)"] flat_poke [OF inv(3) len io(2)]
    by (simp add: mapped_store_def)
qed

end
