(* ===== verification/Asgn1_Faults.thy ===== *)
theory Asgn1_Faults
  imports Asgn1_System
begin

section \<open>Where the RAM disk loses data: faults, exhausted memory, large positions\<close>

text \<open>
  The paths of \<^verbatim>\<open>asgn1_write\<close> that a caller cannot see: what a short copy from user space
  leaves in the pages, what a failed allocation returns, what a position near \<open>2 ^ 32\<close> does
  to the allocation loop, and what a gap in the store shows.
\<close>

subsection \<open>A copy that stops short\<close>

text \<open>
  Once the user's memory is exhausted the loop still visits every following page: each round
  copies nothing, and \<open>copy_from_user\<close> clears the region that it was asked to fill.
\<close>

lemma copy_from_user_exhausted:
  "0 \<le> n \<Longrightarrow> copy_from_user all_copied r (int (length buf)) buf n = (replicate (nat n) 0, n)"
  by (simp add: copy_from_user_def all_copied_def)

lemma write_pages_hit:
  assumes "s32 (no + 1) = bp"
    and "u32 (min (s32 (u32 (PAGE_SIZE - bo))) (s32 (u32 (count - sw)))) = c"
    and "copy_from_user ua bp sw buf c = (bytes, left)"
    and "page_store (frame n) bo bytes = Some page"
    and "u32 (sw + u32 (c - left)) = sw'" and "sw' \<noteq> count"
  shows "write_pages ua buf count no bp bo sw (n # ns) =
    map_option (\<lambda>(m, more). (m, n\<lparr>frame := page\<rparr> # more))
      (write_pages ua buf count bp (s32 (bp + 1)) 0 sw' ns)"
  by (simp only: write_pages.simps Let_def assms(1-5) prod.case option.case simp_thms if_True if_False assms(6))

lemma write_pages_exhausted:
  assumes "full_frames ns" "int (length buf) < count" "count < 2147483648"
    and "count - int (length buf) \<le> 4096" "- 1 \<le> no" "no + int (length ns) < 2147483646"
  shows "write_pages all_copied buf count no (no + 1) 0 (int (length buf)) ns =
    Some (int (length buf),
          map (\<lambda>n. n\<lparr>frame := blit (frame n) 0 (replicate (nat (count - int (length buf))) 0)\<rparr>) ns)"
  using assms
proof (induction ns arbitrary: no)
  case Nil
  then show ?case by simp
next
  case (Cons n ns)
  define z where "z = count - int (length buf)"
  have sz: "u32 (min (s32 (u32 (PAGE_SIZE - 0))) (s32 (u32 (count - int (length buf))))) = z"
    using Cons.prems round_size [of 0 "int (length buf)" count] by (simp add: z_def)
  have z: "0 < z" "z \<le> 4096" using Cons.prems by (simp_all add: z_def)
  have no: "s32 (no + 1) = no + 1" "s32 (no + 1 + 1) = no + 1 + 1" using Cons.prems by simp_all
  have st: "page_store (frame n) 0 (replicate (nat z) 0) = Some (blit (frame n) 0 (replicate (nat z) 0))"
    using Cons.prems(1) z by (simp add: page_store_def)
  have v: "u32 (int (length buf) + u32 (z - z)) = int (length buf)" using Cons.prems by simp
  have IH: "write_pages all_copied buf count (no + 1) (no + 1 + 1) 0 (int (length buf)) ns =
      Some (int (length buf), map (\<lambda>n. n\<lparr>frame := blit (frame n) 0 (replicate (nat z) 0)\<rparr>) ns)"
    unfolding z_def using Cons.prems by (intro Cons.IH) simp_all
  have cp: "copy_from_user all_copied (no + 1) (int (length buf)) buf z = (replicate (nat z) 0, z)"
    using z by (simp add: copy_from_user_exhausted)
  show ?case
    using write_pages_hit [OF no(1) sz cp st v] IH no(2) Cons.prems(2) by (simp add: z_def)
qed

lemma write_pages_short:
  assumes "full_frames (n # ns)" "int (length buf) < count" "count < 2147483648"
    and "0 \<le> pos" "pos + count \<le> 4096" "length ns < 1048576"
  shows "write_pages all_copied buf count (- 1) (s32 (cdiv pos PAGE_SIZE)) (u32 (crem pos PAGE_SIZE)) 0 (n # ns) =
    Some (int (length buf),
          n\<lparr>frame := blit (frame n) (nat pos) (buf @ replicate (nat (count - int (length buf))) 0)\<rparr> #
          map (\<lambda>n. n\<lparr>frame := blit (frame n) 0 (replicate (nat (count - int (length buf))) 0)\<rparr>) ns)"
proof -
  have pos: "pos < 4096" using assms by linarith
  have args: "s32 (cdiv pos PAGE_SIZE) = 0" "u32 (crem pos PAGE_SIZE) = pos"
    using assms(4) pos by (simp_all add: div_pos_pos_trivial)
  have sz: "u32 (min (s32 (u32 (PAGE_SIZE - pos))) (s32 (u32 (count - 0)))) = count"
    using round_size [of pos 0 count] assms pos by simp
  have cp: "copy_from_user all_copied 0 0 buf count =
      (buf @ replicate (nat (count - int (length buf))) 0, count - int (length buf))"
    using assms by (simp add: copy_from_user_def all_copied_def Let_def)
  have st: "page_store (frame n) pos (buf @ replicate (nat (count - int (length buf))) 0) =
      Some (blit (frame n) (nat pos) (buf @ replicate (nat (count - int (length buf))) 0))"
    using assms by (simp add: page_store_def)
  have v: "u32 (0 + u32 (count - (count - int (length buf)))) = int (length buf)" using assms by simp
  have rest: "write_pages all_copied buf count 0 (s32 (0 + 1)) 0 (int (length buf)) ns =
      Some (int (length buf),
            map (\<lambda>n. n\<lparr>frame := blit (frame n) 0 (replicate (nat (count - int (length buf))) 0)\<rparr>) ns)"
    using write_pages_exhausted [of ns buf count 0] assms by simp
  have no: "s32 (- 1 + 1) = 0" by simp
  show ?thesis
    unfolding args using write_pages_hit [OF no sz cp st v] rest assms(2) by simp
qed

lemma asgn1_write_short:
  assumes "machine_ok k d" "mem_list d = n # ns" "int (length buf) < count" "0 \<le> pos" "pos + count \<le> 4096"
  shows "asgn1_write all_copied k d buf count pos =
    Some (int (length buf), pos + int (length buf), k,
      d\<lparr>mem_list := n\<lparr>frame := blit (frame n) (nat pos) (buf @ replicate (nat (count - int (length buf))) 0)\<rparr> #
          map (\<lambda>n. n\<lparr>frame := blit (frame n) 0 (replicate (nat (count - int (length buf))) 0)\<rparr>) ns,
        data_size := max (data_size d) (pos + int (length buf))\<rparr>)"
proof -
  have inv: "dev_inv d" using assms(1) by (rule machine_okD)
  note b = dev_invD [OF inv] dev_inv_bounds [OF inv]
  have np: "num_pages d = 1 + int (length ns)" using b(1) assms(2) by simp
  then have "\<not> num_pages d * 4096 < pos + count" using assms(5) by simp
  then have a: "add_pages (s64 (pos + count)) k d = (True, k, d)"
    using add_pages_step [OF assms(1), of "pos + count"] assms by simp
  have "full_frames (n # ns)" "length ns < 1048576" using b(8,9) assms(2) by simp_all
  from write_pages_short [OF this(1) assms(3) _ assms(4,5) this(2)] assms
  have "write_pages all_copied buf count (- 1) (s32 (cdiv pos PAGE_SIZE)) (u32 (crem pos PAGE_SIZE)) 0 (n # ns) =
    Some (int (length buf),
          n\<lparr>frame := blit (frame n) (nat pos) (buf @ replicate (nat (count - int (length buf))) 0)\<rparr> #
          map (\<lambda>n. n\<lparr>frame := blit (frame n) 0 (replicate (nat (count - int (length buf))) 0)\<rparr>) ns)"
    by simp
  then show ?thesis
    using a assms b(8,9) unfolding asgn1_write_def
    by (simp add: Let_def del: write_pages.simps)
qed

subsection \<open>Memory that runs out\<close>

text \<open>
  A page that cannot be had makes the write return zero, not an error, and its node is lost.
\<close>

lemma asgn1_write_no_page:
  assumes "machine_ok k d" "0 \<le> pos" "0 \<le> count" "num_pages d * 4096 < pos + count" "pos + count < 2 ^ 63"
    and "kmallocs k = replicate n True" "n > 0" "page_allocs k = []"
  shows "asgn1_write ua k d buf count pos =
    Some (0, pos, k\<lparr>kmallocs := replicate (n - 1) True, live_nodes := live_nodes k + 1\<rparr>, d)"
proof -
  have km: "kmalloc k = (True, k\<lparr>kmallocs := replicate (n - 1) True, live_nodes := live_nodes k + 1\<rparr>)"
    using assms(6,7) by (cases n) (simp_all add: kmalloc_def)
  then have "alloc_page (snd (kmalloc k)) = (None, snd (kmalloc k))"
    using assms(8) by (simp add: alloc_page_def)
  moreover have "s64 (pos + count) = pos + count" using assms by simp
  ultimately have "add_pages (s64 (pos + count)) k d =
      (False, k\<lparr>kmallocs := replicate (n - 1) True, live_nodes := live_nodes k + 1\<rparr>, d)"
    using add_pages_step [OF assms(1), of "pos + count"] assms(4) km by simp
  then show ?thesis unfolding asgn1_write_def by (simp add: Let_def)
qed

text \<open>A caller that tries again, as a writer that gets zero does, loses one node each time.\<close>

fun retry_write :: "nat \<Rightarrow> kmem \<Rightarrow> asgn_dev \<Rightarrow> byte list \<Rightarrow> int \<Rightarrow> int list \<times> kmem \<times> asgn_dev" where
  "retry_write 0 k d buf pos = ([], k, d)"
| "retry_write (Suc n) k d buf pos =
     (case asgn1_write all_copied k d buf (int (length buf)) pos of
        None \<Rightarrow> ([], k, d)
      | Some (r, pos', k1, d1) \<Rightarrow>
          (let (rs, k2, d2) = retry_write n k1 d1 buf pos' in (r # rs, k2, d2)))"

lemma machine_ok_kmem:
  "machine_ok k d \<Longrightarrow> machine_ok (k\<lparr>kmallocs := a, live_nodes := b\<rparr>) d"
  by (simp add: machine_ok_def kmem_ok_def supplied_def)

lemma retry_write_leaks:
  assumes "machine_ok k d" "0 \<le> pos" "num_pages d * 4096 < pos + int (length buf)"
    and "pos + int (length buf) < 2 ^ 63" "kmallocs k = replicate n True" "page_allocs k = []"
  shows "retry_write n k d buf pos =
    (replicate n 0, k\<lparr>kmallocs := [], live_nodes := live_nodes k + int n\<rparr>, d)"
  using assms
proof (induction n arbitrary: k)
  case 0
  then show ?case by simp
next
  case (Suc n)
  let ?k = "k\<lparr>kmallocs := replicate n True, live_nodes := live_nodes k + 1\<rparr>"
  have "asgn1_write all_copied k d buf (int (length buf)) pos = Some (0, pos, ?k, d)"
    using asgn1_write_no_page [OF Suc.prems(1,2) _ Suc.prems(3,4,5) _ Suc.prems(6)] by simp
  moreover have "retry_write n ?k d buf pos =
      (replicate n 0, ?k\<lparr>kmallocs := [], live_nodes := live_nodes ?k + int n\<rparr>, d)"
    using Suc.prems machine_ok_kmem by (intro Suc.IH) auto
  ultimately show ?case by (simp add: Let_def)
qed

subsection \<open>Positions near the end of 32 bits\<close>

lemma asgn1_write_far:
  assumes "machine_ok k d" "0 \<le> pos" "0 \<le> count" "4294963200 < pos + count" "pos + count < 2 ^ 63"
    and "mem_available n k" "length (page_allocs k) = n" "length (kmallocs k) = n"
  shows "\<exists>k' d'. asgn1_write ua k d buf count pos = Some (0, pos, k', d') \<and>
    page_allocs k' = [] \<and> num_pages d' = num_pages d + int n \<and> data_size d' = data_size d"
proof -
  obtain added k1 d1 where a: "add_pages (pos + count) k d = (added, k1, d1)" by (metis prod_cases3)
  have s: "s64 (pos + count) = pos + count" using assms by simp
  have "\<not> added" using add_pages_never [OF assms(1,4)] a by simp
  moreover have "data_size d1 = data_size d"
    using add_pages_frame(3) [OF assms(1) a] by (metis asgn_dev.select_convs(3) asgn_dev.surjective asgn_dev.update_convs(1,2))
  moreover have "page_allocs k1 = []" "num_pages d1 = num_pages d + int n"
    using add_pages_takes_all [OF assms(1,4,6,7,8)] a by simp_all
  ultimately show ?thesis using a s unfolding asgn1_write_def by (simp add: Let_def)
qed

subsection \<open>Gaps\<close>

text \<open>
  The bytes before the first write into a new page are those that the page held before it
  was allocated.
\<close>

lemma asgn1_stale:
  assumes "fresh_kmem k" "kmallocs k = True # ks" "page_allocs k = Some (f, old) # ps"
    and "0 < pos" "pos + int (length buf) \<le> 4096" "0 < length buf"
    and "d = \<lparr>mem_list = [], num_pages = 0, data_size = 0, nprocs = 1, max_nprocs = 1\<rparr>"
  shows "\<exists>k' d'. asgn1_write all_copied k d buf (int (length buf)) pos =
      Some (int (length buf), pos + int (length buf), k', d') \<and>
    asgn1_read all_copied d' pos 0 = Some (pos, take (nat pos) old, pos)"
proof -
  let ?n = "\<lparr>pfn = f, frame = old\<rparr>"
  have ok: "machine_ok k d"
    using assms(1,7) by (simp add: fresh_kmem_def machine_ok_def dev_inv_def)
  have old: "length old = 4096"
    using assms(1,3) by (auto simp: fresh_kmem_def kmem_ok_def supplied_def List.map_filter_simps)
  have pages: "pages_for (pos + int (length buf)) = 1"
    using assms(4,5,6) by (simp add: pages_for_def)
  have avail: "mem_available 1 k" using assms(2,3) by (simp add: mem_available_def)
  have w: "writable k d pos (int (length buf))"
    using assms(4-7) pages avail by (simp add: writable_def)
  obtain k' d' fill where r: "asgn1_write all_copied k d buf (int (length buf)) pos =
      Some (int (length buf), pos + int (length buf), k', d')" "machine_ok k' d'"
    "data_size d' = max (data_size d) (pos + int (length buf))"
    using asgn1_write_ok [OF ok no_fault_all_copied w, of buf] by auto
  have "add_pages (pos + int (length buf)) k d =
      (True, k\<lparr>kmallocs := ks, live_nodes := live_nodes k + 1, page_allocs := ps,
              live_pages := live_pages k + 1\<rparr>, d\<lparr>mem_list := [?n], num_pages := 1\<rparr>)"
    using assms by (subst add_pages.simps, subst add_pages.simps)
      (simp add: kmalloc_def alloc_page_def list_add_tail_def)
  moreover obtain ns where "write_pages all_copied buf (int (length buf)) (- 1) (s32 (cdiv pos PAGE_SIZE))
      (u32 (crem pos PAGE_SIZE)) 0 [?n] = Some (int (length buf), ns)"
    "flat ns = blit (flat [?n]) (nat pos) (take (nat (int (length buf))) buf)"
    using write_pages_full [of all_copied "[?n]" pos "int (length buf)" buf] assms old by auto
  ultimately have "flat (mem_list d') = blit old (nat pos) buf"
    using r(1) assms(4,5) unfolding asgn1_write_def by (auto simp: Let_def)
  moreover have "take (nat pos) (blit old (nat pos) buf) = take (nat pos) old"
    using assms(5) old by (simp add: blit_def)
  moreover have "dev_inv d'" using r(2) by (rule machine_okD)
  ultimately show ?thesis
    using r(1,3) assms(4,5,7) asgn1_read_ok [of d' all_copied 0 pos] by auto
qed

end
