(* ===== verification/Asgn1_Properties.thy ===== *)
theory Asgn1_Properties
  imports Asgn1_Mmap Asgn1_Faults
begin

section \<open>What the RAM disk of assignment 1 does\<close>

text \<open>
  The properties of the driver's operations, over the lemmas of the theories before, each with
  an application to a concrete state where it has hypotheses.
\<close>

subsection \<open>An example state\<close>

definition demo_dev :: asgn_dev where
  "demo_dev = \<lparr>mem_list = [], num_pages = 0, data_size = 0, nprocs = 1, max_nprocs = 1\<rparr>"

lemma demo_ok: "n < 1048576 \<Longrightarrow> machine_ok (clean_kmem n) demo_dev"
  by (simp add: machine_ok_def demo_dev_def dev_inv_def kmem_ok_clean supplied_clean)

lemma demo_writable: "0 \<le> p \<Longrightarrow> 0 < c \<Longrightarrow> p + c \<le> 4096 \<Longrightarrow> writable (clean_kmem 1) demo_dev p c"
proof -
  assume a: "0 \<le> p" "0 < c" "p + c \<le> 4096"
  then have "(p + c + 4095) div 4096 = 1" by simp
  then show ?thesis using a mem_available_clean [of 1] by (simp add: writable_def demo_dev_def pages_for_def)
qed

lemma demo_empty [simp]: "data_size demo_dev = 0" "mem_list demo_dev = []" "num_pages demo_dev = 0"
  by (simp_all add: demo_dev_def)

subsection \<open>Writes and reads\<close>

text \<open>
  C1: what a write stores, a read of the same region returns, and a read of any other region
  inside the data is as before.
\<close>

theorem asgn1_write_read:
  assumes "machine_ok k d" "writable k d pos (int (length buf))" "length buf < 2147483648"
  shows "\<exists>k' d'. asgn1_write all_copied k d buf (int (length buf)) pos =
      Some (int (length buf), pos + int (length buf), k', d') \<and>
    asgn1_read all_copied d' (int (length buf)) pos = Some (int (length buf), buf, pos + int (length buf)) \<and>
    (\<forall>q n. 0 \<le> q \<and> 0 \<le> n \<and> n < 2147483648 \<and> q + n \<le> data_size d \<and>
        (q + n \<le> pos \<or> pos + int (length buf) \<le> q) \<longrightarrow>
      asgn1_read all_copied d' n q = asgn1_read all_copied d n q)"
proof -
  let ?s = "(k, d)" and ?n = "int (length buf)"
  have ok: "disk_ok ?s" and fit: "disk_fits ?s pos ?n"
    using assms by (simp_all add: disk_ok_def disk_fits_def)
  have p: "0 \<le> pos" using fit by (simp add: disk_fits_def writable_def)
  obtain fill where w: "asgn1_write all_copied k d buf ?n pos =
      Some (?n, pos + ?n, fst (disk_put ?s pos buf), snd (disk_put ?s pos buf))"
    "disk_ok (disk_put ?s pos buf)" "disk_size (disk_put ?s pos buf) = max (disk_size ?s) (pos + ?n)"
    using disk_put_ok [OF ok fit] by auto
  let ?d = "snd (disk_put ?s pos buf)"
  have inv: "dev_inv ?d" "dev_inv d" using w(2) ok by (simp_all add: disk_ok_def machine_ok_def)
  have size: "data_size ?d = max (data_size d) (pos + ?n)" using w(3) by (simp add: disk_size_def)
  have rd: "asgn1_read all_copied e n q = Some (min n (data_size e - q), disk_get (j, e) q n,
      q + min n (data_size e - q))"
    if "dev_inv e" "0 \<le> q" "q \<le> data_size e" "0 \<le> n" "n < 2147483648" for e j q n
    using asgn1_read_ok [OF that(1) no_fault_all_copied that(2-5)] by (simp add: disk_get_def)
  have "disk_get (disk_put ?s pos buf) pos ?n = buf"
    by (rule disk.get_put [OF ok fit assms(3)])
  then have "asgn1_read all_copied ?d ?n pos = Some (?n, buf, pos + ?n)"
    using rd [OF inv(1) p _ _ _, of ?n "fst (disk_put ?s pos buf)"] size assms(3) by (simp add: min_absorb1)
  moreover have "asgn1_read all_copied ?d n q = asgn1_read all_copied d n q"
    if "0 \<le> q" "0 \<le> n" "n < 2147483648" "q + n \<le> data_size d" "q + n \<le> pos \<or> pos + ?n \<le> q" for q n
  proof -
    have "disk_get (disk_put ?s pos buf) q n = disk_get ?s q n"
      using disk.get_put_other [OF ok fit] that by (simp add: disk_size_def)
    then show ?thesis
      using rd [OF inv(1) that(1) _ that(2,3), of "fst (disk_put ?s pos buf)"]
        rd [OF inv(2) that(1) _ that(2,3), of k] that size by (simp add: min_absorb1)
  qed
  ultimately show ?thesis using w(1) by blast
qed

theorem asgn1_write_read_witness:
  "\<exists>k' d'. asgn1_write all_copied (clean_kmem 1) demo_dev [1, 2, 3] 3 5 = Some (3, 8, k', d') \<and>
    asgn1_read all_copied d' 3 5 = Some (3, [1, 2, 3], 8)"
  using asgn1_write_read [of "clean_kmem 1" demo_dev 5 "[1, 2, 3]"] demo_ok [of 1] demo_writable [of 5 3]
  by auto

text \<open>
  A region that is written in any number of pieces, one after the other, reads back as
  their concatenation.
\<close>

lemma asgn1_write_chunks:
  assumes "machine_ok k d" "writable k d pos (int (length (concat cs)))" "cs \<noteq> []"
    and "length (concat cs) < 2147483648"
  shows "disk_get (put_chunks disk_put (k, d) pos cs) pos (int (length (concat cs))) = concat cs"
  using assms by (intro disk.get_put_chunks) (simp_all add: disk_ok_def disk_fits_def)

text \<open>The data that a device holds: the abstract state of the driver.\<close>

definition contents :: "asgn_dev \<Rightarrow> byte list" where
  "contents d = take (nat (data_size d)) (flat (mem_list d))"

lemma contents_length: "dev_inv d \<Longrightarrow> int (length (contents d)) = data_size d"
  using dev_invD(4,5,7) [of d] by (simp add: contents_def)

lemma take_blit_extend:
  assumes "p \<le> n" "n \<le> length xs"
  shows "take (max n (p + length ys)) (blit (xs @ zs) p ys) = blit (take n xs) p ys"
proof (cases "p + length ys \<le> n")
  case True
  then have "take (n - (p + length ys)) (drop (p + length ys) (xs @ zs)) = drop (p + length ys) (take n xs)"
    using assms by (simp add: drop_take)
  then show ?thesis using True assms by (simp add: blit_def max_absorb1 min_absorb1 min_absorb2)
next
  case False
  then show ?thesis using assms by (simp add: blit_def max_absorb2 min_absorb1 min_absorb2)
qed

lemma asgn1_write_contents:
  assumes "machine_ok k d" "no_fault ua" "0 \<le> pos" "pos \<le> data_size d" "writable k d pos count"
    and "count \<le> int (length buf)"
  shows "\<exists>k' d'. asgn1_write ua k d buf count pos = Some (count, pos + count, k', d') \<and> machine_ok k' d' \<and>
    data_size d' = max (data_size d) (pos + count) \<and> num_pages d' = max (num_pages d) (pages_for (pos + count)) \<and>
    contents d' = blit (contents d) (nat pos) (take (nat count) buf)"
proof -
  obtain k' d' fill where w: "asgn1_write ua k d buf count pos = Some (count, pos + count, k', d')"
    "machine_ok k' d'" "data_size d' = max (data_size d) (pos + count)"
    "num_pages d' = max (num_pages d) (pages_for (pos + count))"
    "flat (mem_list d') = blit (flat (mem_list d) @ fill) (nat pos) (take (nat count) buf)"
    using asgn1_write_ok [OF assms(1,2,5,6)] by blast
  have c: "0 \<le> count" using assms(5) by (simp add: writable_def)
  then have l: "length (take (nat count) buf) = nat count" using assms(6) by auto
  have "nat (data_size d) \<le> length (flat (mem_list d))"
    using dev_invD(5,7) [OF machine_okD [OF assms(1)]] by linarith
  moreover have "nat pos \<le> nat (data_size d)" using assms(3,4) by simp
  ultimately have cut: "take (max (nat (data_size d)) (nat pos + nat count))
      (blit (flat (mem_list d) @ fill) (nat pos) (take (nat count) buf)) =
      blit (contents d) (nat pos) (take (nat count) buf)"
    using take_blit_extend [of "nat pos" "nat (data_size d)" "flat (mem_list d)" "take (nat count) buf" fill]
    unfolding l contents_def by blast
  have "nat (max (data_size d) (pos + count)) = max (nat (data_size d)) (nat pos + nat count)"
    using assms(3,4) c by (auto simp: max_def nat_add_distrib)
  then have "contents d' = blit (contents d) (nat pos) (take (nat count) buf)"
    unfolding contents_def [of d'] w(3,5) using cut by (simp only:)
  then show ?thesis using w(1-4) by blast
qed

text \<open>
  Seen through the data it holds, the driver is a flat array: a read returns a piece of it, a
  write inside it or at its end overwrites a region, an open for writing only empties it, and
  the other operations leave it.
\<close>

lemma asgn1_refines_array:
  assumes "machine_ok k d" "no_fault ua" "0 \<le> pos" "pos \<le> data_size d" "0 \<le> count" "count < 2147483648"
  shows "asgn1_read ua d count pos =
      (let out = take (nat count) (drop (nat pos) (contents d))
       in Some (int (length out), out, pos + int (length out))) \<and>
    (writable k d pos count \<and> count \<le> int (length buf) \<longrightarrow>
      (\<exists>k' d'. asgn1_write ua k d buf count pos = Some (count, pos + count, k', d') \<and> machine_ok k' d' \<and>
        contents d' = blit (contents d) (nat pos) (take (nat count) buf))) \<and>
    (nprocs d < max_nprocs d \<longrightarrow>
      contents (snd (snd (asgn1_open k d flags))) =
        (if flags AND O_ACCMODE = O_WRONLY then [] else contents d)) \<and>
    contents (snd (asgn1_release d)) = contents d \<and>
    contents (snd (asgn1_ioctl d cmd arg_ok arg)) = contents d"
proof (intro conjI impI)
  have inv: "dev_inv d" using assms(1) by (rule machine_okD)
  note b = dev_invD(4,5,7) [OF inv]
  define n where "n = min count (data_size d - pos)"
  have "take (nat count) (drop (nat pos) (contents d)) = take (nat n) (drop (nat pos) (flat (mem_list d)))"
  proof -
    have "nat n = min (nat count) (nat (data_size d) - nat pos)" using assms by (auto simp: n_def min_def)
    then show ?thesis by (simp add: contents_def drop_take min.commute)
  qed
  moreover have "int (length (take (nat n) (drop (nat pos) (flat (mem_list d))))) = n"
    using assms b by (auto simp: n_def)
  ultimately show "asgn1_read ua d count pos =
      (let out = take (nat count) (drop (nat pos) (contents d))
       in Some (int (length out), out, pos + int (length out)))"
    using asgn1_read_ok [OF inv assms(2-6)] by (simp add: Let_def n_def)
next
  assume "writable k d pos count \<and> count \<le> int (length buf)"
  then show "\<exists>k' d'. asgn1_write ua k d buf count pos = Some (count, pos + count, k', d') \<and> machine_ok k' d' \<and>
        contents d' = blit (contents d) (nat pos) (take (nat count) buf)"
    using asgn1_write_contents [OF assms(1-4)] by blast
next
  assume "nprocs d < max_nprocs d"
  then show "contents (snd (snd (asgn1_open k d flags))) =
        (if flags AND O_ACCMODE = O_WRONLY then [] else contents d)"
    by (simp add: asgn1_open_cases contents_def free_memory_pages_eq)
next
  show "contents (snd (asgn1_release d)) = contents d" by (simp add: asgn1_release_def contents_def)
next
  show "contents (snd (asgn1_ioctl d cmd arg_ok arg)) = contents d"
    by (simp add: asgn1_ioctl_def contents_def Let_def split: option.split)
qed

subsection \<open>Every call, in every state\<close>

text \<open>
  C2: from the loaded module on, whatever calls the kernel passes to the driver and whatever
  allocations or user accesses fail, the next call has a result, no access leaves a page, the
  device keeps its invariant, every page is accounted for, and the number of users is the
  number of open files.
\<close>

theorem asgn1_calls_safe:
  assumes "fresh_kmem k" "asgn1_reachable k s" "vfs_passes s c"
  shows "\<exists>r t. asgn1_call s c = Some (r, t) \<and> dev_inv (dev_of t) \<and>
    live_pages (kmem_of t) - live_pages k = int (length (mem_list (dev_of t))) \<and>
    nprocs (dev_of t) = int (card {fd. files t fd \<noteq> None})"
proof -
  have "sys_inv k s" using reachable_inv assms(1,2) by blast
  then obtain r t where t: "asgn1_call s c = Some (r, t)" "sys_inv k t" using sys_inv_call assms(3) by blast
  then show ?thesis by (auto simp: sys_inv_def machine_ok_def dev_inv_def dom_def)
qed

lemma fresh_clean: "n < 1048576 \<Longrightarrow> fresh_kmem (clean_kmem n)"
  by (simp add: fresh_kmem_def kmem_ok_clean supplied_clean)

theorem asgn1_calls_safe_witness:
  "\<exists>r t. asgn1_call (asgn1_loaded (clean_kmem 2)) (Open 3 O_RDWR) = Some (r, t) \<and> dev_inv (dev_of t)"
proof -
  have "vfs_passes (asgn1_loaded (clean_kmem 2)) (Open 3 O_RDWR)" by (simp add: asgn1_loaded_def)
  from asgn1_calls_safe [OF fresh_clean asgn1_reachable.loaded this] show ?thesis by auto
qed

subsection \<open>The allocation loop\<close>

text \<open>
  C15: the loop that adds pages always ends; where the memory suffices it leaves exactly the
  pages that are needed to reach the target, otherwise it reports failure, and in both cases
  the pages that were there stay in front.
\<close>

theorem asgn1_add_pages:
  assumes "machine_ok k d" "add_pages target k d = (ok, k', d')"
  shows "(ok \<longrightarrow> target \<le> num_pages d' * 4096) \<and> machine_ok k' d' \<and>
    (\<exists>new. mem_list d' = mem_list d @ new) \<and> data_size d' = data_size d \<and>
    (\<forall>n. mem_available n k \<and> target \<le> (num_pages d + int n) * 4096 \<longrightarrow>
      ok \<and> num_pages d' = max (num_pages d) ((target + 4095) div 4096)) \<and>
    (4294963200 < target \<longrightarrow> \<not> ok)"
proof -
  note f = add_pages_frame [OF assms]
  have "data_size d' = data_size d" using f(3) by (metis asgn_dev.select_convs(3) asgn_dev.surjective asgn_dev.update_convs(1,2))
  then show ?thesis
    using f(1,2,4) add_pages_enough [OF assms(1), of _ target] add_pages_never [OF assms(1), of target] assms(2)
    by (auto simp: pages_for_def)
qed

theorem asgn1_add_pages_witness:
  "num_pages (snd (snd (add_pages 5000 (clean_kmem 2) demo_dev))) = 2"
proof -
  obtain ok k d where a: "add_pages 5000 (clean_kmem 2) demo_dev = (ok, k, d)" by (metis prod_cases3)
  from asgn1_add_pages [OF demo_ok a] mem_available_clean [of 2] show ?thesis by (auto simp: a)
qed

subsection \<open>Seeks, users, ioctl\<close>

text \<open>No sequence of seeks leaves the pages of the device.\<close>

lemma asgn1_seeks_inside:
  assumes "dev_inv d" "0 \<le> pos" "pos \<le> num_pages d * 4096"
  shows "0 \<le> seeks asgn1_lseek d pos cmds \<and> seeks asgn1_lseek d pos cmds \<le> num_pages d * 4096"
  using disk_seek.seeks_inside [OF assms(1), of pos cmds] assms(2,3) by (simp add: disk_limit_def)

text \<open>
  Under any opens and closes, one after the other and with any flags, the count of users
  is exact and never above the limit.
\<close>

lemma asgn1_users_bounded:
  assumes "nprocs d = int n" "int n \<le> max_nprocs d" "max_nprocs d \<le> 2147483647"
    and "visits (disk_enter flags) disk_leave (n, (k, d)) vs = (n', (k', d'))"
  shows "nprocs d' = int n' \<and> int n' \<le> max_nprocs d' \<and> max_nprocs d' = max_nprocs d"
  using disk_users.visits_bounded [of "(k, d)" n flags vs n' "(k', d')"] assms by simp

text \<open>
  An open for writing only, where it is admitted, gives back every page and node of the
  device, for all its users; any other open, and any refused one, changes no data.
\<close>

lemma asgn1_open_truncates:
  assumes "asgn1_open k d flags = (r, k', d')"
  shows "if max_nprocs d \<le> nprocs d then r = - EBUSY \<and> k' = k \<and> d' = d
    else r = 0 \<and> nprocs d' = s32 (nprocs d + 1) \<and>
      (if flags AND O_ACCMODE = O_WRONLY
       then mem_list d' = [] \<and> data_size d' = 0 \<and> num_pages d' = 0 \<and>
         live_pages k' = live_pages k - int (length (mem_list d)) \<and>
         live_nodes k' = live_nodes k - int (length (mem_list d))
       else k' = k \<and> mem_list d' = mem_list d \<and> data_size d' = data_size d)"
  using assms by (auto simp: asgn1_open_cases free_memory_pages_eq)

text \<open>
  \<open>ioctl\<close> changes the limit of users and nothing else, and only for the driver's command
  with a number that is not negative; an argument that cannot be fetched is taken for zero, so
  that a bad address locks everybody out.
\<close>

lemma asgn1_ioctl_limit:
  "asgn1_ioctl d cmd arg_ok arg =
    (if IOC_TYPE cmd \<noteq> 107 then (- EINVAL, d)
     else if IOC_NR cmd \<noteq> 1 then (- ENOTTY, d)
     else if \<not> arg_ok then (- EFAULT, d)
     else (case arg of
             Some n \<Rightarrow> if n < 0 then (- EINVAL, d) else (0, d\<lparr>max_nprocs := n\<rparr>)
           | None \<Rightarrow> (0, d\<lparr>max_nprocs := 0\<rparr>))) \<and>
   (0 \<le> nprocs d \<longrightarrow> IOC_TYPE cmd = 107 \<longrightarrow> IOC_NR cmd = 1 \<longrightarrow>
     fst (asgn1_open k (snd (asgn1_ioctl d cmd True None)) flags) = - EBUSY)"
  by (auto simp: asgn1_ioctl_def asgn1_open_cases Let_def split: option.split)

subsection \<open>Mapping\<close>



subsection \<open>Data that is lost\<close>



text \<open>
  A write that cannot get a page returns zero, not an error, and loses the node it had
  allocated for it; a writer that tries again until it makes progress loses all of them.
\<close>

lemma asgn1_write_out_of_memory:
  assumes "machine_ok k d" "0 \<le> pos" "num_pages d * 4096 < pos + int (length buf)"
    and "pos + int (length buf) < 2 ^ 63" "kmallocs k = replicate n True" "page_allocs k = []"
  shows "retry_write n k d buf pos =
    (replicate n 0, k\<lparr>kmallocs := [], live_nodes := live_nodes k + int n\<rparr>, d)"
  using assms by (rule retry_write_leaks)

text \<open>
  C40: a positioned write that would end beyond the last page below \<open>2 ^ 32\<close> takes every page
  the machine has before it gives up: the size of the device is computed in 32 bits and never
  reaches the target. The write returns zero and the pages stay with the device.
\<close>

theorem asgn1_write_drains_memory:
  assumes "machine_ok k d" "0 \<le> pos" "0 \<le> count" "4294963200 < pos + count" "pos + count < 2 ^ 63"
    and "mem_available n k" "length (page_allocs k) = n" "length (kmallocs k) = n"
  shows "\<exists>k' d'. asgn1_write ua k d buf count pos = Some (0, pos, k', d') \<and>
    page_allocs k' = [] \<and> num_pages d' = num_pages d + int n \<and> data_size d' = data_size d"
  using assms by (rule asgn1_write_far)

theorem asgn1_write_drains_memory_witness:
  "\<exists>k' d'. asgn1_write all_copied (clean_kmem 5) demo_dev [1] 1 4294967295 = Some (0, 4294967295, k', d') \<and>
    page_allocs k' = [] \<and> num_pages d' = 5"
proof -
  have "length (page_allocs (clean_kmem 5)) = 5" "length (kmallocs (clean_kmem 5)) = 5"
    by (simp_all add: clean_kmem_def)
  from asgn1_write_drains_memory [OF demo_ok _ _ _ _ mem_available_clean this, of 4294967295 1 all_copied "[1]"]
  show ?thesis by auto
qed

text \<open>
  The bytes of a new page before the position of the first write are those that the page
  held before it was allocated, and a reader sees them.
\<close>

lemma asgn1_gap_shows_old_memory:
  assumes "fresh_kmem k" "kmallocs k = True # ks" "page_allocs k = Some (f, old) # ps"
    and "0 < pos" "pos + int (length buf) \<le> 4096" "0 < length buf"
    and "d = \<lparr>mem_list = [], num_pages = 0, data_size = 0, nprocs = 1, max_nprocs = 1\<rparr>"
  shows "\<exists>k' d'. asgn1_write all_copied k d buf (int (length buf)) pos =
      Some (int (length buf), pos + int (length buf), k', d') \<and>
    asgn1_read all_copied d' pos 0 = Some (pos, take (nat pos) old, pos)"
  using assms by (rule asgn1_stale)

end
