(* ===== verification/Asgn1_Writers.thy ===== *)
theory Asgn1_Writers
  imports Asgn1_Race Asgn1_Properties
begin

section \<open>Concurrent writers\<close>

text \<open>
  \<^verbatim>\<open>asgn1_write\<close> first adds the pages that are missing and then copies. Both loops can sleep, in the
  allocator and in the copy from the user; here the function is cut between them, and several
  processes that share the device take turns.
\<close>

subsection \<open>The two phases\<close>

definition write_alloc :: "kmem \<Rightarrow> asgn_dev \<Rightarrow> int \<Rightarrow> int \<Rightarrow> bool \<times> kmem \<times> asgn_dev" where
  "write_alloc k d count pos = add_pages (s64 (pos + count)) k d"

definition write_copy :: "uaccess \<Rightarrow> asgn_dev \<Rightarrow> byte list \<Rightarrow> int \<Rightarrow> int \<Rightarrow> (int \<times> int \<times> asgn_dev) option" where
  "write_copy ua d buf count pos =
     (let orig_pos = u32 pos;
          begin_offset = u32 (crem pos PAGE_SIZE);
          begin_page_no = s32 (cdiv pos PAGE_SIZE)
      in case write_pages ua buf count (- 1) begin_page_no begin_offset 0 (mem_list d) of
           None \<Rightarrow> None
         | Some (size_written, nodes) \<Rightarrow>
             Some (s32 size_written, s64 (pos + size_written),
                   d\<lparr>mem_list := nodes, data_size := max (data_size d) (u32 (orig_pos + size_written))\<rparr>))"

lemma asgn1_write_phases:
  "asgn1_write ua k d buf count pos =
     (case write_alloc k d count pos of
        (added, k, d) \<Rightarrow>
          if \<not> added then Some (0, pos, k, d)
          else map_option (\<lambda>(r, p, d). (r, p, k, d)) (write_copy ua d buf count pos))"
  by (simp add: asgn1_write_def write_alloc_def write_copy_def Let_def split: prod.split option.split)

subsection \<open>Adding pages\<close>

abbreviation grown :: "asgn_dev \<Rightarrow> nat \<Rightarrow> byte list \<Rightarrow> asgn_dev" where
  "grown d f bs \<equiv>
     d\<lparr>mem_list := list_add_tail \<lparr>pfn = f, frame = bs\<rparr> (mem_list d), num_pages := s32 (num_pages d + 1)\<rparr>"

lemma add_pages_cases:
  obtains (full) "\<not> u32 (num_pages d * PAGE_SIZE) < T" "add_pages T k d = (True, k, d)"
  | (stuck) k' where "u32 (num_pages d * PAGE_SIZE) < T" "add_pages T k d = (False, k', d)"
      "\<And>ns z. add_pages T k (d\<lparr>mem_list := ns, data_size := z\<rparr>) = (False, k', d\<lparr>mem_list := ns, data_size := z\<rparr>)"
  | (page) k1 f bs k2 where "u32 (num_pages d * PAGE_SIZE) < T" "kmalloc k = (True, k1)"
      "alloc_page k1 = (Some (f, bs), k2)"
proof -
  show thesis
  proof (cases "u32 (num_pages d * PAGE_SIZE) < T")
    case False
    then show thesis using full by (simp add: add_pages.simps)
  next
    case True
    obtain ok k1 where k1: "kmalloc k = (ok, k1)" by fastforce
    obtain pg k2 where k2: "alloc_page k1 = (pg, k2)" by fastforce
    show thesis
    proof (cases "ok \<and> pg \<noteq> None")
      case True
      then show thesis using \<open>u32 (num_pages d * PAGE_SIZE) < T\<close> k1 k2 page by fastforce
    next
      case False
      then have "add_pages T k (d\<lparr>mem_list := ns, data_size := z\<rparr>) =
          (False, if ok then k2 else k1, d\<lparr>mem_list := ns, data_size := z\<rparr>)" for ns z
        using \<open>u32 (num_pages d * PAGE_SIZE) < T\<close> k1 k2 by (cases pg) (auto simp: add_pages.simps [of T k])
      moreover from this [where ns = "mem_list d" and z = "data_size d"] have "add_pages T k d = (False, if ok then k2 else k1, d)"
        by simp
      ultimately show thesis using \<open>u32 (num_pages d * PAGE_SIZE) < T\<close> stuck by blast
    qed
  qed
qed

lemma add_pages_round:
  assumes "u32 (num_pages d * PAGE_SIZE) < T" "kmalloc k = (True, k1)" "alloc_page k1 = (Some (f, bs), k2)"
  shows "add_pages T k d = add_pages T k2 (grown d f bs)"
  using assms by (subst add_pages.simps) simp

lemma add_pages_rounds [case_names round]:
  assumes "\<And>k d. (\<And>k1 f bs k2. u32 (num_pages d * PAGE_SIZE) < T \<Longrightarrow> kmalloc k = (True, k1) \<Longrightarrow>
      alloc_page k1 = (Some (f, bs), k2) \<Longrightarrow> P k2 (grown d f bs)) \<Longrightarrow> P k d"
  shows "P k d"
proof (induction "length (kmallocs k)" arbitrary: k d rule: less_induct)
  case less
  show ?case
  proof (rule assms, goal_cases)
    case (1 k1 f bs k2)
    have "length (kmallocs k2) < length (kmallocs k)"
      using 1(2,3) by (auto simp: kmalloc_def alloc_page_def split: list.splits option.splits)
    then show ?case by (rule less.hyps)
  qed
qed

text \<open>Adding pages up to one target and then up to another is adding them up to the larger one.\<close>

lemma add_pages_twice:
  "add_pages T k d = (True, k1, d1) \<Longrightarrow> add_pages t k1 d1 = add_pages (max T t) k d"
proof (induction k d rule: add_pages_rounds [where T = T])
  case (round k d)
  show ?case
  proof (cases rule: add_pages_cases [of d T k])
    case full
    then show ?thesis using round.prems by (simp add: add_pages.simps [of t k d] add_pages.simps [of "max T t" k d] max_def)
  next
    case (page k' f bs k2)
    then have "u32 (num_pages d * PAGE_SIZE) < max T t" by simp
    then show ?thesis
      using round.IH [OF page] round.prems page by (simp add: add_pages_round)
  qed (use round.prems in simp)
qed

text \<open>The loop does not look at the pages that are there, nor at the size of the data.\<close>

lemma add_pages_contents:
  "add_pages T k d = (b, k', d') \<Longrightarrow>
     \<exists>ex. mem_list d' = mem_list d @ ex \<and> data_size d' = data_size d \<and>
       (\<forall>ns z. add_pages T k (d\<lparr>mem_list := ns, data_size := z\<rparr>) = (b, k', d'\<lparr>mem_list := ns @ ex, data_size := z\<rparr>))"
proof (induction k d rule: add_pages_rounds [where T = T])
  case (round k d)
  show ?case
  proof (cases rule: add_pages_cases [of d T k])
    case full
    then show ?thesis using round.prems by (simp add: add_pages.simps [of T])
  next
    case (page k1 f bs k2)
    have "add_pages T k2 (grown d f bs) = (b, k', d')" using round.prems page by (simp add: add_pages_round)
    from round.IH [OF page this] obtain ex where ex: "mem_list d' = mem_list (grown d f bs) @ ex"
      "data_size d' = data_size d"
      "\<And>ns z. add_pages T k2 ((grown d f bs)\<lparr>mem_list := ns, data_size := z\<rparr>) = (b, k', d'\<lparr>mem_list := ns @ ex, data_size := z\<rparr>)"
      by auto
    have comm: "grown (d\<lparr>mem_list := ns, data_size := z\<rparr>) f bs =
        (grown d f bs)\<lparr>mem_list := ns @ [\<lparr>pfn = f, frame = bs\<rparr>], data_size := z\<rparr>" for ns z
      by (cases d) (simp add: list_add_tail_def)
    have "add_pages T k (d\<lparr>mem_list := ns, data_size := z\<rparr>) =
        (b, k', d'\<lparr>mem_list := ns @ \<lparr>pfn = f, frame = bs\<rparr> # ex, data_size := z\<rparr>)" for ns z
      using add_pages_round [OF _ page(2,3), of "d\<lparr>mem_list := ns, data_size := z\<rparr>" T] page(1)
        ex(3) [where ns = "ns @ [\<lparr>pfn = f, frame = bs\<rparr>]" and z = z] unfolding comm by simp
    then show ?thesis using ex(1,2)
      by (intro exI [of _ "\<lparr>pfn = f, frame = bs\<rparr> # ex"]) (simp add: list_add_tail_def)
  qed (use round.prems in auto)
qed

subsection \<open>Copying\<close>

lemma pages_eqI:
  assumes "full_frames ns" "full_frames ms" "map pfn ns = map pfn ms" "flat ns = flat ms"
  shows "ns = ms"
  using assms
proof (induction ns arbitrary: ms)
  case Nil
  then show ?case by simp
next
  case (Cons n ns)
  obtain m ms' where m: "ms = m # ms'" using Cons.prems(3) by (cases ms) simp_all
  have len: "length (frame n) = length (frame m)" using Cons.prems(1,2) m by simp
  have "frame n @ flat ns = frame m @ flat ms'" using Cons.prems(4) m by simp
  then have eq: "frame n = frame m" "flat ns = flat ms'" using len by simp_all
  have "ns = ms'" using Cons.IH [of ms'] Cons.prems(1-3) eq(2) m by simp
  moreover have "n = m" using Cons.prems(3) eq(1) m by simp
  ultimately show ?case using m by simp
qed

text \<open>A copy that ends inside the pages does not care about pages behind them.\<close>

lemma write_pages_behind:
  assumes "no_fault ua" "full_frames (ns @ ex)" "0 \<le> pos" "0 \<le> count" "count < 2147483648"
    and "count \<le> int (length buf)" "length (ns @ ex) < 1048576" "pos + count \<le> 4096 * int (length ns)"
    and "pos < 4294967296"
  shows "\<exists>ns'. write_pages ua buf count (- 1) (s32 (cdiv pos PAGE_SIZE)) (u32 (crem pos PAGE_SIZE)) 0 ns = Some (count, ns') \<and>
    write_pages ua buf count (- 1) (s32 (cdiv pos PAGE_SIZE)) (u32 (crem pos PAGE_SIZE)) 0 (ns @ ex) =
      Some (count, ns' @ ex)"
proof -
  have full: "full_frames ns" "full_frames ex" using assms(2) by (auto simp: full_frames_def)
  have len: "length ns < 1048576" "pos + count \<le> 4096 * int (length (ns @ ex))" using assms(7,8) by simp_all
  obtain ns' where ns': "write_pages ua buf count (- 1) (s32 (cdiv pos PAGE_SIZE)) (u32 (crem pos PAGE_SIZE)) 0 ns =
      Some (count, ns')" "full_frames ns'" "map pfn ns' = map pfn ns"
      "flat ns' = blit (flat ns) (nat pos) (take (nat count) buf)"
    using write_pages_full [OF assms(1) full(1) assms(3-6) len(1) assms(8,9)] by blast
  obtain ms where ms: "write_pages ua buf count (- 1) (s32 (cdiv pos PAGE_SIZE)) (u32 (crem pos PAGE_SIZE)) 0 (ns @ ex) =
      Some (count, ms)" "full_frames ms" "map pfn ms = map pfn (ns @ ex)"
      "flat ms = blit (flat (ns @ ex)) (nat pos) (take (nat count) buf)"
    using write_pages_full [OF assms(1-7) len(2) assms(9)] by blast
  have "nat pos + length (take (nat count) buf) \<le> length (flat ns)"
    using length_flat_full [OF full(1)] assms by simp
  then have "flat ms = flat (ns' @ ex)" using ms(4) ns'(4) by (simp add: blit_append_left)
  moreover have "full_frames (ns' @ ex)" using ns'(2) full(2) by (auto simp: full_frames_def)
  ultimately have "ms = ns' @ ex" using pages_eqI [of ms "ns' @ ex"] ms(2,3) ns'(3) by simp
  then show ?thesis using ns'(1) ms(1) by blast
qed

subsection \<open>Writers that take turns\<close>

record write_args =
  w_access :: uaccess
  w_buf :: "byte list"
  w_count :: int
  w_pos :: int

text \<open>A writer has not begun, is between its two phases, or has the result and position of its call.\<close>

datatype writer = Waiting | Copying | Wrote int int

record writers =
  w_kmem :: kmem
  w_dev :: asgn_dev
  w_procs :: "writer list"

definition writer_turn :: "write_args list \<Rightarrow> writers \<Rightarrow> nat \<Rightarrow> writers option" where
  "writer_turn as s i =
     (if i < length (w_procs s) then
        (case w_procs s ! i of
           Waiting \<Rightarrow>
             (let (added, k, d) = write_alloc (w_kmem s) (w_dev s) (w_count (as ! i)) (w_pos (as ! i))
              in Some (s\<lparr>w_kmem := k, w_dev := d,
                         w_procs := (w_procs s)[i := if added then Copying else Wrote 0 (w_pos (as ! i))]\<rparr>))
         | Copying \<Rightarrow>
             map_option (\<lambda>(r, p, d). s\<lparr>w_dev := d, w_procs := (w_procs s)[i := Wrote r p]\<rparr>)
               (write_copy (w_access (as ! i)) (w_dev s) (w_buf (as ! i)) (w_count (as ! i)) (w_pos (as ! i)))
         | Wrote r p \<Rightarrow> Some s)
      else Some s)"

fun run_writers :: "write_args list \<Rightarrow> writers \<Rightarrow> nat list \<Rightarrow> writers option" where
  "run_writers as s [] = Some s"
| "run_writers as s (i # is) = (case writer_turn as s i of None \<Rightarrow> None | Some t \<Rightarrow> run_writers as t is)"

text \<open>Whole calls, one after the other, each of which writes all of its bytes.\<close>

fun serial_writes :: "write_args list \<Rightarrow> kmem \<times> asgn_dev \<Rightarrow> (kmem \<times> asgn_dev) option" where
  "serial_writes [] c = Some c"
| "serial_writes (a # as) (k, d) =
     (case asgn1_write (w_access a) k d (w_buf a) (w_count a) (w_pos a) of
        Some (r, p, k, d) \<Rightarrow> if r = w_count a \<and> p = w_pos a + w_count a then serial_writes as (k, d) else None
      | None \<Rightarrow> None)"

lemma serial_writes_snoc:
  "serial_writes (as @ [a]) c = (case serial_writes as c of None \<Rightarrow> None | Some c \<Rightarrow> serial_writes [a] c)"
  by (induction as c rule: serial_writes.induct) (auto split: option.splits)

text \<open>The requests: user memory without faults, and an end at or below the last page count of 32 bits.\<close>

definition args_ok :: "int \<Rightarrow> write_args \<Rightarrow> bool" where
  "args_ok M a \<longleftrightarrow> no_fault (w_access a) \<and> 0 \<le> w_pos a \<and> 0 \<le> w_count a \<and> w_count a < 2147483648 \<and>
     w_count a \<le> int (length (w_buf a)) \<and> w_pos a + w_count a \<le> M \<and> M \<le> 4294963200"

text \<open>
  The state of the schedule against the serial one: the calls that are over, in the order in which
  they copied, have been made one after the other, and beyond that there may be pages that were
  added for calls that have not copied yet.
\<close>

definition reached :: "write_args \<Rightarrow> int" where
  "reached a = w_pos a + w_count a"

definition serial_inv :: "int \<Rightarrow> write_args list \<Rightarrow> kmem \<Rightarrow> asgn_dev \<Rightarrow> nat list \<Rightarrow> int \<Rightarrow> kmem \<Rightarrow> asgn_dev \<Rightarrow>
    writers \<Rightarrow> bool" where
  "serial_inv M as k d order T ks ds s \<longleftrightarrow>
     serial_writes (map ((!) as) order) (k, d) = Some (ks, ds) \<and> machine_ok ks ds \<and>
     add_pages T ks ds = (True, w_kmem s, w_dev s) \<and> machine_ok (w_kmem s) (w_dev s) \<and>
     (\<exists>n. mem_available n ks \<and> M \<le> (num_pages ds + int n) * 4096) \<and>
     distinct order \<and> length (w_procs s) = length as \<and> T \<le> M \<and>
     (T \<le> num_pages ds * 4096 \<or> (\<exists>i < length as. w_procs s ! i = Copying \<and> T = reached (as ! i))) \<and>
     (\<forall>i \<in> set order. i < length as \<and> reached (as ! i) \<le> num_pages ds * 4096) \<and>
     (\<forall>i < length as. if i \<in> set order then w_procs s ! i = Wrote (w_count (as ! i)) (reached (as ! i))
        else w_procs s ! i = Waiting \<or> w_procs s ! i = Copying \<and> reached (as ! i) \<le> T)"

lemma write_copy_ok:
  assumes "args_ok M a" "dev_inv d" "reached a \<le> num_pages d * 4096"
    and "mem_list d = ns @ ex" "reached a \<le> 4096 * int (length ns)"
  shows "\<exists>ns'. write_copy (w_access a) d (w_buf a) (w_count a) (w_pos a) =
      Some (w_count a, reached a, d\<lparr>mem_list := ns' @ ex, data_size := max (data_size d) (reached a)\<rparr>) \<and>
    (\<forall>d'. mem_list d' = ns \<longrightarrow> write_copy (w_access a) d' (w_buf a) (w_count a) (w_pos a) =
      Some (w_count a, reached a, d'\<lparr>mem_list := ns', data_size := max (data_size d') (reached a)\<rparr>))"
proof -
  have a: "no_fault (w_access a)" "0 \<le> w_pos a" "0 \<le> w_count a" "w_count a < 2147483648"
    "w_count a \<le> int (length (w_buf a))" "w_pos a + w_count a \<le> 4294963200"
    using assms(1) by (auto simp: args_ok_def)
  note b = dev_inv_bounds [OF assms(2)]
  have pos: "w_pos a < 4294967296" using a by simp
  have room: "w_pos a + w_count a \<le> 4096 * int (length ns)" using assms(5) by (simp add: reached_def)
  obtain ns' where ns': "write_pages (w_access a) (w_buf a) (w_count a) (- 1) (s32 (cdiv (w_pos a) PAGE_SIZE))
        (u32 (crem (w_pos a) PAGE_SIZE)) 0 ns = Some (w_count a, ns')"
      "write_pages (w_access a) (w_buf a) (w_count a) (- 1) (s32 (cdiv (w_pos a) PAGE_SIZE))
        (u32 (crem (w_pos a) PAGE_SIZE)) 0 (ns @ ex) = Some (w_count a, ns' @ ex)"
    using write_pages_behind [OF a(1) b(1) [unfolded assms(4)] a(2-5) b(2) [unfolded assms(4)] room pos] by blast
  have v: "s32 (w_count a) = w_count a" "s64 (w_pos a + w_count a) = reached a"
    "u32 (u32 (w_pos a) + w_count a) = reached a"
    using a pos by (simp_all add: reached_def)
  show ?thesis
    using ns' v assms(4) by (intro exI [of _ ns']) (simp add: write_copy_def Let_def)
qed

lemma serial_alloc:
  assumes "serial_inv M as k d order T ks ds s" "i < length as" "args_ok M (as ! i)" "w_procs s ! i = Waiting"
  shows "\<exists>T' t. writer_turn as s i = Some t \<and> serial_inv M as k d order T' ks ds t"
proof -
  let ?t = "reached (as ! i)"
  have inv: "machine_ok ks ds" "add_pages T ks ds = (True, w_kmem s, w_dev s)" "T \<le> M"
    and i: "i \<notin> set order" and len: "length (w_procs s) = length as"
    using assms(1,2,4) by (fastforce simp: serial_inv_def split: if_splits)+
  obtain n where n: "mem_available n ks" "M \<le> (num_pages ds + int n) * 4096"
    using assms(1) by (auto simp: serial_inv_def)
  have t: "?t \<le> M" "s64 (w_pos (as ! i) + w_count (as ! i)) = ?t"
    using assms(3) by (auto simp: args_ok_def reached_def)
  obtain ok k1 d1 where r: "add_pages (max T ?t) ks ds = (ok, k1, d1)" by (metis prod_cases3)
  have ok using add_pages_enough [OF inv(1) n(1), of "max T ?t"] n(2) inv(3) t(1) r by simp
  have alloc: "write_alloc (w_kmem s) (w_dev s) (w_count (as ! i)) (w_pos (as ! i)) = (True, k1, d1)"
    using add_pages_twice [OF inv(2), of ?t] r \<open>ok\<close> t(2) by (simp add: write_alloc_def)
  let ?s = "s\<lparr>w_kmem := k1, w_dev := d1, w_procs := (w_procs s)[i := Copying]\<rparr>"
  have "machine_ok k1 d1" using add_pages_frame(1) [OF inv(1) r] .
  moreover have "max T ?t \<le> num_pages ds * 4096 \<or>
      (\<exists>j < length as. (w_procs s)[i := Copying] ! j = Copying \<and> max T ?t = reached (as ! j))"
  proof (cases "T \<le> ?t")
    case True
    then show ?thesis using assms(2) len by (intro disjI2 exI [of _ i]) (simp add: max_def)
  next
    case False
    then have "T \<le> num_pages ds * 4096 \<or> (\<exists>j < length as. w_procs s ! j = Copying \<and> max T ?t = reached (as ! j))"
      using assms(1) by (auto simp: serial_inv_def max_def)
    then show ?thesis using False assms(2) len by (fastforce simp: nth_list_update max_def)
  qed
  ultimately have "serial_inv M as k d order (max T ?t) ks ds ?s"
    using assms(1,2) r \<open>ok\<close> i t(1) n unfolding serial_inv_def
    by (auto simp: nth_list_update le_max_iff_disj)
  moreover have "writer_turn as s i = Some ?s"
    using alloc assms(2,4) len by (simp add: writer_turn_def)
  ultimately show ?thesis by blast
qed

text \<open>A whole call from the serial state, and the pages that are pending on top of it.\<close>

lemma serial_step:
  assumes "machine_ok ks ds" "add_pages T ks ds = (True, k, d)" "machine_ok k d" "args_ok M a" "reached a \<le> T" "T \<le> M"
    and "mem_available n ks" "M \<le> (num_pages ds + int n) * 4096"
  shows "\<exists>k1 d1 d2. serial_writes [a] (ks, ds) = Some (k1, d1) \<and> machine_ok k1 d1 \<and>
    num_pages ds \<le> num_pages d1 \<and> reached a \<le> num_pages d1 * 4096 \<and>
    (\<exists>m. mem_available m k1 \<and> M \<le> (num_pages d1 + int m) * 4096) \<and>
    write_copy (w_access a) d (w_buf a) (w_count a) (w_pos a) = Some (w_count a, reached a, d2) \<and>
    add_pages T k1 d1 = (True, k, d2)"
proof -
  have a: "0 \<le> w_pos a" "w_pos a < 9223372034707292160" "0 \<le> w_count a" "w_count a < 2147483648"
    "s64 (w_pos a + w_count a) = reached a"
    using assms(4) by (auto simp: args_ok_def reached_def)
  obtain ok k1 d0 where r: "add_pages (reached a) ks ds = (ok, k1, d0)" by (metis prod_cases3)
  have enough: ok "num_pages ds \<le> num_pages d0"
    using add_pages_enough [OF assms(1,7), of "reached a"] assms(5,6,8) r by simp_all
  then have r: "add_pages (reached a) ks ds = (True, k1, d0)" using r by simp
  note f = add_pages_frame [OF assms(1) r]
  have "add_pages T k1 d0 = (True, k, d)"
    using add_pages_twice [OF r, of T] assms(2,5) by (simp add: max_def)
  from add_pages_contents [OF this] obtain ex where ex: "mem_list d = mem_list d0 @ ex" "data_size d = data_size d0"
    "\<And>ns z. add_pages T k1 (d0\<lparr>mem_list := ns, data_size := z\<rparr>) = (True, k, d\<lparr>mem_list := ns @ ex, data_size := z\<rparr>)"
    by blast
  have d: "dev_inv d" "reached a \<le> num_pages d * 4096" "reached a \<le> 4096 * int (length (mem_list d0))"
    using add_pages_frame(4) [OF assms(1,2)] assms(3,5) f(1,4) by (auto simp: machine_ok_def dev_inv_def)
  obtain ns where ns: "write_copy (w_access a) d (w_buf a) (w_count a) (w_pos a) =
      Some (w_count a, reached a, d\<lparr>mem_list := ns @ ex, data_size := max (data_size d) (reached a)\<rparr>)"
    "write_copy (w_access a) d0 (w_buf a) (w_count a) (w_pos a) =
      Some (w_count a, reached a, d0\<lparr>mem_list := ns, data_size := max (data_size d0) (reached a)\<rparr>)"
    using write_copy_ok [OF assms(4) d(1,2) ex(1) d(3)] by blast
  let ?d1 = "d0\<lparr>mem_list := ns, data_size := max (data_size d0) (reached a)\<rparr>"
  have w: "asgn1_write (w_access a) ks ds (w_buf a) (w_count a) (w_pos a) = Some (w_count a, reached a, k1, ?d1)"
    using r ns(2) a(5) by (simp add: asgn1_write_phases write_alloc_def)
  then have "machine_ok k1 ?d1" using asgn1_write_safe [OF assms(1) a(1-4), of "w_access a" "w_buf a"] by auto
  moreover have "serial_writes [a] (ks, ds) = Some (k1, ?d1)" using w by (simp add: reached_def)
  moreover have "mem_available (nat (num_pages ds + int n - num_pages d0)) k1"
    using add_pages_remaining [OF assms(1,7), of "reached a"] assms(5,6,8) r by simp
  moreover have "M \<le> (num_pages ?d1 + int (nat (num_pages ds + int n - num_pages d0))) * 4096"
    using assms(8) by simp
  ultimately show ?thesis
    using ns(1) ex(3) [where ns = ns and z = "max (data_size d0) (reached a)"] ex(2) enough(2) f(4)
    by (intro exI [of _ k1] exI [of _ ?d1] exI [of _ "d\<lparr>mem_list := ns @ ex, data_size := max (data_size d) (reached a)\<rparr>"])
      auto
qed

lemma serial_copy:
  assumes "serial_inv M as k d order T ks ds s" "i < length as" "args_ok M (as ! i)" "w_procs s ! i = Copying"
  shows "\<exists>ks' ds' t. writer_turn as s i = Some t \<and> serial_inv M as k d (order @ [i]) T ks' ds' t"
proof -
  let ?a = "as ! i"
  have inv: "machine_ok ks ds" "add_pages T ks ds = (True, w_kmem s, w_dev s)" "machine_ok (w_kmem s) (w_dev s)" "T \<le> M"
    and i: "i \<notin> set order" "reached ?a \<le> T" and len: "length (w_procs s) = length as"
    using assms(1,2,4) by (fastforce simp: serial_inv_def split: if_splits)+
  obtain n where n: "mem_available n ks" "M \<le> (num_pages ds + int n) * 4096"
    using assms(1) by (auto simp: serial_inv_def)
  obtain k1 d1 d2 m where st: "serial_writes [?a] (ks, ds) = Some (k1, d1)" "machine_ok k1 d1"
    "num_pages ds \<le> num_pages d1" "reached ?a \<le> num_pages d1 * 4096"
    "mem_available m k1" "M \<le> (num_pages d1 + int m) * 4096"
    "write_copy (w_access ?a) (w_dev s) (w_buf ?a) (w_count ?a) (w_pos ?a) = Some (w_count ?a, reached ?a, d2)"
    "add_pages T k1 d1 = (True, w_kmem s, d2)"
    using serial_step [OF inv(1-3) assms(3) i(2) inv(4) n] by blast
  let ?s = "s\<lparr>w_dev := d2, w_procs := (w_procs s)[i := Wrote (w_count ?a) (reached ?a)]\<rparr>"
  have grows: "x \<le> num_pages ds * 4096 \<Longrightarrow> x \<le> num_pages d1 * 4096" for x using st(3) by linarith
  have "machine_ok (w_kmem s) d2" using add_pages_frame(1) [OF st(2,8)] .
  moreover have "serial_writes (map ((!) as) (order @ [i])) (k, d) = Some (k1, d1)"
    using assms(1) st(1) by (simp add: serial_inv_def serial_writes_snoc del: serial_writes.simps)
  moreover have "T \<le> num_pages d1 * 4096 \<or>
      (\<exists>j < length as. w_procs ?s ! j = Copying \<and> T = reached (as ! j))"
  proof -
    consider "T \<le> num_pages ds * 4096" | j where "j < length as" "w_procs s ! j = Copying" "T = reached (as ! j)"
      using assms(1) by (auto simp: serial_inv_def)
    then show ?thesis
    proof cases
      case 1
      then show ?thesis using grows by blast
    next
      case (2 j)
      then show ?thesis using st(4) len by (cases "j = i") (auto simp: nth_list_update)
    qed
  qed
  ultimately have "serial_inv M as k d (order @ [i]) T k1 d1 ?s"
    using assms(1,2) st(2,4,5,6,8) i grows len unfolding serial_inv_def
    by (auto simp: nth_list_update)
  moreover have "writer_turn as s i = Some ?s"
    using st(7) assms(2,4) len by (simp add: writer_turn_def)
  ultimately show ?thesis by blast
qed

lemma serial_turn:
  assumes "serial_inv M as k d order T ks ds s" "\<forall>a \<in> set as. args_ok M a"
  shows "\<exists>order' T' ks' ds' t. writer_turn as s i = Some t \<and> serial_inv M as k d order' T' ks' ds' t"
proof (cases "i < length as")
  case False
  then have "writer_turn as s i = Some s" using assms(1) by (simp add: writer_turn_def serial_inv_def)
  then show ?thesis using assms(1) by blast
next
  case True
  then have a: "args_ok M (as ! i)" using assms(2) by simp
  show ?thesis
  proof (cases "w_procs s ! i")
    case Waiting
    then show ?thesis using serial_alloc [OF assms(1) True a] by blast
  next
    case Copying
    then show ?thesis using serial_copy [OF assms(1) True a] by blast
  next
    case (Wrote r p)
    then have "writer_turn as s i = Some s" by (simp add: writer_turn_def)
    then show ?thesis using assms(1) by blast
  qed
qed

lemma serial_run:
  assumes "serial_inv M as k d order T ks ds s" "\<forall>a \<in> set as. args_ok M a"
  shows "\<exists>order' T' ks' ds' t. run_writers as s sched = Some t \<and> serial_inv M as k d order' T' ks' ds' t"
  using assms(1)
proof (induction sched arbitrary: order T ks ds s)
  case Nil
  then show ?case by auto
next
  case (Cons i sched)
  from serial_turn [OF Cons.prems assms(2), of i] obtain order1 T1 ks1 ds1 s1 where
    s1: "writer_turn as s i = Some s1" "serial_inv M as k d order1 T1 ks1 ds1 s1" by blast
  show ?case using Cons.IH [OF s1(2)] s1(1) by simp
qed

lemma serial_start:
  assumes "machine_ok k d" "mem_available n k" "M \<le> (num_pages d + int n) * 4096" "0 \<le> M"
  shows "serial_inv M as k d [] 0 k d \<lparr>w_kmem = k, w_dev = d, w_procs = replicate (length as) Waiting\<rparr>"
proof -
  have "0 \<le> num_pages d" using assms(1) by (simp add: machine_ok_def dev_inv_def)
  then show ?thesis using assms by (auto simp: serial_inv_def add_pages_step)
qed



subsection \<open>A write-only open in the gap\<close>



end
