(* ===== verification/Asgn1_Array.thy ===== *)
theory Asgn1_Array
  imports Asgn1_Properties
begin

section \<open>The driver of assignment 1 is an array of bytes with files over it\<close>

text \<open>
  The specification of the driver as its users see it: one array of bytes that all open files
  share, a position per file, a limit of users. The theory shows that the driver gives the
  specified answer, and the specified bytes, to every call of any run that stays within what the
  specification allows: the user's memory is there, a write begins inside the data or at its end,
  lies below the last page of the 32-bit sizes, and the machine has the pages for it.
\<close>

subsection \<open>The specification\<close>

record byte_array =
  stored_bytes :: "byte list"
  room :: int
  users :: int
  limit :: int
  offsets :: "nat \<Rightarrow> int option"
  spare :: nat

text \<open>\<open>room\<close> counts the pages of the device, \<open>spare\<close> those that the machine can still give.\<close>

definition array_at :: "byte_array \<Rightarrow> nat \<Rightarrow> int" where
  "array_at a fd = (case offsets a fd of None \<Rightarrow> 0 | Some p \<Rightarrow> p)"

definition array_move :: "nat \<Rightarrow> int \<Rightarrow> byte_array \<Rightarrow> byte_array" where
  "array_move fd p a = a\<lparr>offsets := (offsets a)(fd := map_option (\<lambda>_. p) (offsets a fd))\<rparr>"

definition array_open :: "32 word \<Rightarrow> nat \<Rightarrow> byte_array \<Rightarrow> int \<times> byte_array" where
  "array_open flags fd a =
     (if limit a \<le> users a then (- EBUSY, a)
      else (let a = a\<lparr>users := users a + 1, offsets := (offsets a)(fd \<mapsto> 0)\<rparr>
            in (0, if flags AND O_ACCMODE = O_WRONLY then a\<lparr>stored_bytes := [], room := 0\<rparr> else a)))"

definition array_read :: "byte_array \<Rightarrow> int \<Rightarrow> int \<Rightarrow> byte list" where
  "array_read a pos count = take (nat count) (drop (nat pos) (stored_bytes a))"

definition array_write :: "int \<Rightarrow> byte list \<Rightarrow> byte_array \<Rightarrow> byte_array" where
  "array_write pos bs a =
     (let pages = max (room a) (pages_for (pos + int (length bs)))
      in a\<lparr>stored_bytes := blit (stored_bytes a) (nat pos) bs, room := pages, spare := nat (room a + int (spare a) - pages)\<rparr>)"

definition array_seek :: "byte_array \<Rightarrow> int \<Rightarrow> int \<Rightarrow> int \<Rightarrow> int \<times> int" where
  "array_seek a pos off whence =
     (let to = (\<lambda>base. let p = max 0 (min (base + off) (room a * 4096)) in (p, p))
      in if whence = SEEK_SET then to 0
         else if whence = SEEK_CUR then to pos
         else if whence = SEEK_END then to (room a * 4096)
         else (- EINVAL, pos))"

definition array_ioctl :: "32 word \<Rightarrow> bool \<Rightarrow> int option \<Rightarrow> byte_array \<Rightarrow> int \<times> byte_array" where
  "array_ioctl cmd arg_ok arg a =
     (if IOC_TYPE cmd \<noteq> 107 then (- EINVAL, a)
      else if IOC_NR cmd \<noteq> 1 then (- ENOTTY, a)
      else if \<not> arg_ok then (- EFAULT, a)
      else (case arg of
              None \<Rightarrow> (0, a\<lparr>limit := 0\<rparr>)
            | Some n \<Rightarrow> if n < 0 then (- EINVAL, a) else (0, a\<lparr>limit := n\<rparr>)))"

text \<open>The answer to a call: the result, and the bytes that reach the user.\<close>

fun array_call :: "call \<Rightarrow> byte_array \<Rightarrow> (int \<times> byte list) \<times> byte_array" where
  "array_call (Open fd flags) a = (let (r, a) = array_open flags fd a in ((r, []), a))"
| "array_call (Close fd) a = ((0, []), a\<lparr>users := users a - 1, offsets := (offsets a)(fd := None)\<rparr>)"
| "array_call (Read fd ua count) a =
     (let p = array_at a fd; out = array_read a p count; n = int (length out)
      in ((n, out), array_move fd (p + n) a))"
| "array_call (Write fd ua buf count) a =
     (let p = array_at a fd
      in ((count, []), array_move fd (p + count) (array_write p (take (nat count) buf) a)))"
| "array_call (Pread fd ua count pos) a =
     (let out = array_read a pos count in ((int (length out), out), a))"
| "array_call (Pwrite fd ua buf count pos) a = ((count, []), array_write pos (take (nat count) buf) a)"
| "array_call (Lseek fd off whence) a =
     (let (r, p) = array_seek a (array_at a fd) off whence in ((r, []), array_move fd p a))"
| "array_call (Ioctl fd cmd arg_ok arg) a = (let (r, a) = array_ioctl cmd arg_ok arg a in ((r, []), a))"
| "array_call (Mmap fd vma) a =
     ((if u32 (vm_end vma - vm_start vma) > room a * 4096 \<or> u32 (vm_pgoff vma * 4096) > room a then - EINVAL else 0,
       []), a)"

definition array_takes :: "byte_array \<Rightarrow> uaccess \<Rightarrow> byte list \<Rightarrow> int \<Rightarrow> int \<Rightarrow> bool" where
  "array_takes a ua buf count pos \<longleftrightarrow>
     no_fault ua \<and> pos \<le> int (length (stored_bytes a)) \<and> count \<le> int (length buf) \<and> pos + count \<le> 4294963200 \<and>
     pages_for (pos + count) \<le> room a + int (spare a)"

fun array_allows :: "byte_array \<Rightarrow> call \<Rightarrow> bool" where
  "array_allows a (Open fd flags) = (offsets a fd = None)"
| "array_allows a (Close fd) = (offsets a fd \<noteq> None)"
| "array_allows a (Read fd ua count) = (offsets a fd \<noteq> None \<and> rw_args count (array_at a fd) \<and> no_fault ua)"
| "array_allows a (Write fd ua buf count) =
     (offsets a fd \<noteq> None \<and> rw_args count (array_at a fd) \<and> array_takes a ua buf count (array_at a fd))"
| "array_allows a (Pread fd ua count pos) = (offsets a fd \<noteq> None \<and> rw_args count pos \<and> no_fault ua)"
| "array_allows a (Pwrite fd ua buf count pos) =
     (offsets a fd \<noteq> None \<and> rw_args count pos \<and> array_takes a ua buf count pos)"
| "array_allows a (Lseek fd off whence) = (offsets a fd \<noteq> None \<and> \<bar>off\<bar> < 2 ^ 62)"
| "array_allows a (Ioctl fd cmd arg_ok arg) =
     (offsets a fd \<noteq> None \<and> (case arg of None \<Rightarrow> True | Some n \<Rightarrow> n < 2147483648))"
| "array_allows a (Mmap fd vma) = (offsets a fd \<noteq> None)"

definition array_loaded :: "nat \<Rightarrow> byte_array" where
  "array_loaded n = \<lparr>stored_bytes = [], room = 0, users = 0, limit = 1, offsets = (\<lambda>_. None), spare = n\<rparr>"

subsection \<open>The driver's answers\<close>

definition read_out :: "(int \<times> byte list \<times> int) option \<Rightarrow> byte list" where
  "read_out r = (case r of None \<Rightarrow> [] | Some (n, out, pos) \<Rightarrow> out)"

fun delivered :: "asgn1_sys \<Rightarrow> call \<Rightarrow> byte list" where
  "delivered s (Read fd ua count) = read_out (asgn1_read ua (dev_of s) count (pos_of s fd))"
| "delivered s (Pread fd ua count pos) = read_out (asgn1_read ua (dev_of s) count pos)"
| "delivered s c = []"

definition asgn1_answer :: "call \<Rightarrow> asgn1_sys \<Rightarrow> ((int \<times> byte list) \<times> asgn1_sys) option" where
  "asgn1_answer c s = map_option (\<lambda>(r, t). ((r, delivered s c), t)) (asgn1_call s c)"

definition file_offsets :: "asgn1_sys \<Rightarrow> nat \<Rightarrow> int option" where
  "file_offsets s = (\<lambda>fd. map_option f_pos (files s fd))"

definition array_of :: "kmem \<Rightarrow> asgn1_sys \<Rightarrow> byte_array \<Rightarrow> bool" where
  "array_of k s a \<longleftrightarrow>
     sys_inv k s \<and> stored_bytes a = contents (dev_of s) \<and> room a = num_pages (dev_of s) \<and>
     users a = nprocs (dev_of s) \<and> limit a = max_nprocs (dev_of s) \<and> offsets a = file_offsets s \<and>
     mem_available (spare a) (kmem_of s)"

lemma file_offsets_set [simp]:
  "file_offsets (set_pos fd p s) = (file_offsets s)(fd := map_option (\<lambda>_. p) (file_offsets s fd))"
  "file_offsets (s\<lparr>dev_of := d\<rparr>) = file_offsets s" "file_offsets (s\<lparr>kmem_of := k\<rparr>) = file_offsets s"
  by (auto simp: file_offsets_def set_pos_def fun_eq_iff option.map_comp comp_def)

lemma array_of_pos: "array_of k s a \<Longrightarrow> pos_of s fd = array_at a fd"
  by (simp add: array_of_def array_at_def pos_of_def file_offsets_def split: option.split)

lemma array_of_passes:
  assumes "array_of k s a" "array_allows a c"
  shows "vfs_passes s c"
proof -
  have off: "offsets a = file_offsets s" using assms(1) by (simp add: array_of_def)
  then have "f_pos f = array_at a fd" if "files s fd = Some f" for fd f
    using that by (simp add: array_at_def file_offsets_def)
  then show ?thesis using assms(2) off by (cases c) (auto simp: file_offsets_def)
qed

text \<open>The invariant after a call that the kernel passes on, for the simulation.\<close>

lemma array_of_call:
  assumes "array_of k s a" "array_allows a c" "asgn1_call s c = Some (r, t)"
  shows "sys_inv k t"
  using sys_inv_call [OF _ array_of_passes [OF assms(1,2)]] assms(1,3) by (fastforce simp: array_of_def)

lemma array_sim_read:
  assumes "array_of k s a" "rw_args count pos" "no_fault ua"
  shows "asgn1_read ua (dev_of s) count pos =
    Some (int (length (array_read a pos count)), array_read a pos count, pos + int (length (array_read a pos count)))"
proof -
  have ok: "machine_ok (kmem_of s) (dev_of s)" and h: "stored_bytes a = contents (dev_of s)"
    using assms(1) by (simp_all add: array_of_def sys_inv_def)
  have p: "0 \<le> pos" "0 \<le> count" "count < 2147483648" using assms(2) by (simp_all add: rw_args_def)
  show ?thesis
  proof (cases "pos \<le> data_size (dev_of s)")
    case True
    from asgn1_refines_array [OF ok assms(3) p(1) True p(2,3)] show ?thesis
      by (simp add: array_read_def h Let_def)
  next
    case False
    then have "length (stored_bytes a) \<le> nat pos" using contents_length [OF machine_okD [OF ok]] h by simp
    then show ?thesis using False by (simp add: array_read_def asgn1_read_past_end)
  qed
qed
lemma array_sim_write:
  assumes "array_of k s a" "rw_args count pos" "array_takes a ua buf count pos"
  shows "\<exists>k' d'. asgn1_write ua (kmem_of s) (dev_of s) buf count pos = Some (count, pos + count, k', d') \<and>
    array_of k (s\<lparr>kmem_of := k', dev_of := d'\<rparr>) (array_write pos (take (nat count) buf) a)"
proof -
  let ?d = "dev_of s" and ?n = "spare a"
  have inv: "sys_inv k s" and ok: "machine_ok (kmem_of s) ?d" and m: "mem_available ?n (kmem_of s)"
    and a: "stored_bytes a = contents ?d" "room a = num_pages ?d"
    using assms(1) by (simp_all add: array_of_def sys_inv_def)
  have p: "0 \<le> pos" "0 \<le> count" "count < 2147483648" using assms(2) by (simp_all add: rw_args_def)
  have t: "no_fault ua" "pos \<le> data_size ?d" "count \<le> int (length buf)" "pos + count \<le> 4294963200"
    "pages_for (pos + count) \<le> num_pages ?d + int ?n"
    using assms(3) a contents_length [OF machine_okD [OF ok]] by (simp_all add: array_takes_def)
  have "mem_available (nat (pages_for (pos + count) - num_pages ?d)) (kmem_of s)"
    using m t(5) by (elim mem_available_mono) simp
  then have w: "writable (kmem_of s) ?d pos count" using p t by (simp add: writable_def)
  from asgn1_write_contents [OF ok t(1) p(1) t(2) w t(3)] obtain k' d' where
    r: "asgn1_write ua (kmem_of s) ?d buf count pos = Some (count, pos + count, k', d')"
    "num_pages d' = max (num_pages ?d) (pages_for (pos + count))"
    "contents d' = blit (contents ?d) (nat pos) (take (nat count) buf)" by blast
  from asgn1_write_ok [OF ok t(1) w t(3)] r(1) have
    c: "nprocs d' = nprocs ?d" "max_nprocs d' = max_nprocs ?d"
    "mem_available (nat (num_pages ?d + int ?n - num_pages d')) k'"
    using m t(5) by auto
  have "sys_inv k (s\<lparr>kmem_of := k', dev_of := d'\<rparr>)"
    using sys_inv_write [OF inv assms(2), of ua buf] r(1) by auto
  moreover have "int (length (take (nat count) buf)) = count" using p t(3) by simp
  ultimately show ?thesis using assms(1) r c a by (auto simp: array_of_def array_write_def Let_def)
qed

lemma array_of_set_pos:
  "array_of k s a \<Longrightarrow> 0 \<le> p \<Longrightarrow> p < 4294967296 \<Longrightarrow> array_of k (set_pos fd p s) (array_move fd p a)"
  by (simp add: array_of_def array_move_def sys_inv_set_pos)

lemma array_sim_open:
  assumes "array_of k s a" "asgn1_open (kmem_of s) (dev_of s) flags = (r, k', d')" "sys_inv k t"
    and "t = s\<lparr>kmem_of := k', dev_of := d',
      files := (if r = 0 then (files s)(fd \<mapsto> \<lparr>f_pos = 0, f_flags = flags\<rparr>) else files s)\<rparr>"
  shows "r = fst (array_open flags fd a) \<and> array_of k t (snd (array_open flags fd a))"
proof -
  have s: "s32 (nprocs (dev_of s) + 1) = nprocs (dev_of s) + 1" if "nprocs (dev_of s) < max_nprocs (dev_of s)"
    using that assms(1) by (simp add: array_of_def sys_inv_def)
  show ?thesis
    using assms s
    by (auto simp: array_of_def array_open_def asgn1_open_cases free_memory_pages_eq file_offsets_def contents_def
        mem_available_def fun_eq_iff split: if_splits)
qed

lemma array_sim_seek:
  assumes "array_of k s a" "asgn1_lseek (dev_of s) (pos_of s fd) off whence = (r, p)" "\<bar>off\<bar> < 2 ^ 62"
  shows "array_seek a (array_at a fd) off whence = (r, p)"
proof -
  have inv: "sys_inv k s" using assms(1) by (simp add: array_of_def)
  have n: "num_pages (dev_of s) = room a" "pos_of s fd = array_at a fd"
    using assms(1) array_of_pos by (simp_all add: array_of_def)
  have pos: "0 \<le> array_at a fd" "array_at a fd < 4294967296" using sys_inv_pos [OF inv, of fd] n by simp_all
  have room: "0 \<le> room a" "room a < 1048576"
    using inv n dev_invD(2,6) [of "dev_of s"] by (auto simp: sys_inv_def machine_ok_def)
  then have u: "u32 (room a * 4096) = room a * 4096" by simp
  have "s64 (array_at a fd + off) = array_at a fd + off" "s64 (room a * 4096 + off) = room a * 4096 + off"
    using pos room assms(3) by simp_all
  then show ?thesis using assms(2) room u n by (auto simp: asgn1_lseek_def array_seek_def Let_def split: if_splits)
qed

text \<open>Every call that is allowed is answered as specified: first the calls that write or open.\<close>

definition answered :: "kmem \<Rightarrow> asgn1_sys \<Rightarrow> byte_array \<Rightarrow> call \<Rightarrow> bool" where
  "answered k s a c \<longleftrightarrow>
     (\<exists>t. asgn1_answer c s = Some (fst (array_call c a), t) \<and> array_of k t (snd (array_call c a)))"

lemma open_answered:
  assumes "array_of k s a" "array_allows a (Open fd flags)"
  shows "answered k s a (Open fd flags)"
proof -
  obtain q k' d' where o: "asgn1_open (kmem_of s) (dev_of s) flags = (q, k', d')" by (metis prod_cases3)
  let ?t = "s\<lparr>kmem_of := k', dev_of := d',
    files := (if q = 0 then (files s)(fd \<mapsto> \<lparr>f_pos = 0, f_flags = flags\<rparr>) else files s)\<rparr>"
  have t: "asgn1_call s (Open fd flags) = Some (q, ?t)" using o by simp
  note o' = array_sim_open [OF assms(1) o array_of_call [OF assms t] refl]
  then have "asgn1_call s (Open fd flags) = Some (fst (array_open flags fd a), ?t)" using t by (simp only:)
  then show ?thesis using conjunct2 [OF o']
    by (simp add: answered_def asgn1_answer_def case_prod_beta Let_def del: asgn1_call.simps)
qed

lemma write_answered:
  assumes "array_of k s a" "array_allows a (Write fd ua buf count)"
  shows "answered k s a (Write fd ua buf count)"
proof -
  let ?p = "array_at a fd"
  have w: "rw_args count ?p" "array_takes a ua buf count ?p" using assms(2) by simp_all
  from array_sim_write [OF assms(1) w] obtain k' d' where
    w': "asgn1_write ua (kmem_of s) (dev_of s) buf count ?p = Some (count, ?p + count, k', d')"
    "array_of k (s\<lparr>kmem_of := k', dev_of := d'\<rparr>) (array_write ?p (take (nat count) buf) a)" by blast
  have "0 \<le> ?p + count" "?p + count < 4294967296" using w by (simp_all add: rw_args_def array_takes_def)
  from array_of_set_pos [OF w'(2) this] show ?thesis using w'(1) array_of_pos [OF assms(1)]
    by (simp add: answered_def asgn1_answer_def Let_def)
qed

lemma read_answered:
  assumes "array_of k s a" "array_allows a (Read fd ua count)"
  shows "answered k s a (Read fd ua count)"
proof -
  have inv: "sys_inv k s" using assms(1) by (simp add: array_of_def)
  have r: "rw_args count (array_at a fd)" "no_fault ua" using assms(2) by simp_all
  show ?thesis
    using array_sim_read [OF assms(1) r] array_of_set_pos [OF assms(1)] sys_inv_read [OF inv r(1), of ua]
      sys_inv_pos [OF inv, of fd] array_of_pos [OF assms(1)]
    by (auto simp: answered_def asgn1_answer_def read_out_def Let_def)
qed

lemma seek_answered:
  assumes "array_of k s a" "array_allows a (Lseek fd off whence)"
  shows "answered k s a (Lseek fd off whence)"
proof -
  obtain r p where l: "asgn1_lseek (dev_of s) (pos_of s fd) off whence = (r, p)" by fastforce
  have "array_seek a (array_at a fd) off whence = (r, p)" using array_sim_seek [OF assms(1) l] assms(2) by simp
  moreover have "sys_inv k (set_pos fd p s)" using array_of_call [OF assms] l by simp
  then have "array_of k (set_pos fd p s) (array_move fd p a)"
    using assms(1) by (simp add: array_of_def array_move_def)
  ultimately show ?thesis using l by (simp add: answered_def asgn1_answer_def)
qed

lemma array_sim:
  assumes "array_of k s a" "array_allows a c"
  shows "\<exists>t. asgn1_answer c s = Some (fst (array_call c a), t) \<and> array_of k t (snd (array_call c a))"
  unfolding answered_def [symmetric]
proof (cases c)
  case (Close fd)
  then show "answered k s a c" using assms array_of_call [OF assms]
    by (auto simp: answered_def asgn1_answer_def asgn1_release_def array_of_def contents_def file_offsets_def sys_inv_def)
next
  case (Pread fd ua count p)
  then have "rw_args count p" "no_fault ua" using assms(2) by simp_all
  from array_sim_read [OF assms(1) this] show "answered k s a c"
    using assms(1) by (simp add: Pread answered_def asgn1_answer_def read_out_def Let_def)
next
  case (Pwrite fd ua buf count p)
  then have "rw_args count p" "array_takes a ua buf count p" using assms(2) by simp_all
  from array_sim_write [OF assms(1) this] show "answered k s a c" by (auto simp: Pwrite answered_def asgn1_answer_def)
next
  case (Ioctl fd cmd arg_ok arg)
  then show "answered k s a c" using assms array_of_call [OF assms]
    by (auto simp: answered_def asgn1_answer_def asgn1_ioctl_def array_ioctl_def array_of_def contents_def Let_def
        split: if_splits option.splits)
next
  case (Mmap fd vma)
  have "num_pages (dev_of s) = room a" "0 \<le> room a" "room a < 1048576"
    using assms(1) dev_invD(2,6) [of "dev_of s"] by (auto simp: array_of_def sys_inv_def machine_ok_def)
  then show "answered k s a c" using assms(1) by (simp add: Mmap answered_def asgn1_answer_def asgn1_mmap_def)
qed (use assms in \<open>simp_all add: open_answered write_answered read_answered seek_answered del: array_allows.simps\<close>)

interpretation asgn1_array: run_refinement "array_of k" asgn1_answer array_call array_allows
  for k
  by unfold_locales (rule array_sim)

lemma array_of_loaded: "fresh_kmem k \<Longrightarrow> mem_available n k \<Longrightarrow> array_of k (asgn1_loaded k) (array_loaded n)"
  using sys_inv_loaded [of k]
  by (simp add: array_of_def array_loaded_def asgn1_loaded_def contents_def file_offsets_def fun_eq_iff)

text \<open>
  C3: from loading on, every run of calls within the specification is answered as the
  specification says, result by result and byte by byte: the driver is one array of bytes that
  all files share, with a position per file, which an open for writing only empties.
\<close>

theorem asgn1_runs_as_array:
  assumes "fresh_kmem k" "mem_available n k" "all_allowed array_allows array_call cs (array_loaded n)"
  shows "\<exists>t. answers asgn1_answer cs (asgn1_loaded k) = Some (fst (promised array_call cs (array_loaded n)), t) \<and>
    contents (dev_of t) = stored_bytes (snd (promised array_call cs (array_loaded n))) \<and>
    nprocs (dev_of t) = users (snd (promised array_call cs (array_loaded n)))"
  using asgn1_array.runs [OF array_of_loaded [OF assms(1,2)] assms(3)] by (auto simp: array_of_def)

text \<open>Three bytes are written, read back in parts, and gone after an open for writing only.\<close>

theorem asgn1_runs_as_array_witness:
  "\<exists>t. answers asgn1_answer
      [Open 3 O_RDWR, Write 3 all_copied [7, 8, 9] 3, Lseek 3 1 SEEK_SET, Read 3 all_copied 5, Pread 3 all_copied 1 0,
       Close 3, Open 4 O_WRONLY, Pread 4 all_copied 5 0] (asgn1_loaded (clean_kmem 1)) =
    Some ([(0, []), (3, []), (1, []), (2, [8, 9]), (1, [7]), (0, []), (0, []), (0, [])], t)"
proof -
  let ?cs = "[Open 3 O_RDWR, Write 3 all_copied [7, 8, 9] 3, Lseek 3 1 SEEK_SET, Read 3 all_copied 5,
    Pread 3 all_copied 1 0, Close 3, Open 4 O_WRONLY, Pread 4 all_copied 5 0]"
  have "all_allowed array_allows array_call ?cs (array_loaded 1)"
    by (simp add: array_loaded_def array_open_def array_at_def array_move_def array_write_def array_read_def
        array_seek_def array_takes_def rw_args_def pages_for_def blit_def Let_def)
  moreover have "fst (promised array_call ?cs (array_loaded 1)) =
      [(0, []), (3, []), (1, []), (2, [8, 9]), (1, [7]), (0, []), (0, []), (0, [])]"
    by (simp add: array_loaded_def array_open_def array_at_def array_move_def array_write_def array_read_def
        array_seek_def pages_for_def blit_def Let_def)
  ultimately show ?thesis using asgn1_runs_as_array [OF fresh_clean mem_available_clean, of 1 ?cs] by auto
qed

end
