(* ===== verification/Asgn1_Mapping.thy ===== *)
theory Asgn1_Mapping
  imports Asgn1_Properties
begin

section \<open>The life of a mapping\<close>

text \<open>
  A mapping is made of the frames that the pages had when \<open>mmap\<close> was called. The driver takes no
  count of it. Here other calls run while the mapping is there.
\<close>

text \<open>An open that is admitted and empties the device.\<close>

fun truncates :: "asgn1_sys \<Rightarrow> call \<Rightarrow> bool" where
  "truncates s (Open fd flags) =
     (flags AND O_ACCMODE = O_WRONLY \<and> nprocs (dev_of s) < max_nprocs (dev_of s))"
| "truncates s c = False"

text \<open>Calls that the kernel passes on, none of which empties the device.\<close>

fun calls_keeping :: "call list \<Rightarrow> asgn1_sys \<Rightarrow> asgn1_sys option" where
  "calls_keeping [] s = Some s"
| "calls_keeping (c # cs) s =
     (if vfs_passes s c \<and> \<not> truncates s c
      then (case asgn1_call s c of None \<Rightarrow> None | Some (r, t) \<Rightarrow> calls_keeping cs t)
      else None)"

text \<open>A write leaves the pages that are there at their places.\<close>

lemma write_keeps_frames:
  assumes "machine_ok k d" "rw_args count pos" "asgn1_write ua k d buf count pos = Some (r, p, k', d')"
  shows "take (length (mem_list d)) (map pfn (mem_list d')) = map pfn (mem_list d)"
proof -
  have p: "0 \<le> pos" "0 \<le> count" "count < 2147483648" "pos + count < 2 ^ 63"
    using assms(2) by (simp_all add: rw_args_def)
  show ?thesis
  proof (cases "pos < 9223372034707292160")
    case True
    from asgn1_write_safe [OF assms(1) p(1) True p(2,3), of ua buf] show ?thesis using assms(3) by auto
  next
    case False
    obtain added k1 d1 where a: "add_pages (pos + count) k d = (added, k1, d1)" by (metis prod_cases3)
    have "\<not> added" using add_pages_never [OF assms(1), of "pos + count"] False p a by simp
    moreover have "s64 (pos + count) = pos + count" using p by simp
    ultimately have "d' = d1" using a assms(3) unfolding asgn1_write_def by (simp add: Let_def)
    then show ?thesis using add_pages_frame(2) [OF assms(1) a] by auto
  qed
qed

lemma call_keeps_frames:
  assumes "sys_inv k s" "vfs_passes s c" "\<not> truncates s c" "asgn1_call s c = Some (r, t)"
  shows "take (length (mem_list (dev_of s))) (map pfn (mem_list (dev_of t))) = map pfn (mem_list (dev_of s))"
proof -
  have ok: "machine_ok (kmem_of s) (dev_of s)" using assms(1) by (simp add: sys_inv_def)
  show ?thesis
  proof (cases c)
    case (Open fd flags)
    then show ?thesis using assms(3,4) by (auto simp: asgn1_open_def Let_def split: if_splits)
  next
    case (Write fd ua buf count)
    then have "rw_args count (pos_of s fd)" using assms(2) by (auto simp: pos_of_def split: option.splits)
    then show ?thesis using Write assms(4) write_keeps_frames [OF ok] by auto
  next
    case (Pwrite fd ua buf count pos)
    then show ?thesis using assms(2,4) write_keeps_frames [OF ok] by auto
  next
    case (Ioctl fd cmd arg_ok arg)
    then show ?thesis using assms(4) by (auto simp: asgn1_ioctl_def Let_def split: if_splits option.splits)
  qed (use assms(4) in \<open>auto simp: asgn1_release_def split: prod.splits\<close>)
qed

lemma calls_keep_frames:
  assumes "sys_inv k s" "calls_keeping cs s = Some t"
  shows "sys_inv k t \<and> take (length (mem_list (dev_of s))) (map pfn (mem_list (dev_of t))) = map pfn (mem_list (dev_of s))"
  using assms
proof (induction cs arbitrary: s)
  case Nil
  then show ?case by simp
next
  case (Cons c cs)
  then obtain r u where u: "vfs_passes s c" "\<not> truncates s c" "asgn1_call s c = Some (r, u)" "calls_keeping cs u = Some t"
    by (auto split: if_splits option.splits)
  have "sys_inv k u" using sys_inv_call [OF Cons.prems(1) u(1)] u(3) by auto
  note IH = Cons.IH [OF this u(4)]
  note one = call_keeps_frames [OF Cons.prems(1) u(1-3)]
  have "length (mem_list (dev_of s)) \<le> length (mem_list (dev_of u))"
    using arg_cong [OF one, of length] by simp
  then have "take (length (mem_list (dev_of s))) (map pfn (mem_list (dev_of t))) =
      take (length (mem_list (dev_of s))) (take (length (mem_list (dev_of u))) (map pfn (mem_list (dev_of t))))"
    by (simp add: min_absorb1)
  then show ?case using IH one by simp
qed

text \<open>A state for examples: one process has the device open and has written one byte.\<close>

lemma example_written:
  obtains s where "asgn1_reachable (clean_kmem 1) s" "files s 3 \<noteq> None" "num_pages (dev_of s) = 1"
    "data_size (dev_of s) = 1" "flat (mem_list (dev_of s)) ! 0 = 7"
proof -
  let ?k = "clean_kmem 1"
  let ?s1 = "\<lparr>kmem_of = ?k, dev_of = demo_dev, files = [3 \<mapsto> \<lparr>f_pos = 0, f_flags = O_RDWR\<rparr>]\<rparr>"
  have "asgn1_call (asgn1_loaded ?k) (Open 3 O_RDWR) = Some (0, ?s1)"
    by (simp add: asgn1_open_def asgn1_loaded_def demo_dev_def)
  then have "asgn1_step (asgn1_loaded ?k) ?s1"
    by (intro asgn1_step.call [of _ "Open 3 O_RDWR"]) (simp_all add: asgn1_loaded_def)
  then have r1: "asgn1_reachable ?k ?s1" by (rule asgn1_reachable.step [OF asgn1_reachable.loaded])
  obtain k' d' fill where w: "asgn1_write all_copied ?k demo_dev [7] 1 0 = Some (1, 1, k', d')" "num_pages d' = 1"
    "data_size d' = 1" "flat (mem_list d') = blit fill 0 [7]"
    using asgn1_write_ok [OF demo_ok [of 1] no_fault_all_copied demo_writable [of 0 1], of "[7]"]
    by (auto simp: demo_dev_def pages_for_def)
  let ?s2 = "set_pos 3 1 (?s1\<lparr>kmem_of := k', dev_of := d'\<rparr>)"
  have "asgn1_call ?s1 (Write 3 all_copied [7] 1) = Some (1, ?s2)" using w(1) by (simp add: pos_of_def)
  then have "asgn1_step ?s1 ?s2"
    by (intro asgn1_step.call [of _ "Write 3 all_copied [7] 1"]) (simp_all add: rw_args_def)
  then have "asgn1_reachable ?k ?s2" by (rule asgn1_reachable.step [OF r1])
  then show thesis using w(2-4) by (intro that [of ?s2]) (simp_all add: set_pos_def blit_def)
qed

text \<open>
  C17: a mapping from the start of the device goes on showing the device through any calls of any
  processes that do not empty it: what a load through it returns is the byte of the data at
  that distance, after every write, seek, open, close and change of the limit. An open for
  writing only frees the mapped frames although the mapping is there: no address of it
  leads to a page of the device any more.
\<close>

theorem asgn1_mapping_lives:
  assumes "fresh_kmem k" "asgn1_reachable k s" "start mod 4096 = 0" "0 \<le> start" "int m \<le> num_pages (dev_of s)"
    and "start + num_pages (dev_of s) * 4096 < 4294967296" "asgn1_mmap (dev_of s) (whole_vma start m) = (0, reqs)"
    and "calls_keeping cs s = Some t" "start \<le> a" "a < start + int m * 4096"
  shows "mapped_byte reqs (mem_list (dev_of t)) a = Some (flat (mem_list (dev_of t)) ! nat (a - start)) \<and>
    (truncates t (Open fd flags) \<longrightarrow>
      (\<exists>u. asgn1_call t (Open fd flags) = Some (0, u) \<and> mapped_byte reqs (mem_list (dev_of u)) a = None))"
proof -
  have inv: "sys_inv k s" using reachable_inv assms(1,2) by blast
  note keep = calls_keep_frames [OF inv assms(8)]
  have d: "dev_inv (dev_of s)" "dev_inv (dev_of t)" using inv keep by (simp_all add: sys_inv_def machine_ok_def)
  note len = dev_invD(1) [OF d(1)] dev_invD(1) [OF d(2)]
  have frames: "length (mem_list (dev_of s)) \<le> length (mem_list (dev_of t))"
    using arg_cong [OF conjunct2 [OF keep], of length] by simp
  have same: "pfn (mem_list (dev_of t) ! i) = pfn (mem_list (dev_of s) ! i)" if "i < length (mem_list (dev_of s))" for i
  proof -
    have "take (length (mem_list (dev_of s))) (map pfn (mem_list (dev_of t))) ! i = map pfn (mem_list (dev_of s)) ! i"
      using keep by simp
    then show ?thesis using that frames by simp
  qed
  have area: "start + num_pages (dev_of s) * 4096 \<le> 4294967296" "start + int m * 4096 < 4294967296"
    using assms(5,6) by linarith+
  have "reqs = map (\<lambda>i. (start + int i * 4096, pfn (mem_list (dev_of s) ! i))) [0..<m]"
    using asgn1_mmap_zero [OF d(1) assms(4,5) area] assms(7) by simp
  also have "\<dots> = map (\<lambda>i. (start + int i * 4096, pfn (mem_list (dev_of t) ! i))) [0..<m]"
    using same assms(5) len by simp
  finally have "mapped_byte reqs (mem_list (dev_of t)) a = Some (flat (mem_list (dev_of t)) ! nat (a - start))"
    using mapped_byte_eq [OF d(2) assms(3) _ assms(9,10)] assms(5) frames len by simp
  moreover have "\<exists>u. asgn1_call t (Open fd flags) = Some (0, u) \<and> mapped_byte reqs (mem_list (dev_of u)) a = None"
    if "truncates t (Open fd flags)"
    using that by (auto simp: asgn1_open_def Let_def free_memory_pages_eq mapped_byte_def split: option.split)
  ultimately show ?thesis by blast
qed

theorem asgn1_mapping_lives_witness:
  "\<exists>s reqs. asgn1_reachable (clean_kmem 1) s \<and> asgn1_mmap (dev_of s) (whole_vma 8192 1) = (0, reqs) \<and>
    mapped_byte reqs (mem_list (dev_of s)) 8192 = Some (flat (mem_list (dev_of s)) ! 0)"
proof -
  obtain s where s: "asgn1_reachable (clean_kmem 1) s" "num_pages (dev_of s) = 1" by (rule example_written)
  have fresh: "fresh_kmem (clean_kmem 1)" by (simp add: fresh_clean)
  then have "dev_inv (dev_of s)" using reachable_inv [OF s(1)] by (simp add: sys_inv_def machine_ok_def)
  then obtain reqs where "asgn1_mmap (dev_of s) (whole_vma 8192 1) = (0, reqs)"
    using asgn1_mmap_zero [of "dev_of s" 8192 1] s(2) by simp
  with asgn1_mapping_lives [OF fresh s(1) _ _ _ _ this, of "[]"] s show ?thesis by fastforce
qed

end
