(* ===== verification/Asgn1_Readers.thy ===== *)
theory Asgn1_Readers
  imports Asgn1_Mapping
begin

section \<open>Reads while other calls run\<close>

text \<open>
  \<open>asgn1_read\<close> takes no lock: between two rounds of its loop the kernel may run any calls of other
  processes. Here the function is cut there: what it does before the loop, a round at the node that
  the loop variable has reached, and the rest of the loop. The node is given by its place in the
  list, which the calls do not change as long as none of them empties the device
  (\<open>calls_keeping\<close>); an open for writing only would free the node under the reader.
\<close>

subsection \<open>The rounds\<close>

text \<open>The local variables of the function; \<open>rd_at\<close> is the place of the next node.\<close>

record page_reader =
  rd_at :: nat
  rd_page_no :: int
  rd_begin_page :: int
  rd_begin_offset :: int
  rd_size_read :: int
  rd_from_pages :: int
  rd_out :: "byte list"

definition read_begin :: "asgn_dev \<Rightarrow> int \<Rightarrow> int \<Rightarrow> page_reader option" where
  "read_begin d count pos =
     (if pos > data_size d then None
      else Some \<lparr>rd_at = 0, rd_page_no = - 1, rd_begin_page = s32 (cdiv pos PAGE_SIZE),
                 rd_begin_offset = u32 (crem pos PAGE_SIZE), rd_size_read = 0,
                 rd_from_pages = min count (u32 (data_size d - u32 pos)), rd_out = []\<rparr>)"

text \<open>A round; the flag says whether the loop goes on.\<close>

definition read_round :: "uaccess \<Rightarrow> page_reader \<Rightarrow> asgn_dev \<Rightarrow> (bool \<times> page_reader) option" where
  "read_round ua r d =
     (if length (mem_list d) \<le> rd_at r then Some (False, r)
      else
       (let node = mem_list d ! rd_at r;
            r = r\<lparr>rd_at := Suc (rd_at r), rd_page_no := s32 (rd_page_no r + 1)\<rparr>
        in if rd_page_no r = rd_begin_page r then
             (let size_to_read = u32 (min (s32 (u32 (PAGE_SIZE - rd_begin_offset r)))
                                          (s32 (u32 (rd_from_pages r - rd_size_read r))))
              in case page_bytes (frame node) (rd_begin_offset r) size_to_read of
                   None \<Rightarrow> None
                 | Some src \<Rightarrow>
                     (let (out, size_to_be_read) = copy_to_user ua (rd_page_no r) (rd_size_read r) src size_to_read;
                          curr_size_read = u32 (size_to_read - size_to_be_read);
                          r = r\<lparr>rd_size_read := u32 (rd_size_read r + curr_size_read), rd_out := rd_out r @ out\<rparr>
                      in if rd_from_pages r \<noteq> rd_size_read r
                         then Some (True, r\<lparr>rd_begin_page := s32 (rd_begin_page r + 1), rd_begin_offset := 0\<rparr>)
                         else Some (False, r)))
           else Some (True, r)))"

text \<open>The rest of the loop, undisturbed.\<close>

function read_rest :: "uaccess \<Rightarrow> page_reader \<Rightarrow> asgn_dev \<Rightarrow> page_reader option" where
  "read_rest ua r d =
     (case read_round ua r d of
        None \<Rightarrow> None
      | Some (go, r') \<Rightarrow> if go then read_rest ua r' d else Some r')"
  by pat_completeness auto
termination
  by (relation "measure (\<lambda>(ua, r, d). length (mem_list d) - rd_at r)")
     (auto simp: read_round_def Let_def split: if_splits option.splits prod.splits)

declare read_rest.simps [simp del]

text \<open>The loop with calls before each of its first rounds.\<close>

fun read_turns :: "uaccess \<Rightarrow> call list list \<Rightarrow> page_reader \<Rightarrow> asgn1_sys \<Rightarrow> (page_reader \<times> asgn1_sys) option" where
  "read_turns ua [] r s = map_option (\<lambda>r. (r, s)) (read_rest ua r (dev_of s))"
| "read_turns ua (cs # css) r s =
     (case calls_keeping cs s of
        None \<Rightarrow> None
      | Some t \<Rightarrow>
          (case read_round ua r (dev_of t) of
             None \<Rightarrow> None
           | Some (go, r) \<Rightarrow> if go then read_turns ua css r t else Some (r, t)))"

definition asgn1_read_among :: "uaccess \<Rightarrow> call list list \<Rightarrow> int \<Rightarrow> int \<Rightarrow> asgn1_sys \<Rightarrow>
    ((int \<times> byte list \<times> int) \<times> asgn1_sys) option" where
  "asgn1_read_among ua css count pos s =
     (case read_begin (dev_of s) count pos of
        None \<Rightarrow> Some ((0, [], pos), s)
      | Some r \<Rightarrow>
          map_option (\<lambda>(r, t). ((s32 (rd_size_read r), rd_out r, s64 (pos + rd_size_read r)), t))
            (read_turns ua css r s))"

subsection \<open>The list that the reader walks over\<close>

text \<open>The states in which the rounds run.\<close>

fun seen :: "call list list \<Rightarrow> asgn1_sys \<Rightarrow> asgn1_sys list" where
  "seen [] s = [s]"
| "seen (cs # css) s = (case calls_keeping cs s of None \<Rightarrow> [] | Some t \<Rightarrow> t # seen css t)"

fun calls_pass :: "call list list \<Rightarrow> asgn1_sys \<Rightarrow> bool" where
  "calls_pass [] s = True"
| "calls_pass (cs # css) s = (case calls_keeping cs s of None \<Rightarrow> False | Some t \<Rightarrow> calls_pass css t)"

text \<open>The nodes as the reader meets them, each in the state of its round.\<close>

fun woven :: "call list list \<Rightarrow> nat \<Rightarrow> asgn1_sys \<Rightarrow> page_node list" where
  "woven [] i s = drop i (mem_list (dev_of s))"
| "woven (cs # css) i s =
     (case calls_keeping cs s of
        None \<Rightarrow> []
      | Some t \<Rightarrow>
          if i < length (mem_list (dev_of t)) then mem_list (dev_of t) ! i # woven css (Suc i) t else [])"

text \<open>What a reader makes of a list of nodes.\<close>

definition read_over :: "uaccess \<Rightarrow> page_reader \<Rightarrow> page_node list \<Rightarrow> (int \<times> byte list) option" where
  "read_over ua r ns =
     map_option (\<lambda>(n, out). (n, rd_out r @ out))
       (read_pages ua (rd_from_pages r) (rd_page_no r) (rd_begin_page r) (rd_begin_offset r) (rd_size_read r) ns)"

definition read_result :: "page_reader \<Rightarrow> int \<times> byte list" where
  "read_result r = (rd_size_read r, rd_out r)"

lemma read_over_Nil: "read_over ua r [] = Some (read_result r)"
  by (simp add: read_over_def read_result_def)

lemma read_round_end: "length (mem_list d) \<le> rd_at r \<Longrightarrow> read_round ua r d = Some (False, r)"
  by (simp add: read_round_def)

lemma read_over_round:
  assumes "rd_at r < length (mem_list d)"
  shows "read_over ua r (mem_list d ! rd_at r # ns) =
     (case read_round ua r d of
        None \<Rightarrow> None
      | Some (go, r') \<Rightarrow> if go then read_over ua r' ns else Some (read_result r'))"
  using assms
  by (auto simp: read_over_def read_round_def read_result_def Let_def option.map_comp comp_def case_prod_unfold
      split: option.split)

lemma read_round_at:
  "read_round ua r d = Some (go, r') \<Longrightarrow> go \<Longrightarrow> rd_at r' = Suc (rd_at r)"
  by (auto simp: read_round_def Let_def split: if_splits option.splits prod.splits)

lemma read_rest_over:
  "map_option read_result (read_rest ua r d) = read_over ua r (drop (rd_at r) (mem_list d))"
proof (induction ua r d rule: read_rest.induct)
  case (1 ua r d)
  show ?case
  proof (cases "rd_at r < length (mem_list d)")
    case False
    then show ?thesis by (simp add: read_rest.simps read_round_end read_over_Nil)
  next
    case True
    then have "drop (rd_at r) (mem_list d) = mem_list d ! rd_at r # drop (Suc (rd_at r)) (mem_list d)"
      by (rule Cons_nth_drop_Suc [symmetric])
    then show ?thesis using 1 read_over_round [OF True, of ua]
      by (auto simp: read_rest.simps [of ua r d] dest: read_round_at split: option.split)
  qed
qed

text \<open>The reader with calls in between is a reader of the woven list.\<close>

lemma read_turns_woven:
  "calls_pass css s \<Longrightarrow>
   map_option (\<lambda>(r, t). read_result r) (read_turns ua css r s) = read_over ua r (woven css (rd_at r) s)"
proof (induction css arbitrary: r s)
  case Nil
  then show ?case using read_rest_over [of ua r "dev_of s"] by (simp add: option.map_comp comp_def)
next
  case (Cons cs css)
  then obtain t where t: "calls_keeping cs s = Some t" "calls_pass css t" by (auto split: option.splits)
  show ?case
  proof (cases "rd_at r < length (mem_list (dev_of t))")
    case False
    then show ?thesis using t(1) by (simp add: read_round_end read_over_Nil)
  next
    case True
    then show ?thesis using t Cons.IH [OF t(2)] read_over_round [OF True, of ua]
      by (auto dest: read_round_at split: option.split)
  qed
qed

lemma seen_length: "calls_pass css s \<Longrightarrow> length (seen css s) = Suc (length css)"
  by (induction css arbitrary: s) (auto split: option.splits)

lemma woven_nodes:
  assumes "sys_inv k s" "calls_pass css s"
  shows "length (mem_list (dev_of s)) - i \<le> length (woven css i s) \<and>
    full_frames (woven css i s) \<and>
    (\<forall>j < length (woven css i s).
      i + j < length (mem_list (dev_of (seen css s ! min j (length css)))) \<and>
      dev_inv (dev_of (seen css s ! min j (length css))) \<and>
      woven css i s ! j = mem_list (dev_of (seen css s ! min j (length css))) ! (i + j))"
  using assms
proof (induction css arbitrary: s i)
  case Nil
  then have "dev_inv (dev_of s)" by (simp add: sys_inv_def machine_ok_def)
  then show ?case using dev_inv_bounds(1,2) [of "dev_of s"] by (auto simp: full_frames_drop)
next
  case (Cons cs css)
  then obtain t where t: "calls_keeping cs s = Some t" "calls_pass css t" by (auto split: option.splits)
  note keep = calls_keep_frames [OF Cons.prems(1) t(1)]
  then have inv: "sys_inv k t" "dev_inv (dev_of t)" by (simp_all add: sys_inv_def machine_ok_def)
  have len: "length (mem_list (dev_of s)) \<le> length (mem_list (dev_of t))"
    using arg_cong [OF conjunct2 [OF keep], of length] by simp
  show ?case
  proof (cases "i < length (mem_list (dev_of t))")
    case False
    then show ?thesis using t len by (simp add: full_frames_def)
  next
    case True
    note IH = Cons.IH [OF inv(1) t(2), of "Suc i"]
    have "full_frames (mem_list (dev_of t))" using dev_inv_bounds(1) [OF inv(2)] .
    then have "length (frame (mem_list (dev_of t) ! i)) = 4096" using True by (simp add: full_frames_def)
    moreover have "i + j < length (mem_list (dev_of (seen (cs # css) s ! min j (length (cs # css))))) \<and>
        dev_inv (dev_of (seen (cs # css) s ! min j (length (cs # css)))) \<and>
        woven (cs # css) i s ! j = mem_list (dev_of (seen (cs # css) s ! min j (length (cs # css)))) ! (i + j)"
      if "j < length (woven (cs # css) i s)" for j
    proof (cases j)
      case 0
      then show ?thesis using t(1) True inv(2) by simp
    next
      case (Suc l)
      then have "l < length (woven css (Suc i) t)" using that t(1) True by simp
      then show ?thesis using IH Suc t(1) True by simp
    qed
    ultimately show ?thesis using IH True t(1) len by (auto simp: full_frames_def)
  qed
qed
lemma nth_flat_full:
  "full_frames ns \<Longrightarrow> i < length ns \<Longrightarrow> off < 4096 \<Longrightarrow> flat ns ! (4096 * i + off) = frame (ns ! i) ! off"
proof (induction ns arbitrary: i)
  case Nil
  then show ?case by simp
next
  case (Cons n ns)
  then show ?case by (cases i) (simp_all add: nth_append)
qed

lemma woven_short:
  assumes "sys_inv k s" "calls_pass css s"
  shows "length (woven css 0 s) < 1048576"
proof (cases "woven css 0 s")
  case (Cons x xs)
  then have "length xs < length (mem_list (dev_of (seen css s ! min (length xs) (length css))))"
    "dev_inv (dev_of (seen css s ! min (length xs) (length css)))"
    using woven_nodes [OF assms, of 0] by simp_all
  then show ?thesis using Cons dev_inv_bounds(2) by fastforce
qed simp

lemma woven_byte:
  assumes "sys_inv k s" "calls_pass css s" "p < 4096 * length (woven css 0 s)"
  shows "flat (woven css 0 s) ! p = flat (mem_list (dev_of (seen css s ! min (p div 4096) (length css)))) ! p"
proof -
  define q where "q = p div 4096"
  let ?ns = "mem_list (dev_of (seen css s ! min q (length css)))"
  have at: "p = 4096 * q + p mod 4096" and q: "q < length (woven css 0 s)"
    using assms(3) by (simp_all add: q_def less_mult_imp_div_less mult.commute)
  note w = woven_nodes [OF assms(1,2), of 0]
  have node: "q < length ?ns" "full_frames ?ns" "woven css 0 s ! q = ?ns ! q"
    using w q dev_inv_bounds(1) by auto
  have "flat (woven css 0 s) ! (4096 * q + p mod 4096) = flat ?ns ! (4096 * q + p mod 4096)"
    using nth_flat_full [of "woven css 0 s" q "p mod 4096"] nth_flat_full [OF node(2,1), of "p mod 4096"] w q node(3)
    by simp
  then show ?thesis using at by (simp add: q_def)
qed

text \<open>Without calls in between, it is the function.\<close>

lemma read_among_alone:
  "asgn1_read_among ua [] count pos s = map_option (\<lambda>r. (r, s)) (asgn1_read ua (dev_of s) count pos)"
proof (cases "read_begin (dev_of s) count pos")
  case None
  then have "pos > data_size (dev_of s)" by (simp add: read_begin_def split: if_splits)
  then show ?thesis using None by (simp add: asgn1_read_among_def asgn1_read_def)
next
  case (Some r)
  then have "\<not> pos > data_size (dev_of s)" "rd_at r = 0" "rd_out r = []"
    "read_pages ua (min count (u32 (data_size (dev_of s) - u32 pos))) (- 1) (s32 (cdiv pos PAGE_SIZE))
        (u32 (crem pos PAGE_SIZE)) 0 (mem_list (dev_of s)) = read_over ua r (mem_list (dev_of s))"
    by (auto simp: read_begin_def read_over_def option.map_id case_prod_eta split: if_splits)
  then show ?thesis using Some read_rest_over [of ua r "dev_of s", symmetric]
    by (cases "read_rest ua r (dev_of s)")
      (auto simp: asgn1_read_among_def asgn1_read_def read_result_def Let_def)
qed

lemma read_among_woven:
  assumes "sys_inv k s" "rw_args count pos" "no_fault ua" "pos \<le> data_size (dev_of s)" "calls_pass css s"
    and "n = min count (data_size (dev_of s) - pos)"
  shows "pos + n \<le> 4096 * int (length (woven css 0 s)) \<and>
    (\<exists>t. asgn1_read_among ua css count pos s =
      Some ((n, take (nat n) (drop (nat pos) (flat (woven css 0 s))), pos + n), t))"
proof -
  have "dev_inv (dev_of s)" using assms(1) by (simp add: sys_inv_def machine_ok_def)
  note b = dev_inv_bounds [OF this]
  have p: "0 \<le> pos" "0 \<le> count" "count < 2147483648" using assms(2) by (simp_all add: rw_args_def)
  define r where "r = \<lparr>rd_at = 0, rd_page_no = - 1, rd_begin_page = s32 (cdiv pos PAGE_SIZE),
    rd_begin_offset = u32 (crem pos PAGE_SIZE), rd_size_read = 0, rd_from_pages = n, rd_out = []\<rparr>"
  have n: "0 \<le> n" "n < 2147483648" "pos + n \<le> data_size (dev_of s)" "pos < 4294967296"
    using assms(4,6) p b by auto
  have "u32 (data_size (dev_of s) - u32 pos) = data_size (dev_of s) - pos" using assms(4) p b n by simp
  then have start: "read_begin (dev_of s) count pos = Some r" using assms(4,6) by (simp add: read_begin_def r_def)
  note w = woven_nodes [OF assms(1,5), of 0]
  have cap: "pos + n \<le> 4096 * int (length (woven css 0 s))" using w n(3) b(3) by linarith
  have "read_over ua r (woven css 0 s) = Some (n, take (nat n) (drop (nat pos) (flat (woven css 0 s))))"
    using read_pages_full [OF assms(3) _ p(1) n(1,2) woven_short [OF assms(1,5)] cap n(4)] w
    by (simp add: read_over_def r_def)
  then obtain r' t where r': "read_turns ua css r s = Some (r', t)" "rd_size_read r' = n"
    "rd_out r' = take (nat n) (drop (nat pos) (flat (woven css 0 s)))"
    using read_turns_woven [OF assms(5), of ua r] by (auto simp: read_result_def r_def)
  then show ?thesis using n p cap by (simp add: asgn1_read_among_def start)
qed

text \<open>
  C11: a read between whose rounds any calls run that do not empty the device returns as many bytes as
  were there when it began, and never touches memory outside a page. Each page of the answer is the page
  as it was in its round: the byte at position \<open>p\<close> is the byte of the device after the calls that
  came before round \<open>p div 4096\<close>. A read within a page is thus atomic, one over several pages need
  not be. Without calls in between it is the function \<open>asgn1_read\<close>.
\<close>

theorem asgn1_read_pagewise:
  assumes "fresh_kmem k" "asgn1_reachable k s" "rw_args count pos" "no_fault ua" "pos \<le> data_size (dev_of s)"
    and "calls_pass css s"
  shows "\<exists>out t. asgn1_read_among ua css count pos s = Some ((int (length out), out, pos + int (length out)), t) \<and>
    int (length out) = min count (data_size (dev_of s) - pos) \<and>
    (\<forall>j < length out. out ! j =
      flat (mem_list (dev_of (seen css s ! min ((nat pos + j) div 4096) (length css)))) ! (nat pos + j)) \<and>
    asgn1_read_among ua [] count pos s = map_option (\<lambda>r. (r, s)) (asgn1_read ua (dev_of s) count pos)"
proof -
  have inv: "sys_inv k s" using reachable_inv assms(1,2) by blast
  define n where "n = min count (data_size (dev_of s) - pos)"
  have p: "0 \<le> pos" "0 \<le> n" using assms(3,5) by (simp_all add: rw_args_def n_def)
  let ?out = "take (nat n) (drop (nat pos) (flat (woven css 0 s)))"
  obtain t where r: "pos + n \<le> 4096 * int (length (woven css 0 s))"
    "asgn1_read_among ua css count pos s = Some ((n, ?out, pos + n), t)"
    using read_among_woven [OF inv assms(3-6) n_def] by blast
  have "full_frames (woven css 0 s)" using woven_nodes [OF inv assms(6)] by blast
  then have l: "length (flat (woven css 0 s)) = 4096 * length (woven css 0 s)" by (rule length_flat_full)
  then have n: "int (length ?out) = n" using r(1) p by simp
  have "?out ! j = flat (mem_list (dev_of (seen css s ! min ((nat pos + j) div 4096) (length css)))) ! (nat pos + j)"
    if "j < length ?out" for j
  proof -
    have "nat pos + j < 4096 * length (woven css 0 s)" using that l r(1) p by simp
    then show ?thesis using woven_byte [OF inv assms(6)] that l by simp
  qed
  then show ?thesis using r(2) n read_among_alone
    by (intro exI [of _ ?out] exI [of _ t]) (simp add: n_def)
qed

text \<open>A byte that is overwritten before the round is read as it is then.\<close>

theorem asgn1_read_pagewise_witness:
  "\<exists>s t. asgn1_reachable (clean_kmem 1) s \<and> flat (mem_list (dev_of s)) ! 0 = 7 \<and>
    asgn1_read_among all_copied [[Pwrite 3 all_copied [9] 1 0]] 5 0 s = Some ((1, [9], 1), t)"
proof -
  obtain s where s: "asgn1_reachable (clean_kmem 1) s" "files s 3 \<noteq> None" "num_pages (dev_of s) = 1"
    "data_size (dev_of s) = 1" "flat (mem_list (dev_of s)) ! 0 = 7"
    by (rule example_written)
  have inv: "sys_inv (clean_kmem 1) s" using reachable_inv [OF s(1) fresh_clean] by simp
  then have ok: "machine_ok (kmem_of s) (dev_of s)" by (simp add: sys_inv_def)
  have "writable (kmem_of s) (dev_of s) 0 1" using s(3) by (simp add: writable_def pages_for_def mem_available_def)
  from asgn1_write_ok [OF ok no_fault_all_copied this, of "[9]"] obtain k' d' fill where
    w: "asgn1_write all_copied (kmem_of s) (dev_of s) [9] 1 0 = Some (1, 1, k', d')"
    "flat (mem_list d') = blit (flat (mem_list (dev_of s)) @ fill) 0 [9]" by auto
  let ?t = "s\<lparr>kmem_of := k', dev_of := d'\<rparr>"
  have k: "calls_keeping [Pwrite 3 all_copied [9] 1 0] s = Some ?t" using w(1) s(2) by (simp add: rw_args_def)
  then have "calls_pass [[Pwrite 3 all_copied [9] 1 0]] s" by simp
  from asgn1_read_pagewise [OF fresh_clean s(1) _ no_fault_all_copied _ this, of 5 0] obtain out t where
    r: "asgn1_read_among all_copied [[Pwrite 3 all_copied [9] 1 0]] 5 0 s = Some ((int (length out), out, int (length out)), t)"
    "length out = 1" "out ! 0 = flat (mem_list d') ! 0"
    using s(4) k by (auto simp: rw_args_def)
  have "out = [9]" using r(2,3) w(2) by (cases out) (auto simp: blit_def)
  then show ?thesis using r(1) s(1,5) by auto
qed

end
