(* ===== verification/Gpio.thy ===== *)
theory Gpio
  imports Modules
begin

unbundle bit_operations_syntax

section \<open>The GPIO interface of the dummy port\<close>

text \<open>
  \<^verbatim>\<open>asgn2/gpio.c\<close>: the pins of the port, the reading of a half-byte from the level register, the
  selection of a pin's function, and the set-up and tear-down of pins and interrupt. The
  registers are a map from addresses to 32-bit words; \<open>gpio_inw\<close> and \<open>gpio_outw\<close> are a load
  and a store.
\<close>

type_synonym registers = "32 word \<Rightarrow> 32 word"

definition gpio_inw :: "registers \<Rightarrow> 32 word \<Rightarrow> 32 word" where
  "gpio_inw regs addr = regs addr"

definition gpio_outw :: "32 word \<Rightarrow> 32 word \<Rightarrow> registers \<Rightarrow> registers" where
  "gpio_outw addr data regs = regs(addr := data)"

subsection \<open>The pins\<close>

datatype gpio_flag = GPIOF_IN | GPIOF_OUT_INIT_HIGH | GPIOF_OUT_INIT_LOW

record gpio_pin =
  gpio :: nat
  flags :: gpio_flag
  pin_label :: string

definition gpio_dummy :: "gpio_pin list" where
  "gpio_dummy =
     [\<lparr>gpio = 7, flags = GPIOF_IN, pin_label = ''GPIO7''\<rparr>,
      \<lparr>gpio = 8, flags = GPIOF_OUT_INIT_HIGH, pin_label = ''GPIO8''\<rparr>,
      \<lparr>gpio = 17, flags = GPIOF_IN, pin_label = ''GPIO17''\<rparr>,
      \<lparr>gpio = 18, flags = GPIOF_OUT_INIT_HIGH, pin_label = ''GPIO18''\<rparr>,
      \<lparr>gpio = 22, flags = GPIOF_IN, pin_label = ''GPIO22''\<rparr>,
      \<lparr>gpio = 23, flags = GPIOF_OUT_INIT_HIGH, pin_label = ''GPIO23''\<rparr>,
      \<lparr>gpio = 24, flags = GPIOF_IN, pin_label = ''GPIO24''\<rparr>,
      \<lparr>gpio = 25, flags = GPIOF_OUT_INIT_HIGH, pin_label = ''GPIO25''\<rparr>,
      \<lparr>gpio = 4, flags = GPIOF_OUT_INIT_LOW, pin_label = ''GPIO4''\<rparr>,
      \<lparr>gpio = 27, flags = GPIOF_IN, pin_label = ''GPIO27''\<rparr>]"

definition read_half_byte :: "registers \<Rightarrow> 32 word \<Rightarrow> byte" where
  "read_half_byte regs base =
     (let r = 0;
          c = gpio_inw regs (base + 0x34);
          r = (if c AND push_bit 7 1 \<noteq> 0 then r OR 1 else r);
          r = (if c AND push_bit 17 1 \<noteq> 0 then r OR 2 else r);
          r = (if c AND push_bit 22 1 \<noteq> 0 then r OR 4 else r);
          r = (if c AND push_bit 24 1 \<noteq> 0 then r OR 8 else r)
      in r)"

lemma pin_test: "((c :: 32 word) AND push_bit n 1 \<noteq> 0) = bit c n"
  by (simp only: bit_iff_and_push_bit_not_eq_0)

text \<open>
  The half-byte is made of the levels of pins 7, 17, 22 and 24, least significant first,
  and these are the input pins of the table but the last, which raises the interrupt.
\<close>

lemma read_half_byte_pins:
  "read_half_byte regs base =
    (let level = (\<lambda>pin. of_bool (bit (regs (base + 0x34)) pin))
     in level 7 + 2 * level 17 + 4 * level 22 + 8 * level 24) \<and>
   map gpio (filter (\<lambda>p. flags p = GPIOF_IN) gpio_dummy) = [7, 17, 22, 24, gpio (last gpio_dummy)]"
proof
  show "read_half_byte regs base =
    (let level = (\<lambda>pin. of_bool (bit (regs (base + 0x34)) pin))
     in level 7 + 2 * level 17 + 4 * level 22 + 8 * level 24)"
    unfolding read_half_byte_def gpio_inw_def pin_test Let_def
    by (cases "bit (regs (base + 0x34)) 7"; cases "bit (regs (base + 0x34)) 17";
        cases "bit (regs (base + 0x34)) 22"; cases "bit (regs (base + 0x34)) 24") simp_all
  show "map gpio (filter (\<lambda>p. flags p = GPIOF_IN) gpio_dummy) = [7, 17, 22, 24, gpio (last gpio_dummy)]"
    by (simp add: gpio_dummy_def)
qed

subsection \<open>The function of a pin\<close>

text \<open>
  A function-select register holds the three-bit fields of ten pins. The loop splits the pin
  number into the register and the place in it.
\<close>

function split_pin :: "32 word \<Rightarrow> 32 word \<Rightarrow> 32 word \<times> 32 word" where
  "split_pin func sel = (if func > 10 then split_pin (func - 10) (sel + 1) else (func, sel))"
  by pat_completeness auto
termination
proof (relation "measure (\<lambda>(func, sel). unat func)")
  fix func sel :: "32 word"
  assume "10 < func"
  then have "unat (func - 10) = unat func - 10" "10 < unat func"
    by (simp_all add: unat_sub word_less_nat_alt word_le_nat_alt)
  then show "((func - 10, sel + 1), func, sel) \<in> measure (\<lambda>(func, sel). unat func)" by simp
qed simp

declare split_pin.simps [simp del]

definition setgpiofunc :: "32 word \<Rightarrow> 32 word \<Rightarrow> 32 word \<Rightarrow> registers \<Rightarrow> registers" where
  "setgpiofunc base func alt regs =
     (if func > 53 then regs
      else
       (let (func, sel) = split_pin func 0;
            sel = push_bit 2 sel + base;
            data = gpio_inw regs sel;
            shift = func + push_bit 1 func;
            data = data AND NOT (push_bit (unat shift) 7);
            data = data OR push_bit (unat shift) alt
        in gpio_outw sel data regs))"

lemma split_pin_nat:
  "n < 2 ^ 32 \<Longrightarrow> k + n < 2 ^ 32 \<Longrightarrow> split_pin (of_nat n) (of_nat k) =
    (if n \<noteq> 0 \<and> n mod 10 = 0 then (10, of_nat (k + (n div 10 - 1))) else (of_nat (n mod 10), of_nat (k + n div 10)))"
proof (induction n arbitrary: k rule: less_induct)
  case (less n)
  have "unat (of_nat n :: 32 word) = n" using less.prems(1) by (simp add: unat_of_nat)
  moreover have "unat (10 :: 32 word) = 10" by simp
  ultimately have u: "(of_nat n :: 32 word) > 10 \<longleftrightarrow> n > 10" by (simp only: word_less_nat_alt)
  show ?case
  proof (cases "n > 10")
    case True
    then have "split_pin (of_nat n) (of_nat k) = split_pin (of_nat (n - 10)) (of_nat (Suc k))"
      using u by (subst split_pin.simps) (simp add: of_nat_diff add.commute)
    also have "\<dots> = (if n - 10 \<noteq> 0 \<and> (n - 10) mod 10 = 0 then (10, of_nat (Suc k + ((n - 10) div 10 - 1)))
        else (of_nat ((n - 10) mod 10), of_nat (Suc k + (n - 10) div 10)))"
      using True less.prems by (intro less.IH) simp_all
    also have "(n - 10) div 10 = n div 10 - 1" using True by (simp add: le_div_geq)
    also have "(n - 10) mod 10 = n mod 10" using True by (simp add: le_mod_geq)
    finally have e: "split_pin (of_nat n) (of_nat k) =
        (if n mod 10 = 0 then (10, of_nat (Suc k + (n div 10 - 1 - 1)))
         else (of_nat (n mod 10), of_nat (Suc k + (n div 10 - 1))))" using True by simp
    have "n mod 10 = 0 \<Longrightarrow> 2 \<le> n div 10" "1 \<le> n div 10" using True by presburger+
    then have "n mod 10 = 0 \<Longrightarrow> Suc k + (n div 10 - 1 - 1) = k + (n div 10 - 1)"
      "Suc k + (n div 10 - 1) = k + n div 10" by simp_all
    then show ?thesis using e True by auto
  next
    case False
    then have "split_pin (of_nat n) (of_nat k) = (of_nat n, of_nat k)"
      using u by (subst split_pin.simps) simp
    then show ?thesis using False by (cases "n = 10") auto
  qed
qed

text \<open>
  C29: the function of a pin is set in the field that belongs to it, and no other bit of any
  register changes, for every pin whose number is not a positive multiple of ten; for those
  the register below is changed, from its bit 30 on, and the pin's own register is not.
\<close>

theorem setgpiofunc_field:
  assumes "n \<le> 53" "alt < 8" "base = 0x20200000"
  shows "setgpiofunc base (of_nat n) alt regs =
    (let own = base + of_nat (4 * (n div 10)); shift = 3 * (n mod 10);
         below = base + of_nat (4 * (n div 10 - 1))
     in if n = 0 \<or> n mod 10 \<noteq> 0
        then regs(own := (regs own AND NOT (push_bit shift 7)) OR push_bit shift alt)
        else regs(below := (regs below AND NOT (push_bit 30 7)) OR push_bit 30 alt))"
proof -
  have n: "\<not> (of_nat n :: 32 word) > 53"
    using assms(1) by (simp add: word_less_nat_alt unat_of_nat not_less)
  have sp: "split_pin (of_nat n) 0 = (if n \<noteq> 0 \<and> n mod 10 = 0 then (10, of_nat (n div 10 - 1))
      else (of_nat (n mod 10), of_nat (n div 10)))"
    using split_pin_nat [of n 0] assms(1) by simp
  have sel: "push_bit 2 (of_nat k :: 32 word) = of_nat (4 * k)" for k
    by (simp add: push_bit_eq_mult)
  have sh: "unat (of_nat m + push_bit 1 (of_nat m) :: 32 word) = 3 * m" if "m \<le> 10" for m
  proof -
    have "of_nat m + push_bit 1 (of_nat m) = (of_nat (3 * m) :: 32 word)"
      by (simp add: push_bit_eq_mult)
    then show ?thesis using that by (simp only: unat_of_nat) simp
  qed
  have sh10: "unat (10 + push_bit 1 10 :: 32 word) = 30" by simp
  show ?thesis
  proof (cases "n = 0 \<or> n mod 10 \<noteq> 0")
    case True
    have "unat (of_nat (n mod 10) + push_bit 1 (of_nat (n mod 10)) :: 32 word) = 3 * (n mod 10)"
      by (rule sh) (simp add: less_imp_le)
    then show ?thesis
      using True n sp by (auto simp: setgpiofunc_def gpio_inw_def gpio_outw_def Let_def sel add.commute)
  next
    case False
    then show ?thesis
      using n sp sh10 by (simp add: setgpiofunc_def gpio_inw_def gpio_outw_def Let_def sel add.commute)
  qed
qed

theorem setgpiofunc_field_witness:
  "setgpiofunc 0x20200000 (of_nat 17) 1 (\<lambda>_. 0) = (\<lambda>_. 0)(0x20200004 := 0x200000)"
  using setgpiofunc_field [of 17 1 "0x20200000" "\<lambda>_. 0"] by (simp add: Let_def)

subsection \<open>Set-up and tear-down\<close>

text \<open>
  \<open>gpiochip_find\<close> returns the first chip that \<open>is_right_chip\<close> accepts; where there is none the
  driver follows a null pointer. The other answers of the kernel are the numbers of \<open>gpio_env\<close>.
\<close>

type_synonym gpio_chip = "string \<times> 32 word"

record gpio_env =
  g_chips :: "gpio_chip list"
  g_request :: int
  g_to_irq :: int
  g_request_irq :: int

definition is_right_chip :: "gpio_chip \<Rightarrow> string \<Rightarrow> int" where
  "is_right_chip chip data = (if data = fst chip then 1 else 0)"

definition gpio_dummy_init :: "gpio_env \<Rightarrow> outcome \<times> kcall list \<times> int option" where
  "gpio_dummy_init g =
     (case find (\<lambda>chip. is_right_chip chip ''bcm2708_gpio'' \<noteq> 0) (g_chips g) of
        None \<Rightarrow> (Oops, [], None)
      | Some chip \<Rightarrow>
          (let ret = g_request g
           in if ret \<noteq> 0 then (Returned ret, [], None)
              else
           (let trace = [Request_gpios]; ret = g_to_irq g
            in if ret < 0 then (Returned ret, trace @ [Free_gpios], None)
               else
            (let dummy_irq = ret; ret = g_request_irq g
             in if ret \<noteq> 0 then (Returned ret, trace @ [Free_gpios], Some dummy_irq)
                else (Returned ret, trace @ [Request_irq] @ [Free_gpios], Some dummy_irq)))))"

definition gpio_dummy_exit :: "kcall list" where
  "gpio_dummy_exit = [Free_irq, Free_gpios]"

text \<open>
  Every failure of the set-up is reported and leaves nothing taken; but so does success
  give the pins back, keeping only the interrupt, and the tear-down then gives back pins that
  are not held.
\<close>

lemma gpio_dummy_init_pins:
  assumes "gpio_dummy_init g = (Returned r, trace, irq)" "g_request_irq g \<le> 0" "g_request g \<le> 0"
  shows "(r < 0 \<longrightarrow> held {} trace = Some {}) \<and>
    (r = 0 \<longrightarrow> held {} trace = Some {Irq} \<and> held {} (trace @ gpio_dummy_exit) = None) \<and> r \<le> 0"
  using assms
  by (auto simp: gpio_dummy_init_def gpio_dummy_exit_def Let_def split: option.splits if_splits)

end
