(* ===== verification/Asgn2.thy ===== *)
theory Asgn2
  imports Asgn_Device
begin

unbundle bit_operations_syntax

section \<open>The dummy-port driver of assignment 2: its operations\<close>

text \<open>
  The operations of \<^verbatim>\<open>asgn2/asgn.c\<close>: the interrupt handler that assembles bytes from half-bytes
  (the top half), the tasklet that moves them into pages (the bottom half), and the file
  operations. The global variables of the file are one record; the page list, the counters
  and \<open>free_memory_pages\<close> are those of the common device structure.
\<close>

subsection \<open>State\<close>

abbreviation (input) BUFFER_CAPACITY :: int where "BUFFER_CAPACITY \<equiv> 64"
abbreviation (input) MAX_SESSIONS :: int where "MAX_SESSIONS \<equiv> 100"

record circular_buf =
  cb_head :: int
  cb_count :: int
  cb_buffer :: "byte list"

record sessions_tracker =
  ss_head :: int
  ss_count :: int
  read_offset :: int
  write_offset :: int
  sizes :: "int list"

text \<open>
  \<open>lock_held\<close> is the spin lock, \<open>scheduled\<close> says that the tasklet is waiting to run.
\<close>

record asgn2_state =
  a2_kmem :: kmem
  a2_dev :: asgn_dev
  cbuf :: circular_buf
  sess :: sessions_tracker
  toggle :: bool
  top_full_byte :: byte
  fin_reading :: bool
  lock_held :: bool
  scheduled :: bool

text \<open>
  How a piece of kernel code ends: it returns, it spins for ever on a lock that nobody will
  release, or it touches memory that is not its own.
\<close>

datatype 'a exec = Ok 'a | Spins | Fault

text \<open>Access to an array by a C index.\<close>

definition array_get :: "'a list \<Rightarrow> int \<Rightarrow> 'a option" where
  "array_get xs i = (if 0 \<le> i \<and> i < int (length xs) then Some (xs ! nat i) else None)"

definition array_set :: "'a list \<Rightarrow> int \<Rightarrow> 'a \<Rightarrow> 'a list option" where
  "array_set xs i v = (if 0 \<le> i \<and> i < int (length xs) then Some (xs[nat i := v]) else None)"

subsection \<open>The circular buffer\<close>

definition cbuf_end :: "circular_buf \<Rightarrow> int" where
  "cbuf_end c = crem (s32 (cb_head c + cb_count c)) BUFFER_CAPACITY"

definition cbuf_put :: "byte \<Rightarrow> circular_buf \<Rightarrow> circular_buf option" where
  "cbuf_put b c =
     map_option (\<lambda>buf. c\<lparr>cb_buffer := buf, cb_count := s32 (cb_count c + 1)\<rparr>)
       (array_set (cb_buffer c) (cbuf_end c) b)"

definition cbuf_take :: "circular_buf \<Rightarrow> (byte \<times> circular_buf) option" where
  "cbuf_take c =
     map_option (\<lambda>b. (b, c\<lparr>cb_head := crem (s32 (cb_head c + 1)) BUFFER_CAPACITY,
                            cb_count := s32 (cb_count c - 1)\<rparr>))
       (array_get (cb_buffer c) (cb_head c))"

subsection \<open>The top half\<close>

text \<open>The argument is what \<open>read_half_byte\<close> returns.\<close>

definition session_end :: "sessions_tracker \<Rightarrow> int" where
  "session_end ss = crem (s32 (ss_head ss + ss_count ss)) MAX_SESSIONS"

definition count_byte :: "sessions_tracker \<Rightarrow> sessions_tracker option" where
  "count_byte ss =
     (case array_get (sizes ss) (session_end ss) of
        None \<Rightarrow> None
      | Some n \<Rightarrow>
          map_option (\<lambda>xs. ss\<lparr>sizes := xs\<rparr>) (array_set (sizes ss) (session_end ss) (u32 (n + 1))))"

definition dummyport_interrupt :: "byte \<Rightarrow> asgn2_state \<Rightarrow> asgn2_state exec" where
  "dummyport_interrupt read_byte s =
     (if toggle s then Ok (s\<lparr>toggle := False, top_full_byte := push_bit 4 read_byte\<rparr>)
      else
       (let s = s\<lparr>toggle := True, top_full_byte := top_full_byte s OR read_byte\<rparr>
        in if lock_held s then Spins
           else
        (let s = s\<lparr>lock_held := True\<rparr>
         in if top_full_byte s = 0 then
              Ok (s\<lparr>sess := (sess s)\<lparr>ss_count := s32 (ss_count (sess s) + 1)\<rparr>,
                   lock_held := False, scheduled := True\<rparr>)
            else if cb_count (cbuf s) \<ge> BUFFER_CAPACITY then Ok s
            else (case cbuf_put (top_full_byte s) (cbuf s) of
                    None \<Rightarrow> Fault
                  | Some c \<Rightarrow>
                      (case count_byte (sess s) of
                         None \<Rightarrow> Fault
                       | Some ss \<Rightarrow>
                           Ok (s\<lparr>cbuf := c, sess := ss, lock_held := False, scheduled := True\<rparr>))))))"

subsection \<open>The bottom half\<close>

text \<open>
  One round of the loop: a byte is taken out of the buffer and stored at \<open>write_offset\<close>, in a new
  page where the offset is zero and otherwise in the page that \<open>mem_list.next\<close> leads to.
  \<open>None\<close> as the state means that an allocation failed and the function returned, with the lock
  still taken; the flag of the result says whether the loop goes on.
\<close>

definition store_first :: "page_node list \<Rightarrow> int \<Rightarrow> byte \<Rightarrow> page_node list option" where
  "store_first ns off b =
     (case ns of
        [] \<Rightarrow> None
      | n # rest \<Rightarrow> map_option (\<lambda>p. n\<lparr>frame := p\<rparr> # rest) (page_store (frame n) off [b]))"

definition store_last :: "page_node list \<Rightarrow> int \<Rightarrow> byte \<Rightarrow> page_node list option" where
  "store_last ns off b =
     (if ns = [] then None
      else map_option (\<lambda>p. butlast ns @ [(last ns)\<lparr>frame := p\<rparr>]) (page_store (frame (last ns)) off [b]))"

definition stored :: "asgn2_state \<Rightarrow> page_node list option \<Rightarrow> (bool \<times> asgn2_state) exec" where
  "stored s ns =
     (case ns of
        None \<Rightarrow> Fault
      | Some ns \<Rightarrow>
          Ok (True, s\<lparr>a2_dev := (a2_dev s)\<lparr>mem_list := ns, data_size := u32 (data_size (a2_dev s) + 1)\<rparr>,
                      sess := (sess s)\<lparr>write_offset := u32 (write_offset (sess s) + 1) mod PAGE_SIZE\<rparr>\<rparr>))"

definition store_byte :: "byte \<Rightarrow> asgn2_state \<Rightarrow> (bool \<times> asgn2_state) exec" where
  "store_byte byte s =
     (let begin_offset = write_offset (sess s); d = a2_dev s
      in if begin_offset = 0 then
           (let (ok, k) = kmalloc (a2_kmem s)
            in if \<not> ok then Ok (False, s\<lparr>a2_kmem := k\<rparr>)
               else (case alloc_page k of
                       (None, k) \<Rightarrow> Ok (False, s\<lparr>a2_kmem := k\<rparr>)
                     | (Some (f, bs), k) \<Rightarrow>
                         (let ns = list_add_tail \<lparr>pfn = f, frame = bs\<rparr> (mem_list d);
                              s = s\<lparr>a2_kmem := k, a2_dev := d\<lparr>num_pages := s32 (num_pages d + 1)\<rparr>\<rparr>
                          in stored s (store_last ns begin_offset byte))))
         else stored s (store_first (mem_list d) begin_offset byte))"

definition copy_byte :: "asgn2_state \<Rightarrow> (bool \<times> asgn2_state) exec" where
  "copy_byte s =
     (case cbuf_take (cbuf s) of
        None \<Rightarrow> Fault
      | Some (byte, c) \<Rightarrow> store_byte byte (s\<lparr>cbuf := c\<rparr>))"

lemma s32_dec_measure:
  assumes "s32 n \<noteq> 0"
  shows "0 < u32 n" and "u32 (s32 (n - 1)) < u32 n"
proof -
  define m where "m = n mod 4294967296"
  have eq: "u32 (s32 (n - 1)) = (m - 1) mod 4294967296"
    by (simp add: u32_def s32_def m_def mod_diff_left_eq)
  have "m \<noteq> 0"
  proof
    assume "m = 0"
    then have "(n + 2147483648) mod 4294967296 = 2147483648"
      by (simp add: m_def flip: mod_add_left_eq)
    with assms show False by (simp add: s32_def)
  qed
  moreover have "0 \<le> m" "m < 4294967296" by (simp_all add: m_def)
  ultimately have m: "0 < m" "m - 1 < 4294967296" by simp_all
  then have "(m - 1) mod 4294967296 = m - 1" by (intro mod_pos_pos_trivial) simp_all
  then show "0 < u32 n" "u32 (s32 (n - 1)) < u32 n"
    using m eq by (simp_all add: u32_def m_def)
qed

text \<open>The count of the buffer falls in every round, as it is read by the loop.\<close>

lemma copy_byte_count:
  "copy_byte s = Ok (go, t) \<Longrightarrow> cb_count (cbuf t) = s32 (cb_count (cbuf s) - 1)"
  by (auto simp: copy_byte_def store_byte_def cbuf_take_def stored_def Let_def
      split: option.splits prod.splits if_splits)

function copy_loop :: "asgn2_state \<Rightarrow> (bool \<times> asgn2_state) exec" where
  "copy_loop s =
     (if s32 (cb_count (cbuf s)) = 0 then Ok (True, s)
      else (case copy_byte s of
              Ok (True, t) \<Rightarrow> copy_loop t
            | Ok (False, t) \<Rightarrow> Ok (False, t)
            | Spins \<Rightarrow> Spins
            | Fault \<Rightarrow> Fault))"
  by pat_completeness auto
termination
  by (relation "measure (\<lambda>s. nat (u32 (cb_count (cbuf s))))")
     (auto dest!: copy_byte_count intro: s32_dec_measure(1,2))

declare copy_loop.simps [simp del]

definition tasklet_copy :: "asgn2_state \<Rightarrow> asgn2_state exec" where
  "tasklet_copy s =
     (if lock_held s then Spins
      else (case copy_loop (s\<lparr>lock_held := True, scheduled := False\<rparr>) of
              Ok (True, t) \<Rightarrow> Ok (t\<lparr>lock_held := False\<rparr>)
            | Ok (False, t) \<Rightarrow> Ok t
            | Spins \<Rightarrow> Spins
            | Fault \<Rightarrow> Fault))"

subsection \<open>Open and release\<close>

definition asgn2_open :: "asgn2_state \<Rightarrow> 32 word \<Rightarrow> int \<times> asgn2_state" where
  "asgn2_open s f_flags =
     (if f_flags AND O_ACCMODE = O_WRONLY \<or> f_flags AND O_ACCMODE = O_RDWR then (- EACCES, s)
      else if nprocs (a2_dev s) \<ge> max_nprocs (a2_dev s) then (- EBUSY, s)
      else (0, s\<lparr>fin_reading := False,
                 a2_dev := (a2_dev s)\<lparr>nprocs := s32 (nprocs (a2_dev s) + 1)\<rparr>\<rparr>))"

definition asgn2_release :: "asgn2_state \<Rightarrow> int \<times> asgn2_state" where
  "asgn2_release s = (0, s\<lparr>a2_dev := (a2_dev s)\<lparr>nprocs := s32 (nprocs (a2_dev s) - 1)\<rparr>\<rparr>)"

subsection \<open>Read\<close>

text \<open>
  The loop over the pages. The flag of the result is false where the function returned from
  inside the loop because a copy fell short, and so left the file position alone. A page
  whose last byte was read is freed and taken out of the list; its node is not freed.
\<close>

definition drop_page :: "page_node \<Rightarrow> asgn2_state \<Rightarrow> asgn2_state" where
  "drop_page node s =
     s\<lparr>a2_kmem := free_page (a2_kmem s),
       a2_dev := (a2_dev s)\<lparr>mem_list := list_del node (mem_list (a2_dev s)),
                            num_pages := s32 (num_pages (a2_dev s) - 1),
                            data_size := u32 (data_size (a2_dev s) - PAGE_SIZE)\<rparr>\<rparr>"

fun asgn2_read_pages :: "uaccess \<Rightarrow> int \<Rightarrow> int \<Rightarrow> int \<Rightarrow> int \<Rightarrow> int \<Rightarrow> int \<Rightarrow> page_node list \<Rightarrow>
    asgn2_state \<Rightarrow> (bool \<times> int \<times> byte list \<times> asgn2_state) exec" where
  "asgn2_read_pages ua total_to_read actual_size begin_offset page_no begin_page_no size_read [] s =
     Ok (True, size_read, [], s)"
| "asgn2_read_pages ua total_to_read actual_size begin_offset page_no begin_page_no size_read
     (node # rest) s =
     (let page_no = s32 (page_no + 1)
      in if page_no \<noteq> begin_page_no then
           asgn2_read_pages ua total_to_read actual_size begin_offset page_no begin_page_no size_read rest s
         else
        (let size_to_read = u32 (min (s32 (u32 (PAGE_SIZE - begin_offset))) (s32 actual_size));
             size_left = u32 (total_to_read - size_read);
             (size_to_read, s) =
               (if size_left < PAGE_SIZE
                then (let size_left = u32 (PAGE_SIZE - u32 (size_left + begin_offset))
                      in (u32 (u32 (PAGE_SIZE - begin_offset) - size_left), s\<lparr>fin_reading := True\<rparr>))
                else (size_to_read, s))
         in case page_bytes (frame node) begin_offset size_to_read of
              None \<Rightarrow> Fault
            | Some src \<Rightarrow>
                (let (out, size_to_be_read) = copy_to_user ua page_no size_read src size_to_read
                 in if size_to_be_read \<noteq> 0
                    then Ok (False, size_read, out, s\<lparr>fin_reading := True\<rparr>)
                    else
                  (let curr_size_read = u32 (size_to_read - size_to_be_read);
                       begin_offset = u32 (begin_offset + curr_size_read);
                       size_read = u32 (size_read + curr_size_read);
                       s = s\<lparr>sess := (sess s)\<lparr>read_offset :=
                                u32 (read_offset (sess s) + curr_size_read) mod PAGE_SIZE\<rparr>\<rparr>;
                       s = (if read_offset (sess s) = 0 then drop_page node s else s)
                   in if size_read = total_to_read
                      then Ok (True, size_read, out, s\<lparr>fin_reading := True\<rparr>)
                      else (case asgn2_read_pages ua total_to_read actual_size begin_offset page_no
                                   (s32 (begin_page_no + 1)) size_read rest s of
                              Ok (b, n, later, t) \<Rightarrow> Ok (b, n, out @ later, t)
                            | Spins \<Rightarrow> Spins
                            | Fault \<Rightarrow> Fault)))))"

text \<open>
  \<open>waited\<close> is the state in which \<open>wait_event_interruptible\<close> returns, as the interrupts and
  tasklets that ran in the meantime left it. Its result is not looked at: it also returns
  when a signal arrived.
\<close>

definition asgn2_read :: "uaccess \<Rightarrow> (asgn2_state \<Rightarrow> asgn2_state) \<Rightarrow> asgn2_state \<Rightarrow> int \<Rightarrow> int \<Rightarrow>
    (int \<times> byte list \<times> int \<times> asgn2_state) exec" where
  "asgn2_read ua waited s count f_pos =
     (if fin_reading s then Ok (0, [], f_pos, s)
      else
       (let s = (if ss_count (sess s) = 0 \<and> read_offset (sess s) = write_offset (sess s)
                 then waited s else s)
        in case array_get (sizes (sess s)) (ss_head (sess s)) of
             None \<Rightarrow> Fault
           | Some total_to_read \<Rightarrow>
               (let actual_size = min count total_to_read;
                    s = s\<lparr>sess := (sess s)\<lparr>ss_head := crem (s32 (ss_head (sess s) + 1)) MAX_SESSIONS,
                                           ss_count := s32 (ss_count (sess s) - 1)\<rparr>\<rparr>;
                    begin_offset = read_offset (sess s)
                in case asgn2_read_pages ua total_to_read actual_size begin_offset (- 1) 0 0
                          (mem_list (a2_dev s)) s of
                     Ok (end_reached, size_read, out, t) \<Rightarrow>
                       Ok (s32 size_read, out, if end_reached then s64 (f_pos + size_read) else f_pos, t)
                   | Spins \<Rightarrow> Spins
                   | Fault \<Rightarrow> Fault)))"

subsection \<open>Ioctl and the status file\<close>

abbreviation (input) ASGN2_MYIOC_TYPE :: "32 word" where "ASGN2_MYIOC_TYPE \<equiv> 107"
abbreviation (input) ASGN2_SET_NPROC_OP :: "32 word" where "ASGN2_SET_NPROC_OP \<equiv> 1"

definition asgn2_ioctl :: "asgn2_state \<Rightarrow> 32 word \<Rightarrow> bool \<Rightarrow> int option \<Rightarrow> int \<times> asgn2_state" where
  "asgn2_ioctl s cmd arg_ok arg =
     (let nr = IOC_NR cmd
      in if IOC_TYPE cmd \<noteq> ASGN2_MYIOC_TYPE then (- EINVAL, s)
         else if nr = ASGN2_SET_NPROC_OP then
           (if \<not> arg_ok then (- EFAULT, s)
            else let new_nprocs = (case arg of None \<Rightarrow> 0 | Some n \<Rightarrow> n)
                 in if new_nprocs < 0 then (- EINVAL, s)
                    else (0, s\<lparr>a2_dev := (a2_dev s)\<lparr>max_nprocs := new_nprocs\<rparr>\<rparr>))
         else (- ENOTTY, s))"

definition asgn2_read_procmem :: "asgn_dev \<Rightarrow> int \<Rightarrow> int \<times> string" where
  "asgn2_read_procmem d count =
     snprintf (u32 count)
       (''nprocs '' @ show_int (nprocs d) @ '', max_nprocs '' @ show_int (max_nprocs d) @
        [CHR 0x0A] @ ''num_pages '' @ show_int (num_pages d) @ '', data_size '' @
        show_int (s32 (data_size d)) @ [CHR 0x0A])"

end
