(* ===== verification/Asgn2_Buffer.thy ===== *)
theory Asgn2_Buffer
  imports Asgn2 Interfaces
begin

section \<open>The circular buffer as a queue, and the bytes the interrupts assemble\<close>

text \<open>
  The circular buffer of the driver meets the contract of a bounded queue of 64 bytes, and two
  interrupts in a row assemble one byte from its halves, the upper half first.
\<close>

subsection \<open>The buffer\<close>

definition cbuf_ok :: "circular_buf \<Rightarrow> bool" where
  "cbuf_ok c \<longleftrightarrow> 0 \<le> cb_head c \<and> cb_head c < 64 \<and> 0 \<le> cb_count c \<and> cb_count c \<le> 64 \<and>
     length (cb_buffer c) = 64"

definition cbuf_contents :: "circular_buf \<Rightarrow> byte list" where
  "cbuf_contents c = map (\<lambda>i. cb_buffer c ! ((nat (cb_head c) + i) mod 64)) [0..<nat (cb_count c)]"

definition cbuf_enq :: "byte \<Rightarrow> circular_buf \<Rightarrow> circular_buf" where
  "cbuf_enq b c = (case cbuf_put b c of Some c' \<Rightarrow> c' | None \<Rightarrow> c)"

definition cbuf_deq :: "circular_buf \<Rightarrow> byte \<times> circular_buf" where
  "cbuf_deq c = (case cbuf_take c of Some r \<Rightarrow> r | None \<Rightarrow> (0, c))"

lemma length_cbuf_contents [simp]: "length (cbuf_contents c) = nat (cb_count c)"
  by (simp add: cbuf_contents_def)

lemma cbuf_count: "cbuf_ok c \<Longrightarrow> cb_count c = int (length (cbuf_contents c))"
  by (simp add: cbuf_ok_def)

lemma cbuf_put_Some:
  assumes "cbuf_ok c" "cb_count c < 64"
  shows "cbuf_put b c =
    Some (c\<lparr>cb_buffer := (cb_buffer c)[(nat (cb_head c) + nat (cb_count c)) mod 64 := b],
            cb_count := cb_count c + 1\<rparr>)"
proof -
  have "cbuf_end c = (cb_head c + cb_count c) mod 64"
    using assms by (simp add: cbuf_end_def cbuf_ok_def)
  moreover have "nat ((cb_head c + cb_count c) mod 64) = (nat (cb_head c) + nat (cb_count c)) mod 64"
    using assms by (simp add: cbuf_ok_def nat_mod_distrib nat_add_distrib)
  ultimately show ?thesis
    using assms by (simp add: cbuf_put_def array_set_def cbuf_ok_def)
qed

lemma cbuf_take_Some:
  assumes "cbuf_ok c" "0 < cb_count c"
  shows "cbuf_take c =
    Some (cb_buffer c ! nat (cb_head c),
          c\<lparr>cb_head := (cb_head c + 1) mod 64, cb_count := cb_count c - 1\<rparr>)"
  using assms by (simp add: cbuf_take_def array_get_def cbuf_ok_def)

lemma cbuf_put_contents:
  assumes "cbuf_ok c" "cb_count c < 64"
  shows "\<exists>c'. cbuf_put b c = Some c' \<and> cbuf_ok c' \<and> cbuf_contents c' = cbuf_contents c @ [b]"
proof -
  let ?h = "nat (cb_head c)" and ?n = "nat (cb_count c)"
  let ?c = "c\<lparr>cb_buffer := (cb_buffer c)[(?h + ?n) mod 64 := b], cb_count := cb_count c + 1\<rparr>"
  have h: "?h < 64" "?n < 64" "nat (cb_count c + 1) = Suc ?n" "length (cb_buffer c) = 64"
    using assms by (auto simp: cbuf_ok_def)
  have "map (\<lambda>i. (cb_buffer c)[(?h + ?n) mod 64 := b] ! ((?h + i) mod 64)) [0..<?n] =
      map (\<lambda>i. cb_buffer c ! ((?h + i) mod 64)) [0..<?n]"
  proof (rule map_cong)
    fix i
    assume "i \<in> set [0..<?n]"
    then have "(?h + i) mod 64 \<noteq> (?h + ?n) mod 64" using mod_shift_neq [OF _ h(2)] by simp
    then show "(cb_buffer c)[(?h + ?n) mod 64 := b] ! ((?h + i) mod 64) = cb_buffer c ! ((?h + i) mod 64)"
      by (metis nth_list_update_neq)
  qed simp
  then have "cbuf_contents ?c = cbuf_contents c @ [b]"
    using h by (simp add: cbuf_contents_def)
  moreover have "cbuf_ok ?c" using assms by (simp add: cbuf_ok_def)
  ultimately show ?thesis using cbuf_put_Some [OF assms] by blast
qed

lemma cbuf_take_contents:
  assumes "cbuf_ok c" "cbuf_contents c = b # bs"
  shows "\<exists>c'. cbuf_take c = Some (b, c') \<and> cbuf_ok c' \<and> cbuf_contents c' = bs"
proof -
  let ?h = "nat (cb_head c)"
  let ?c = "c\<lparr>cb_head := (cb_head c + 1) mod 64, cb_count := cb_count c - 1\<rparr>"
  have len: "nat (cb_count c) = Suc (length bs)"
    using arg_cong [OF assms(2), of length] by simp
  have pos: "0 < cb_count c" using len by simp
  have h: "?h < 64" "0 \<le> cb_head c" "nat (cb_count c - 1) = length bs"
    using assms(1) len by (auto simp: cbuf_ok_def nat_diff_distrib)
  have "nat ((cb_head c + 1) mod 64) = Suc ?h mod 64"
    using h(2) by (simp add: nat_mod_distrib nat_add_distrib)
  then have rot: "(nat ((cb_head c + 1) mod 64) + i) mod 64 = (?h + Suc i) mod 64" for i
    by (simp add: mod_add_left_eq)
  have "cbuf_contents c = cb_buffer c ! ?h # map (\<lambda>i. cb_buffer c ! ((?h + Suc i) mod 64)) [0..<length bs]"
    using h(1) len unfolding cbuf_contents_def by (simp add: upt_conv_Cons map_Suc_upt [symmetric] comp_def del: upt_Suc)
  then have "b = cb_buffer c ! ?h" "cbuf_contents ?c = bs"
    using assms(2) rot h(3) by (simp_all add: cbuf_contents_def)
  moreover have "cbuf_ok ?c" using assms(1) pos by (simp add: cbuf_ok_def)
  ultimately show ?thesis using cbuf_take_Some [OF assms(1) pos] by auto
qed

lemma cbuf_enq_ok:
  assumes "cbuf_ok c" "length (cbuf_contents c) < 64"
  shows "cbuf_ok (cbuf_enq b c) \<and> cbuf_contents (cbuf_enq b c) = cbuf_contents c @ [b]"
proof -
  have "cb_count c < 64" using cbuf_count [OF assms(1)] assms(2) by linarith
  from cbuf_put_contents [OF assms(1) this, of b]
  obtain c' where "cbuf_put b c = Some c'" "cbuf_ok c'" "cbuf_contents c' = cbuf_contents c @ [b]"
    by blast
  then show ?thesis by (simp add: cbuf_enq_def)
qed

lemma cbuf_deq_ok:
  assumes "cbuf_ok c" "cbuf_contents c \<noteq> []"
  shows "cbuf_ok (snd (cbuf_deq c)) \<and>
    cbuf_contents c = fst (cbuf_deq c) # cbuf_contents (snd (cbuf_deq c))"
proof -
  obtain b bs where c: "cbuf_contents c = b # bs" using assms(2) by (meson neq_Nil_conv)
  from cbuf_take_contents [OF assms(1) c]
  obtain c' where "cbuf_take c = Some (b, c')" "cbuf_ok c'" "cbuf_contents c' = bs" by blast
  then show ?thesis using c by (simp add: cbuf_deq_def)
qed

lemma cbuf_room: "cbuf_ok c \<Longrightarrow> length (cbuf_contents c) \<le> 64"
  by (auto simp: cbuf_ok_def)

interpretation cq: bounded_queue cbuf_ok cbuf_contents 64 cbuf_enq cbuf_deq
  by unfold_locales
    (use cbuf_room cbuf_enq_ok cbuf_deq_ok in \<open>blast+\<close>)

text \<open>
  C18: the circular buffer is first in, first out: up to its capacity, what is put comes out
  in order, behind what was there.
\<close>

theorem cbuf_fifo:
  assumes "cbuf_ok c" "length (cbuf_contents c) + length bs \<le> 64"
  shows "fst (take_all cbuf_deq (length (cbuf_contents c) + length bs) (fold cbuf_enq bs c)) =
    cbuf_contents c @ bs"
  using assms by (rule cq.fifo)

theorem cbuf_fifo_witness:
  "fst (take_all cbuf_deq 3 (fold cbuf_enq [1, 2, 3] \<lparr>cb_head = 62, cb_count = 0, cb_buffer = replicate 64 0\<rparr>)) =
    [1, 2, 3]"
  using cbuf_fifo [of "\<lparr>cb_head = 62, cb_count = 0, cb_buffer = replicate 64 0\<rparr>" "[1, 2, 3]"]
  by (simp add: cbuf_ok_def cbuf_contents_def numeral_3_eq_3 del: take_all.simps)

subsection \<open>Two halves make a byte\<close>

definition halves :: "byte \<Rightarrow> byte list" where
  "halves b = [drop_bit 4 b, b AND 15]"

lemma halves_join: "push_bit 4 (drop_bit 4 b) OR (b AND 15) = (b :: byte)"
proof (rule bit_word_eqI)
  fix n
  assume "n < LENGTH(8)"
  have "bit (15 :: byte) n \<longleftrightarrow> n < 4"
  proof -
    have "(15 :: byte) = mask 4" by (simp add: mask_eq_exp_minus_1)
    then show ?thesis using \<open>n < LENGTH(8)\<close> by (simp only: bit_mask_iff) auto
  qed
  then show "bit (push_bit 4 (drop_bit 4 b) OR (b AND 15)) n = bit b n"
    using \<open>n < LENGTH(8)\<close> by (auto simp: bit_simps)
qed

text \<open>Interrupts and the softirq that runs the tasklet, in the order in which they happen.\<close>

datatype port_event = Half byte | Softirq

definition softirq :: "asgn2_state \<Rightarrow> asgn2_state exec" where
  "softirq s = (if scheduled s then tasklet_copy s else Ok s)"

fun port_run :: "port_event list \<Rightarrow> asgn2_state \<Rightarrow> asgn2_state exec" where
  "port_run [] s = Ok s"
| "port_run (e # es) s =
     (case (case e of Half h \<Rightarrow> dummyport_interrupt h s | Softirq \<Rightarrow> softirq s) of
        Ok t \<Rightarrow> port_run es t
      | Spins \<Rightarrow> Spins
      | Fault \<Rightarrow> Fault)"

lemma port_run_append:
  "port_run (as @ bs) s = (case port_run as s of Ok t \<Rightarrow> port_run bs t | Spins \<Rightarrow> Spins | Fault \<Rightarrow> Fault)"
  by (induction as arbitrary: s) (auto split: exec.splits)

lemma port_run_append_Ok: "port_run as s = Ok t \<Longrightarrow> port_run (as @ bs) s = port_run bs t"
  by (simp add: port_run_append)

definition send :: "byte list \<Rightarrow> port_event list" where
  "send bs = concat (map (\<lambda>b. map Half (halves b)) bs)"

lemma send_simps [simp]:
  "send [] = []" "send (b # bs) = Half (drop_bit 4 b) # Half (b AND 15) # send bs"
  "send (as @ bs) = send as @ send bs"
  by (simp_all add: send_def halves_def)

text \<open>What the interrupt does once it has the second half of the byte \<open>b\<close>.\<close>

lemma byte_arrives:
  assumes "toggle s"
  shows "port_run (Half (drop_bit 4 b) # Half (b AND 15) # es) s =
    (if lock_held s then Spins
     else
      (let s = s\<lparr>top_full_byte := b\<rparr>
       in if b = 0 then
            port_run es (s\<lparr>sess := (sess s)\<lparr>ss_count := s32 (ss_count (sess s) + 1)\<rparr>, scheduled := True\<rparr>)
          else if cb_count (cbuf s) \<ge> BUFFER_CAPACITY then port_run es (s\<lparr>lock_held := True\<rparr>)
          else (case cbuf_put b (cbuf s) of
                  None \<Rightarrow> Fault
                | Some c \<Rightarrow>
                    (case count_byte (sess s) of
                       None \<Rightarrow> Fault
                     | Some ss \<Rightarrow> port_run es (s\<lparr>cbuf := c, sess := ss, scheduled := True\<rparr>)))))"
  using assms
  by (cases s) (auto simp: dummyport_interrupt_def Let_def halves_join split: option.splits)

end
