(* ===== verification/Asgn2_Spec.thy ===== *)
theory Asgn2_Spec
  imports Asgn2_Buffer
begin

section \<open>From the port to the reader\<close>

text \<open>
  What the driver is for: bytes that arrive at the port, closed by a zero byte, are a session,
  and a read returns the bytes of the oldest session. The view \<open>in_session\<close> says what the
  driver's variables are while a session arrives inside one page: \<open>off\<close> is where the session
  begins, \<open>ws\<close> the bytes that have reached the page and \<open>q\<close> those still in the buffer;
  \<open>n\<close> is 1 once the session is closed, and \<open>m\<close> is the number of slots of \<open>sizes\<close>, from the
  current one, that were not used before.
\<close>

definition slots_ok :: "nat \<Rightarrow> sessions_tracker \<Rightarrow> bool" where
  "slots_ok m ss \<longleftrightarrow>
     0 \<le> ss_head ss \<and> ss_head ss < 100 \<and> length (sizes ss) = 100 \<and> m \<le> 100 \<and>
     (\<forall>i. 0 < i \<and> i < m \<longrightarrow> sizes ss ! ((nat (ss_head ss) + i) mod 100) = 0)"

definition pages_hold :: "nat \<Rightarrow> byte list \<Rightarrow> page_node list \<Rightarrow> bool" where
  "pages_hold off ws ns \<longleftrightarrow>
     (if off + length ws = 0 then ns = []
      else (\<exists>p. ns = [p] \<and> length (frame p) = 4096 \<and> take (length ws) (drop off (frame p)) = ws))"

definition frames_ok :: "kmem \<Rightarrow> bool" where
  "frames_ok k \<longleftrightarrow> (\<forall>p \<in> set (supplied k). length (snd p) = 4096)"

definition in_session :: "nat \<Rightarrow> nat \<Rightarrow> nat \<Rightarrow> byte list \<Rightarrow> byte list \<Rightarrow> asgn2_state \<Rightarrow> bool" where
  "in_session n m off ws q s \<longleftrightarrow>
     cbuf_ok (cbuf s) \<and> cbuf_contents (cbuf s) = q \<and>
     slots_ok m (sess s) \<and> sizes (sess s) ! nat (ss_head (sess s)) = int (length ws + length q) \<and>
     ss_count (sess s) = int n \<and>
     read_offset (sess s) = int off \<and> off < 4096 \<and>
     write_offset (sess s) = int ((off + length ws) mod 4096) \<and>
     off + length ws + length q \<le> 4096 \<and>
     pages_hold off ws (mem_list (a2_dev s)) \<and> frames_ok (a2_kmem s)"

lemma in_session_flags [simp]:
  "in_session n m off ws q (s\<lparr>toggle := a\<rparr>) = in_session n m off ws q s"
  "in_session n m off ws q (s\<lparr>top_full_byte := b\<rparr>) = in_session n m off ws q s"
  "in_session n m off ws q (s\<lparr>lock_held := c\<rparr>) = in_session n m off ws q s"
  "in_session n m off ws q (s\<lparr>scheduled := d\<rparr>) = in_session n m off ws q s"
  "in_session n m off ws q (s\<lparr>fin_reading := e\<rparr>) = in_session n m off ws q s"
  "in_session n m off ws q (s\<lparr>a2_dev := (a2_dev s)\<lparr>nprocs := f\<rparr>\<rparr>) = in_session n m off ws q s"
  by (simp_all add: in_session_def)

subsection \<open>A byte arrives\<close>

lemma slot_other: "h < 100 \<Longrightarrow> 0 < i \<Longrightarrow> i < 100 \<Longrightarrow> h \<noteq> (h + i) mod (100 :: nat)"
  using mod_shift_neq [of 0 i 100 h] by simp

lemma count_byte_Some:
  assumes "slots_ok m ss" "ss_count ss = 0" "0 < m"
    and "sizes ss ! nat (ss_head ss) = int k" "k < 4096"
  shows "\<exists>ss'. count_byte ss = Some ss' \<and> slots_ok m ss' \<and>
    ss' = ss\<lparr>sizes := (sizes ss)[nat (ss_head ss) := int (Suc k)]\<rparr>"
proof -
  have h: "0 \<le> ss_head ss" "ss_head ss < 100" "length (sizes ss) = 100" "m \<le> 100"
    using assms(1) by (auto simp: slots_ok_def)
  have "session_end ss = ss_head ss" using h assms(2) by (simp add: session_end_def)
  then have c: "count_byte ss = Some (ss\<lparr>sizes := (sizes ss)[nat (ss_head ss) := int (Suc k)]\<rparr>)"
    using h assms(4,5) by (simp add: count_byte_def array_get_def array_set_def add.commute)
  have "slots_ok m (ss\<lparr>sizes := (sizes ss)[nat (ss_head ss) := int (Suc k)]\<rparr>)"
  proof -
    have "nat (ss_head ss) \<noteq> (nat (ss_head ss) + i) mod 100" if "0 < i" "i < m" for i
      using h that by (intro slot_other) simp_all
    then show ?thesis using assms(1) by (auto simp: slots_ok_def)
  qed
  with c show ?thesis by blast
qed

lemma arrive_one:
  assumes "in_session 0 m off ws q s" "0 < m" "toggle s" "\<not> lock_held s" "b \<noteq> 0"
    and "length q < 64" "off + length ws + length q < 4096"
  shows "\<exists>t. (\<forall>es. port_run (send [b] @ es) s = port_run es t) \<and> in_session 0 m off ws (q @ [b]) t \<and>
    toggle t \<and> \<not> lock_held t \<and> scheduled t \<and> a2_kmem t = a2_kmem s \<and> a2_dev t = a2_dev s \<and>
    fin_reading t = fin_reading s"
proof -
  have v: "cbuf_ok (cbuf s)" "cbuf_contents (cbuf s) = q" "slots_ok m (sess s)" "ss_count (sess s) = 0"
    "sizes (sess s) ! nat (ss_head (sess s)) = int (length ws + length q)"
    using assms(1) by (simp_all add: in_session_def)
  have room: "cb_count (cbuf s) < 64" using cbuf_count [OF v(1)] v(2) assms(6) by simp
  obtain c where c: "cbuf_put b (cbuf s) = Some c" "cbuf_ok c" "cbuf_contents c = q @ [b]"
    using cbuf_put_contents [OF v(1) room, of b] v(2) by auto
  obtain ss where ss: "count_byte (sess s) = Some ss" "slots_ok m ss"
    "ss = (sess s)\<lparr>sizes := (sizes (sess s))[nat (ss_head (sess s)) := int (Suc (length ws + length q))]\<rparr>"
    using count_byte_Some [OF v(3,4) assms(2) v(5)] assms(7) by auto
  let ?t = "s\<lparr>top_full_byte := b, cbuf := c, sess := ss, scheduled := True\<rparr>"
  have "\<forall>es. port_run (send [b] @ es) s = port_run es ?t"
    using byte_arrives [OF assms(3), of b] assms(4,5) room c(1) ss(1) by (simp add: Let_def)
  moreover have "in_session 0 m off ws (q @ [b]) ?t"
    using assms(1,7) c(2,3) ss(2,3) by (auto simp: in_session_def slots_ok_def)
  ultimately show ?thesis using assms(3,4) by (intro exI [of _ ?t]) simp
qed

lemma arrive_all:
  assumes "in_session 0 m off ws q s" "0 < m" "toggle s" "\<not> lock_held s" "0 \<notin> set bs"
    and "length q + length bs \<le> 64" "off + length ws + length q + length bs \<le> 4096"
  shows "\<exists>t. (\<forall>es. port_run (send bs @ es) s = port_run es t) \<and> in_session 0 m off ws (q @ bs) t \<and>
    toggle t \<and> \<not> lock_held t \<and> (bs \<noteq> [] \<longrightarrow> scheduled t) \<and> (scheduled s \<longrightarrow> scheduled t) \<and>
    a2_kmem t = a2_kmem s \<and> a2_dev t = a2_dev s \<and> fin_reading t = fin_reading s"
  using assms
proof (induction bs arbitrary: q s)
  case Nil
  then show ?case by (intro exI [of _ s]) simp
next
  case (Cons b bs)
  obtain u where u: "\<forall>es. port_run (send [b] @ es) s = port_run es u" "in_session 0 m off ws (q @ [b]) u"
    "toggle u" "\<not> lock_held u" "scheduled u" "a2_kmem u = a2_kmem s" "a2_dev u = a2_dev s"
    "fin_reading u = fin_reading s"
    using arrive_one [OF Cons.prems(1-4), of b] Cons.prems(5-7) by auto
  obtain t where t: "\<forall>es. port_run (send bs @ es) u = port_run es t" "in_session 0 m off ws ((q @ [b]) @ bs) t"
    "toggle t" "\<not> lock_held t" "scheduled u \<longrightarrow> scheduled t" "a2_kmem t = a2_kmem u" "a2_dev t = a2_dev u"
    "fin_reading t = fin_reading u"
    using Cons.IH [OF u(2) Cons.prems(2) u(3,4)] Cons.prems(5-7) by auto
  have "port_run (send (b # bs) @ es) s = port_run es t" for es
    using u(1) [rule_format, of "send bs @ es"] t(1) by simp
  then show ?case using u(5-8) t(2-) by (intro exI [of _ t]) simp
qed

subsection \<open>The tasklet moves the bytes\<close>

lemma frames_ok_kmalloc [simp]: "frames_ok (snd (kmalloc k)) = frames_ok k"
  by (simp add: frames_ok_def)

lemma frames_ok_alloc_Some:
  "frames_ok k \<Longrightarrow> fst (alloc_page k) = Some p \<Longrightarrow> length (snd p) = 4096 \<and> frames_ok (snd (alloc_page k))"
  using alloc_page_Some [of k p] by (auto simp: frames_ok_def)

lemma take_drop_blit_snoc:
  assumes "off + length ws < length xs" "take (length ws) (drop off xs) = ws"
  shows "take (Suc (length ws)) (drop off (blit xs (off + length ws) [b])) = ws @ [b]"
proof -
  have "take off xs @ ws = take (off + length ws) xs"
    using assms(2) by (simp add: take_add)
  then have "blit xs (off + length ws) [b] = take off xs @ ws @ [b] @ drop (Suc (off + length ws)) xs"
    by (simp add: blit_def flip: append_assoc)
  then show ?thesis using assms(1) by simp
qed

lemma copy_byte_more:
  assumes "in_session n m off ws (b # q) s" "write_offset (sess s) \<noteq> 0"
  shows "\<exists>t. copy_byte s = Ok (True, t) \<and> in_session n m off (ws @ [b]) q t \<and> a2_kmem t = a2_kmem s \<and>
    toggle t = toggle s \<and> lock_held t = lock_held s \<and> scheduled t = scheduled s \<and>
    fin_reading t = fin_reading s \<and> nprocs (a2_dev t) = nprocs (a2_dev s) \<and>
    max_nprocs (a2_dev t) = max_nprocs (a2_dev s)"
proof -
  have v: "cbuf_ok (cbuf s)" "cbuf_contents (cbuf s) = b # q" "off < 4096"
    "write_offset (sess s) = int ((off + length ws) mod 4096)" "off + length ws < 4096"
    "pages_hold off ws (mem_list (a2_dev s))"
    using assms(1) by (auto simp: in_session_def)
  have w: "write_offset (sess s) = int (off + length ws)" "0 < off + length ws"
    using v(4,5) assms(2) by auto
  obtain c where c: "cbuf_take (cbuf s) = Some (b, c)" "cbuf_ok c" "cbuf_contents c = q"
    using cbuf_take_contents [OF v(1,2)] by auto
  obtain p where p: "mem_list (a2_dev s) = [p]" "length (frame p) = 4096"
    "take (length ws) (drop off (frame p)) = ws"
    using v(6) w(2) by (auto simp: pages_hold_def)
  let ?p = "p\<lparr>frame := blit (frame p) (off + length ws) [b]\<rparr>"
  have st: "store_first (mem_list (a2_dev s)) (write_offset (sess s)) b = Some [?p]"
    using p(1,2) v(5) w(1) by (simp add: store_first_def page_store_def nat_add_distrib)
  let ?d = "a2_dev s" and ?ss = "sess s"
  let ?t = "s\<lparr>cbuf := c, a2_dev := ?d\<lparr>mem_list := [?p], data_size := u32 (data_size ?d + 1)\<rparr>,
      sess := ?ss\<lparr>write_offset := u32 (write_offset ?ss + 1) mod 4096\<rparr>\<rparr>"
  have run: "copy_byte s = Ok (True, ?t)"
    using c(1) assms(2) st by (simp add: copy_byte_def store_byte_def stored_def)
  have "take (Suc (length ws)) (drop off (blit (frame p) (off + length ws) [b])) = ws @ [b]"
    using take_drop_blit_snoc [of off ws "frame p" b] p(2,3) v(5) by simp
  then have "pages_hold off (ws @ [b]) [?p]"
    using p(2) v(5) by (simp add: pages_hold_def)
  moreover have "u32 (write_offset ?ss + 1) mod 4096 = int ((off + length (ws @ [b])) mod 4096)"
    using w(1) v(5) by (simp add: of_nat_mod algebra_simps)
  ultimately have "in_session n m off (ws @ [b]) q ?t"
    using assms(1) c(2,3) by (simp add: in_session_def slots_ok_def)
  then show ?thesis using run by (intro exI [of _ ?t]) simp
qed

lemma copy_byte_new:
  assumes "in_session n m off ws (b # q) s" "write_offset (sess s) = 0" "mem_available 1 (a2_kmem s)"
  shows "\<exists>t. copy_byte s = Ok (True, t) \<and> in_session n m off (ws @ [b]) q t \<and>
    a2_kmem t = snd (alloc_page (snd (kmalloc (a2_kmem s)))) \<and>
    toggle t = toggle s \<and> lock_held t = lock_held s \<and> scheduled t = scheduled s \<and>
    fin_reading t = fin_reading s \<and> nprocs (a2_dev t) = nprocs (a2_dev s) \<and>
    max_nprocs (a2_dev t) = max_nprocs (a2_dev s)"
proof -
  have v: "cbuf_ok (cbuf s)" "cbuf_contents (cbuf s) = b # q" "frames_ok (a2_kmem s)"
    "write_offset (sess s) = int ((off + length ws) mod 4096)" "off + length ws < 4096"
    "pages_hold off ws (mem_list (a2_dev s))"
    using assms(1) by (auto simp: in_session_def)
  have "int (off + length ws) = 0" using v(4,5) assms(2) by (simp del: of_nat_add)
  then have "off + length ws = 0" by linarith
  then have w: "off = 0" "ws = []" "mem_list (a2_dev s) = []"
    using v(6) by (simp_all add: pages_hold_def)
  obtain c where c: "cbuf_take (cbuf s) = Some (b, c)" "cbuf_ok c" "cbuf_contents c = q"
    using cbuf_take_contents [OF v(1,2)] by auto
  let ?k = "snd (kmalloc (a2_kmem s))"
  obtain f bs where al: "fst (kmalloc (a2_kmem s))" "fst (alloc_page ?k) = Some (f, bs)"
    using mem_available_Suc(1,2) [of 0 "a2_kmem s"] assms(3) by auto
  have k: "length bs = 4096" "frames_ok (snd (alloc_page ?k))"
    using frames_ok_alloc_Some [of ?k "(f, bs)"] v(3) al(2) by simp_all
  let ?p = "\<lparr>pfn = f, frame = blit bs 0 [b]\<rparr>" and ?d = "a2_dev s" and ?ss = "sess s"
  let ?t = "s\<lparr>cbuf := c, a2_kmem := snd (alloc_page ?k),
      a2_dev := ?d\<lparr>num_pages := s32 (num_pages ?d + 1), mem_list := [?p], data_size := u32 (data_size ?d + 1)\<rparr>,
      sess := ?ss\<lparr>write_offset := 1\<rparr>\<rparr>"
  have "store_last (list_add_tail \<lparr>pfn = f, frame = bs\<rparr> []) 0 b = Some [?p]"
    using k(1) by (simp add: store_last_def list_add_tail_def page_store_def)
  then have run: "copy_byte s = Ok (True, ?t)"
    using c(1) assms(2) al w(3) by (simp add: copy_byte_def store_byte_def stored_def case_prod_beta prod_eq_iff Let_def)
  have "take 1 (blit bs 0 [b]) = [b]" by (simp add: blit_def)
  then have "pages_hold off (ws @ [b]) [?p]" using k(1) w by (simp add: pages_hold_def)
  then have "in_session n m off (ws @ [b]) q ?t"
    using assms(1) c(2,3) k(2) w(1,2) by (simp add: in_session_def slots_ok_def)
  then show ?thesis using run by (intro exI [of _ ?t]) simp
qed

text \<open>The pages that are still to be had: \<open>j\<close>, and one for a session that has no page yet.\<close>

definition stock :: "nat \<Rightarrow> nat \<Rightarrow> byte list \<Rightarrow> asgn2_state \<Rightarrow> bool" where
  "stock j off ws s \<longleftrightarrow> mem_available (if off + length ws = 0 then Suc j else j) (a2_kmem s)"

lemma copy_byte_session:
  assumes "in_session n m off ws (b # q) s" "stock j off ws s"
  shows "\<exists>t. copy_byte s = Ok (True, t) \<and> in_session n m off (ws @ [b]) q t \<and> stock j off (ws @ [b]) t \<and>
    toggle t = toggle s \<and> lock_held t = lock_held s \<and> scheduled t = scheduled s \<and>
    fin_reading t = fin_reading s \<and> nprocs (a2_dev t) = nprocs (a2_dev s) \<and>
    max_nprocs (a2_dev t) = max_nprocs (a2_dev s)"
proof (cases "off + length ws = 0")
  case True
  then have w: "write_offset (sess s) = 0" and a: "mem_available (Suc j) (a2_kmem s)"
    using assms by (simp_all add: in_session_def stock_def)
  have "mem_available j (snd (alloc_page (snd (kmalloc (a2_kmem s)))))"
    using mem_available_Suc(3) [OF a] .
  then show ?thesis
    using copy_byte_new [OF assms(1) w] mem_available_mono [OF a, of 1] by (auto simp: stock_def)
next
  case False
  have "write_offset (sess s) = int (off + length ws)"
    using assms(1) by (simp add: in_session_def del: of_nat_add)
  then have "write_offset (sess s) \<noteq> 0" and "mem_available j (a2_kmem s)"
    using False assms(2) by (auto simp: stock_def simp del: of_nat_add)
  then show ?thesis using copy_byte_more [OF assms(1)] by (auto simp: stock_def)
qed

lemma copy_loop_session:
  assumes "in_session n m off ws q s" "stock j off ws s"
  shows "\<exists>t. copy_loop s = Ok (True, t) \<and> in_session n m off (ws @ q) [] t \<and> stock j off (ws @ q) t \<and>
    toggle t = toggle s \<and> lock_held t = lock_held s \<and> scheduled t = scheduled s \<and>
    fin_reading t = fin_reading s \<and> nprocs (a2_dev t) = nprocs (a2_dev s) \<and>
    max_nprocs (a2_dev t) = max_nprocs (a2_dev s)"
  using assms
proof (induction q arbitrary: ws s)
  case Nil
  then have "cb_count (cbuf s) = 0"
    using cbuf_count [of "cbuf s"] by (auto simp: in_session_def)
  then show ?case using Nil by (intro exI [of _ s]) (simp add: copy_loop.simps [of s])
next
  case (Cons b q)
  have o: "cbuf_ok (cbuf s)" "cbuf_contents (cbuf s) = b # q"
    using Cons.prems(1) by (simp_all add: in_session_def)
  have "cb_count (cbuf s) = int (length (b # q))" using cbuf_count [OF o(1)] unfolding o(2) .
  then have c: "s32 (cb_count (cbuf s)) \<noteq> 0" using o(1) by (simp add: cbuf_ok_def)
  obtain u where u: "copy_byte s = Ok (True, u)" "in_session n m off (ws @ [b]) q u" "stock j off (ws @ [b]) u"
    "toggle u = toggle s" "lock_held u = lock_held s" "scheduled u = scheduled s"
    "fin_reading u = fin_reading s" "nprocs (a2_dev u) = nprocs (a2_dev s)"
    "max_nprocs (a2_dev u) = max_nprocs (a2_dev s)"
    using copy_byte_session [OF Cons.prems] by auto
  then show ?case using Cons.IH [OF u(2,3)] c by (auto simp: copy_loop.simps [of s])
qed

lemma softirq_session:
  assumes "in_session n m off ws q s" "stock j off ws s" "\<not> lock_held s" "q \<noteq> [] \<longrightarrow> scheduled s"
  shows "\<exists>t. softirq s = Ok t \<and> in_session n m off (ws @ q) [] t \<and> stock j off (ws @ q) t \<and>
    toggle t = toggle s \<and> \<not> lock_held t \<and>
    fin_reading t = fin_reading s \<and> nprocs (a2_dev t) = nprocs (a2_dev s) \<and>
    max_nprocs (a2_dev t) = max_nprocs (a2_dev s)"
proof (cases "scheduled s")
  case True
  let ?s = "s\<lparr>lock_held := True, scheduled := False\<rparr>"
  have "in_session n m off ws q ?s" "stock j off ws ?s" using assms(1,2) by (simp_all add: stock_def)
  from copy_loop_session [OF this] obtain u where u:
    "copy_loop ?s = Ok (True, u)" "in_session n m off (ws @ q) [] u" "stock j off (ws @ q) u"
    "toggle u = toggle s" "fin_reading u = fin_reading s" "nprocs (a2_dev u) = nprocs (a2_dev s)"
    "max_nprocs (a2_dev u) = max_nprocs (a2_dev s)"
    by auto
  then have "softirq s = Ok (u\<lparr>lock_held := False\<rparr>)"
    using True assms(3) by (simp add: softirq_def tasklet_copy_def)
  then show ?thesis using u by (intro exI [of _ "u\<lparr>lock_held := False\<rparr>"]) (simp add: stock_def)
next
  case False
  then show ?thesis using assms by (intro exI [of _ s]) (simp add: softirq_def)
qed

subsection \<open>A session arrives\<close>

text \<open>
  The bytes of a session come in chunks; the tasklet runs after each chunk, and after the
  zero byte that closes the session.
\<close>

definition send_chunk :: "byte list \<Rightarrow> port_event list" where
  "send_chunk c = send c @ [Softirq]"

definition send_session :: "byte list list \<Rightarrow> port_event list" where
  "send_session cs = concat (map send_chunk cs) @ send [0] @ [Softirq]"

lemma chunk_session:
  assumes "in_session 0 m off ws [] s" "stock j off ws s" "0 < m" "toggle s" "\<not> lock_held s"
    and "0 \<notin> set c" "length c \<le> 64" "off + length ws + length c \<le> 4096"
  shows "\<exists>t. (\<forall>es. port_run (send_chunk c @ es) s = port_run es t) \<and> in_session 0 m off (ws @ c) [] t \<and>
    stock j off (ws @ c) t \<and> toggle t \<and> \<not> lock_held t \<and> fin_reading t = fin_reading s \<and>
    nprocs (a2_dev t) = nprocs (a2_dev s) \<and> max_nprocs (a2_dev t) = max_nprocs (a2_dev s)"
proof -
  obtain u where u: "\<forall>es. port_run (send c @ es) s = port_run es u" "in_session 0 m off ws ([] @ c) u"
    "toggle u" "\<not> lock_held u" "c \<noteq> [] \<longrightarrow> scheduled u" "a2_kmem u = a2_kmem s" "a2_dev u = a2_dev s"
    "fin_reading u = fin_reading s"
    using arrive_all [OF assms(1,3-6)] assms(7,8) by auto
  have "in_session 0 m off ws c u" "stock j off ws u" using u(2,6) assms(2) by (simp_all add: stock_def)
  from softirq_session [OF this u(4,5)] show ?thesis
    using u by (auto simp: send_chunk_def)
qed

lemma chunks_session:
  assumes "in_session 0 m off ws [] s" "stock j off ws s" "0 < m" "toggle s" "\<not> lock_held s"
    and "\<forall>c \<in> set cs. 0 \<notin> set c \<and> length c \<le> 64" "off + length ws + length (concat cs) \<le> 4096"
  shows "\<exists>t. (\<forall>es. port_run (concat (map send_chunk cs) @ es) s = port_run es t) \<and>
    in_session 0 m off (ws @ concat cs) [] t \<and> stock j off (ws @ concat cs) t \<and> toggle t \<and> \<not> lock_held t \<and>
    fin_reading t = fin_reading s \<and>
    nprocs (a2_dev t) = nprocs (a2_dev s) \<and> max_nprocs (a2_dev t) = max_nprocs (a2_dev s)"
  using assms
proof (induction cs arbitrary: ws s)
  case Nil
  then show ?case by (intro exI [of _ s]) simp
next
  case (Cons c cs)
  obtain u where u: "\<forall>es. port_run (send_chunk c @ es) s = port_run es u" "in_session 0 m off (ws @ c) [] u"
    "stock j off (ws @ c) u" "toggle u" "\<not> lock_held u" "fin_reading u = fin_reading s"
    "nprocs (a2_dev u) = nprocs (a2_dev s)" "max_nprocs (a2_dev u) = max_nprocs (a2_dev s)"
    using chunk_session [OF Cons.prems(1-5), of c] Cons.prems(6,7) by auto
  from Cons.IH [OF u(2,3) Cons.prems(3) u(4,5)] Cons.prems(6,7)
  obtain t where "\<forall>es. port_run (concat (map send_chunk cs) @ es) u = port_run es t"
    "in_session 0 m off ((ws @ c) @ concat cs) [] t" "stock j off ((ws @ c) @ concat cs) t" "toggle t"
    "\<not> lock_held t" "fin_reading t = fin_reading u"
    "nprocs (a2_dev t) = nprocs (a2_dev u)" "max_nprocs (a2_dev t) = max_nprocs (a2_dev u)"
    by auto
  then show ?case using u by (intro exI [of _ t]) simp
qed

text \<open>The zero byte closes the session, and the tasklet that it schedules wakes up readers.\<close>

lemma session_closes:
  assumes "in_session 0 m off ws [] u" "stock j off ws u" "toggle u" "\<not> lock_held u"
  shows "\<exists>v t. (\<forall>es. port_run (send [0] @ es) u = port_run es v) \<and> scheduled v \<and> softirq v = Ok t \<and>
    in_session 1 m off ws [] t \<and> stock j off ws t \<and> toggle t \<and> \<not> lock_held t \<and>
    fin_reading t = fin_reading u \<and> nprocs (a2_dev t) = nprocs (a2_dev u) \<and>
    max_nprocs (a2_dev t) = max_nprocs (a2_dev u)"
proof -
  let ?v = "u\<lparr>top_full_byte := 0, sess := (sess u)\<lparr>ss_count := s32 (ss_count (sess u) + 1)\<rparr>, scheduled := True\<rparr>"
  have "\<forall>es. port_run (send [0] @ es) u = port_run es ?v"
    using byte_arrives [OF assms(3), of 0] assms(4) by (simp add: Let_def)
  moreover have v: "in_session 1 m off ws [] ?v" "stock j off ws ?v"
    using assms(1,2) by (simp_all add: in_session_def slots_ok_def stock_def)
  moreover have "\<not> lock_held ?v" "([] :: byte list) \<noteq> [] \<longrightarrow> scheduled ?v" using assms(4) by simp_all
  from softirq_session [OF v this] obtain t where "softirq ?v = Ok t" "in_session 1 m off ws [] t"
    "stock j off ws t" "toggle t = toggle ?v" "\<not> lock_held t" "fin_reading t = fin_reading ?v"
    "nprocs (a2_dev t) = nprocs (a2_dev ?v)" "max_nprocs (a2_dev t) = max_nprocs (a2_dev ?v)"
    by auto
  ultimately show ?thesis using assms(3) by (intro exI [of _ ?v] exI [of _ t]) simp
qed

lemma session_continues:
  assumes "in_session 0 m off ws [] s" "stock j off ws s" "0 < m" "toggle s" "\<not> lock_held s"
    and "\<forall>c \<in> set cs. 0 \<notin> set c \<and> length c \<le> 64" "off + length ws + length (concat cs) \<le> 4096"
  shows "\<exists>t. port_run (send_session cs) s = Ok t \<and> in_session 1 m off (ws @ concat cs) [] t \<and>
    stock j off (ws @ concat cs) t \<and> toggle t \<and> \<not> lock_held t \<and> fin_reading t = fin_reading s \<and>
    nprocs (a2_dev t) = nprocs (a2_dev s) \<and> max_nprocs (a2_dev t) = max_nprocs (a2_dev s)"
proof -
  obtain u where u: "\<forall>es. port_run (concat (map send_chunk cs) @ es) s = port_run es u"
    "in_session 0 m off (ws @ concat cs) [] u" "stock j off (ws @ concat cs) u" "toggle u" "\<not> lock_held u"
    "fin_reading u = fin_reading s" "nprocs (a2_dev u) = nprocs (a2_dev s)" "max_nprocs (a2_dev u) = max_nprocs (a2_dev s)"
    using chunks_session [OF assms] by auto
  from session_closes [OF u(2-5)] obtain v t where "\<forall>es. port_run (send [0] @ es) u = port_run es v"
    "softirq v = Ok t" "in_session 1 m off (ws @ concat cs) [] t" "stock j off (ws @ concat cs) t" "toggle t"
    "\<not> lock_held t" "fin_reading t = fin_reading u" "nprocs (a2_dev t) = nprocs (a2_dev u)"
    "max_nprocs (a2_dev t) = max_nprocs (a2_dev u)"
    by auto
  then show ?thesis using u by (intro exI [of _ t]) (simp add: send_session_def del: send_simps)
qed

lemmas session_arrives = session_continues [where ws = "[]", simplified]

subsection \<open>The reader takes the session\<close>

text \<open>One round of the loop that reads \<open>n\<close> bytes, without a fault.\<close>

lemma read_round:
  assumes "no_fault ua" "0 \<le> bo" "0 \<le> n" "bo + n \<le> 4096" "length (frame p) = 4096"
    and "total_to_read = n" "n < 4096 \<or> actual = n" "read_offset (sess s) = bo"
  shows "asgn2_read_pages ua total_to_read actual bo (- 1) 0 0 (p # ps) s =
    (let s' = s\<lparr>sess := (sess s)\<lparr>read_offset := (bo + n) mod 4096\<rparr>\<rparr>
     in Ok (True, n, take (nat n) (drop (nat bo) (frame p)),
            (if (bo + n) mod 4096 = 0 then drop_page p s' else s')\<lparr>fin_reading := True\<rparr>))"
proof -
  have src: "page_bytes (frame p) bo n = Some (take (nat n) (drop (nat bo) (frame p)))"
    using assms by (simp add: page_bytes_def)
  have len: "int (length (take (nat n) (drop (nat bo) (frame p)))) = n"
    using assms by simp
  note full = copy_to_user_full [OF assms(1,3) len]
  have size: "u32 (u32 (4096 - bo) - u32 (4096 - u32 (n + bo))) = n" using assms by simp
  show ?thesis
  proof (cases "n < 4096")
    case True
    then show ?thesis
      using assms src full size
      by (simp add: Let_def drop_page_def del: u32_id) (simp add: Let_def drop_page_def)
  next
    case False
    then have "n = 4096" "bo = 0" "actual = n" using assms by simp_all
    then show ?thesis
      using assms src full by (simp add: Let_def drop_page_def)
  qed
qed

lemma mem_available_free_page [simp]: "mem_available n (free_page k) = mem_available n k"
  by (simp add: mem_available_def free_page_def)

lemma frames_ok_free_page [simp]: "frames_ok (free_page k) = frames_ok k"
  by (simp add: frames_ok_def supplied_def free_page_def)

lemma slots_next:
  assumes "slots_ok m ss" "1 < m" "h = (ss_head ss + 1) mod 100"
  shows "slots_ok (m - 1) (ss\<lparr>ss_head := h\<rparr>)" and "sizes ss ! nat h = 0"
proof -
  have h: "0 \<le> ss_head ss" using assms(1) by (simp add: slots_ok_def)
  have n: "nat h = (nat (ss_head ss) + 1) mod 100"
    using assms(3) h by (simp add: nat_mod_distrib nat_add_distrib)
  show "sizes ss ! nat h = 0" using assms(1,2) unfolding slots_ok_def n by (metis zero_less_one)
  have "(nat h + i) mod 100 = (nat (ss_head ss) + Suc i) mod 100" for i
    unfolding n by (simp add: mod_add_left_eq mod_Suc_eq)
  moreover have "sizes ss ! ((nat (ss_head ss) + Suc i) mod 100) = 0" if "i < m - 1" for i
    using assms(1,2) that unfolding slots_ok_def by (metis less_diff_conv Suc_eq_plus1 zero_less_Suc)
  ultimately have "\<forall>i. 0 < i \<and> i < m - 1 \<longrightarrow> sizes ss ! ((nat h + i) mod 100) = 0" by simp
  then show "slots_ok (m - 1) (ss\<lparr>ss_head := h\<rparr>)"
    using assms by (auto simp: slots_ok_def)
qed

lemma asgn2_read_ready:
  assumes "\<not> fin_reading s" "0 < ss_count (sess s)" "ss_count (sess s) < 2147483648"
    and "0 \<le> ss_head (sess s)" "ss_head (sess s) < int (length (sizes (sess s)))" "ss_head (sess s) < 100"
    and "asgn2_read_pages ua (sizes (sess s) ! nat (ss_head (sess s)))
      (min count (sizes (sess s) ! nat (ss_head (sess s)))) (read_offset (sess s)) (- 1) 0 0 (mem_list (a2_dev s))
      (s\<lparr>sess := (sess s)\<lparr>ss_head := (ss_head (sess s) + 1) mod 100, ss_count := ss_count (sess s) - 1\<rparr>\<rparr>) =
        Ok (True, n, out, t)"
    and "0 \<le> n" "n < 2147483648"
  shows "asgn2_read ua waited s count pos = Ok (n, out, s64 (pos + n), t)"
  using assms by (simp add: asgn2_read_def Let_def array_get_def)

text \<open>The state after the session, as a session that has not begun.\<close>

definition after_read :: "byte list \<Rightarrow> asgn2_state \<Rightarrow> asgn2_state" where
  "after_read ws s =
     (let s1 = s\<lparr>sess := (sess s)\<lparr>ss_head := (ss_head (sess s) + 1) mod 100, ss_count := ss_count (sess s) - 1,
                    read_offset := (read_offset (sess s) + int (length ws)) mod 4096\<rparr>\<rparr>
      in case mem_list (a2_dev s) of
           [] \<Rightarrow> s1
         | p # ps \<Rightarrow>
             (if read_offset (sess s1) = 0 then drop_page p s1 else s1)\<lparr>fin_reading := True\<rparr>)"

lemma after_read_frame:
  "toggle (after_read ws s) = toggle s \<and> lock_held (after_read ws s) = lock_held s \<and>
   mem_available n (a2_kmem (after_read ws s)) = mem_available n (a2_kmem s) \<and>
   nprocs (a2_dev (after_read ws s)) = nprocs (a2_dev s) \<and>
   max_nprocs (a2_dev (after_read ws s)) = max_nprocs (a2_dev s)"
  by (simp add: after_read_def Let_def drop_page_def split: list.split)

lemma after_read_session:
  assumes "in_session 1 m off ws [] s" "1 < m"
  shows "in_session 0 (m - 1) ((off + length ws) mod 4096) [] [] (after_read ws s)"
proof -
  let ?ss = "sess s" and ?o = "(off + length ws) mod 4096"
  define h where "h = (ss_head ?ss + 1) mod 100"
  have v: "slots_ok m ?ss" "read_offset ?ss = int off" "off < 4096" "off + length ws \<le> 4096"
    "write_offset ?ss = int ?o" "ss_count ?ss = 1" "cbuf_ok (cbuf s)" "cbuf_contents (cbuf s) = []"
    "pages_hold off ws (mem_list (a2_dev s))" "frames_ok (a2_kmem s)"
    using assms(1) by (simp_all add: in_session_def)
  have o: "(read_offset ?ss + int (length ws)) mod 4096 = int ?o"
    using v(2) by (simp add: of_nat_mod)
  define ss' where "ss' = ?ss\<lparr>ss_head := h, ss_count := 0, read_offset := int ?o\<rparr>"
  have ss': "slots_ok (m - 1) ss'" "sizes ss' ! nat (ss_head ss') = 0" "ss_count ss' = 0"
    "read_offset ss' = int ?o" "write_offset ss' = int ?o"
    using slots_next [OF v(1) assms(2) h_def] v(5) by (simp_all add: ss'_def slots_ok_def)
  have sess: "sess (after_read ws s) = ss'"
    using o v(6) by (simp add: after_read_def Let_def drop_page_def ss'_def h_def split: list.split)
  have cbuf: "cbuf (after_read ws s) = cbuf s"
    by (simp add: after_read_def Let_def drop_page_def split: list.split)
  have km: "frames_ok (a2_kmem (after_read ws s))"
    using v(10) by (simp add: after_read_def Let_def drop_page_def split: list.split)
  have "pages_hold ?o [] (mem_list (a2_dev (after_read ws s)))"
  proof (cases "off + length ws = 0")
    case True
    then show ?thesis using v(9) by (simp add: pages_hold_def after_read_def Let_def)
  next
    case False
    then obtain p where p: "mem_list (a2_dev s) = [p]" "length (frame p) = 4096"
      using v(9) by (auto simp: pages_hold_def)
    then show ?thesis
      using o by (simp add: after_read_def Let_def drop_page_def pages_hold_def list_del_def)
  qed
  then show ?thesis
    using ss' cbuf km v(7,8) by (simp add: in_session_def sess)
qed

text \<open>A read of the oldest session, whatever lies behind it in the page and in the tracker.\<close>

lemma read_first:
  assumes "\<not> fin_reading s" "0 < ss_count (sess s)" "ss_count (sess s) < 2147483648"
    and "0 \<le> ss_head (sess s)" "ss_head (sess s) < 100" "length (sizes (sess s)) = 100"
    and "sizes (sess s) ! nat (ss_head (sess s)) = int (length ws)" "read_offset (sess s) = int off"
    and "off < 4096" "off + length ws \<le> 4096" "no_fault ua" "length ws < 4096 \<or> int (length ws) \<le> count"
    and "mem_list (a2_dev s) = [] \<and> off = 0 \<and> ws = [] \<or>
      (\<exists>p. mem_list (a2_dev s) = [p] \<and> length (frame p) = 4096 \<and> take (length ws) (drop off (frame p)) = ws)"
  shows "asgn2_read ua waited s count pos =
    Ok (int (length ws), ws, s64 (pos + int (length ws)), after_read ws s)"
proof -
  let ?ss = "sess s"
  let ?s1 = "s\<lparr>sess := ?ss\<lparr>ss_head := (ss_head ?ss + 1) mod 100, ss_count := ss_count ?ss - 1\<rparr>\<rparr>"
  have "asgn2_read_pages ua (int (length ws)) (min count (int (length ws))) (int off) (- 1) 0 0
      (mem_list (a2_dev s)) ?s1 = Ok (True, int (length ws), ws, after_read ws s)"
    using assms(13)
  proof
    assume "mem_list (a2_dev s) = [] \<and> off = 0 \<and> ws = []"
    then show ?thesis using assms(8) by (simp add: after_read_def Let_def)
  next
    assume "\<exists>p. mem_list (a2_dev s) = [p] \<and> length (frame p) = 4096 \<and> take (length ws) (drop off (frame p)) = ws"
    then obtain p where p: "mem_list (a2_dev s) = [p]" "length (frame p) = 4096"
      "take (length ws) (drop off (frame p)) = ws"
      by auto
    from read_round [OF assms(11), of "int off" "int (length ws)" p "int (length ws)"
        "min count (int (length ws))" ?s1 "[]"] show ?thesis
      using p assms(8,10,12) by (auto simp: after_read_def Let_def simp del: asgn2_read_pages.simps)
  qed
  then show ?thesis
    using assms(5-8,10) by (intro asgn2_read_ready [OF assms(1-4)]) simp_all
qed

lemma read_session:
  assumes "in_session 1 m off ws [] s" "\<not> fin_reading s" "no_fault ua" "length ws < 4096 \<or> int (length ws) \<le> count"
  shows "asgn2_read ua waited s count pos =
    Ok (int (length ws), ws, s64 (pos + int (length ws)), after_read ws s)"
  using assms by (intro read_first [where off = off]) (auto simp: in_session_def slots_ok_def pages_hold_def split: if_splits)

end
