(* ===== verification/Asgn2_Serve.thy ===== *)
theory Asgn2_Serve
  imports Asgn2_Spec
begin

section \<open>Sessions served one after the other\<close>

text \<open>
  The driver at work: sessions arrive at the port and a reader opens the device, reads and
  closes it, in turn. The theory also interprets the admission contract on the driver's
  \<open>open\<close> and \<open>release\<close>.
\<close>

text \<open>The state that \<open>asgn2_init_module\<close> leaves.\<close>

definition asgn2_initial :: "kmem \<Rightarrow> asgn2_state" where
  "asgn2_initial k =
     \<lparr>a2_kmem = k,
      a2_dev = \<lparr>mem_list = [], num_pages = 0, data_size = 0, nprocs = 0, max_nprocs = 1\<rparr>,
      cbuf = \<lparr>cb_head = 0, cb_count = 0, cb_buffer = replicate 64 0\<rparr>,
      sess = \<lparr>ss_head = 0, ss_count = 0, read_offset = 0, write_offset = 0, sizes = replicate 100 0\<rparr>,
      toggle = True, top_full_byte = 0, fin_reading = False, lock_held = False, scheduled = False\<rparr>"

lemma asgn2_initial_fields [simp]:
  "a2_kmem (asgn2_initial k) = k" "nprocs (a2_dev (asgn2_initial k)) = 0"
  "max_nprocs (a2_dev (asgn2_initial k)) = 1" "toggle (asgn2_initial k)" "\<not> lock_held (asgn2_initial k)"
  "\<not> fin_reading (asgn2_initial k)"
  by (simp_all add: asgn2_initial_def)

lemma in_session_initial: "frames_ok k \<Longrightarrow> in_session 0 100 0 [] [] (asgn2_initial k)"
  by (simp add: asgn2_initial_def in_session_def cbuf_ok_def cbuf_contents_def slots_ok_def pages_hold_def)

definition open_read_release :: "uaccess \<Rightarrow> int \<Rightarrow> asgn2_state \<Rightarrow> (int \<times> byte list \<times> asgn2_state) exec" where
  "open_read_release ua count s =
     (let (r, s) = asgn2_open s O_RDONLY
      in if r < 0 then Ok (r, [], s)
         else (case asgn2_read ua id s count 0 of
                 Ok (n, out, pos, t) \<Rightarrow> Ok (n, out, snd (asgn2_release t))
               | Spins \<Rightarrow> Spins
               | Fault \<Rightarrow> Fault))"

fun serve :: "uaccess \<Rightarrow> int \<Rightarrow> byte list list list \<Rightarrow> asgn2_state \<Rightarrow> ((int \<times> byte list) list \<times> asgn2_state) exec" where
  "serve ua count [] s = Ok ([], s)"
| "serve ua count (cs # css) s =
     (case port_run (send_session cs) s of
        Ok s1 \<Rightarrow>
          (case open_read_release ua count s1 of
             Ok (n, out, s2) \<Rightarrow>
               (case serve ua count css s2 of
                  Ok (outs, t) \<Rightarrow> Ok ((n, out) # outs, t)
                | Spins \<Rightarrow> Spins
                | Fault \<Rightarrow> Fault)
           | Spins \<Rightarrow> Spins
           | Fault \<Rightarrow> Fault)
      | Spins \<Rightarrow> Spins
      | Fault \<Rightarrow> Fault)"

text \<open>No session lies across the end of a page.\<close>

fun within_pages :: "nat \<Rightarrow> nat list \<Rightarrow> bool" where
  "within_pages off [] = True"
| "within_pages off (n # ns) = (off + n \<le> 4096 \<and> within_pages ((off + n) mod 4096) ns)"

lemma stock_mono: "mem_available (Suc j) (a2_kmem s) \<Longrightarrow> stock j off ws s"
  by (auto simp: stock_def intro: mem_available_mono)

lemma serve_one:
  assumes "in_session 0 m off [] [] s" "0 < m" "toggle s" "\<not> lock_held s"
    and "mem_available (Suc j) (a2_kmem s)" "no_fault ua" "4096 \<le> count"
    and "0 \<le> nprocs (a2_dev s)" "nprocs (a2_dev s) < max_nprocs (a2_dev s)" "max_nprocs (a2_dev s) < 2147483648"
    and "\<forall>c \<in> set cs. 0 \<notin> set c \<and> length c \<le> 64" "off + length (concat cs) \<le> 4096"
  shows "\<exists>s1 t. port_run (send_session cs) s = Ok s1 \<and>
    open_read_release ua count s1 = Ok (int (length (concat cs)), concat cs, t) \<and>
    (1 < m \<longrightarrow> in_session 0 (m - 1) ((off + length (concat cs)) mod 4096) [] [] t) \<and>
    toggle t \<and> \<not> lock_held t \<and> mem_available j (a2_kmem t) \<and>
    nprocs (a2_dev t) = nprocs (a2_dev s) \<and> max_nprocs (a2_dev t) = max_nprocs (a2_dev s)"
proof -
  let ?ws = "concat cs"
  obtain s1 where s1: "port_run (send_session cs) s = Ok s1" "in_session 1 m off ?ws [] s1"
    "stock j off ?ws s1" "toggle s1" "\<not> lock_held s1"
    "nprocs (a2_dev s1) = nprocs (a2_dev s)" "max_nprocs (a2_dev s1) = max_nprocs (a2_dev s)"
    using session_arrives [OF assms(1) stock_mono [OF assms(5)] assms(2-4) assms(11,12)] by auto
  define s2 where "s2 = s1\<lparr>fin_reading := False, a2_dev := (a2_dev s1)\<lparr>nprocs := nprocs (a2_dev s) + 1\<rparr>\<rparr>"
  have op: "asgn2_open s1 O_RDONLY = (0, s2)"
    using assms(8-10) s1(6,7) by (simp add: asgn2_open_def s2_def)
  have s2: "in_session 1 m off ?ws [] s2" "\<not> fin_reading s2"
    using s1(2) by (simp_all add: s2_def in_session_def)
  define t where "t = snd (asgn2_release (after_read ?ws s2))"
  have "length ?ws \<le> 4096" using assms(12) by simp
  then have rd: "asgn2_read ua id s2 count 0 = Ok (int (length ?ws), ?ws, int (length ?ws), after_read ?ws s2)"
    using read_session [OF s2 assms(6)] assms(7) by simp
  have "open_read_release ua count s1 = Ok (int (length ?ws), ?ws, t)"
    using op rd by (simp add: open_read_release_def t_def)
  moreover have "in_session 0 (m - 1) ((off + length ?ws) mod 4096) [] [] t" if "1 < m"
    using after_read_session [OF s2(1) that] by (simp add: t_def asgn2_release_def in_session_def)
  moreover have "mem_available j (a2_kmem t)"
    using s1(3) after_read_frame [of ?ws s2 j]
    by (auto simp: t_def s2_def asgn2_release_def stock_def intro: mem_available_mono split: if_splits)
  moreover have "nprocs (a2_dev t) = nprocs (a2_dev s)"
    using after_read_frame [of ?ws s2] assms(8-10) by (simp add: t_def s2_def asgn2_release_def)
  moreover have "toggle t" "\<not> lock_held t" "max_nprocs (a2_dev t) = max_nprocs (a2_dev s)"
    using after_read_frame [of ?ws s2] s1(4,5,7) by (simp_all add: t_def s2_def asgn2_release_def)
  ultimately show ?thesis using s1(1) by blast
qed

text \<open>
  From a state without unread bytes, every session that arrives is read back whole, in
  order, by one open, read and close each, as long as no session lies across a page end.
\<close>

lemma asgn2_serves_sessions:
  assumes "in_session 0 m off [] [] s" "length css \<le> m" "toggle s" "\<not> lock_held s"
    and "mem_available (length css) (a2_kmem s)" "no_fault ua" "4096 \<le> count"
    and "0 \<le> nprocs (a2_dev s)" "nprocs (a2_dev s) < max_nprocs (a2_dev s)" "max_nprocs (a2_dev s) < 2147483648"
    and "\<forall>cs \<in> set css. \<forall>c \<in> set cs. 0 \<notin> set c \<and> length c \<le> 64"
    and "within_pages off (map (\<lambda>cs. length (concat cs)) css)"
  shows "\<exists>t. serve ua count css s = Ok (map (\<lambda>cs. (int (length (concat cs)), concat cs)) css, t)"
  using assms
proof (induction css arbitrary: s m off)
  case Nil
  then show ?case by simp
next
  case (Cons cs css)
  obtain s1 s2 where s: "port_run (send_session cs) s = Ok s1"
    "open_read_release ua count s1 = Ok (int (length (concat cs)), concat cs, s2)"
    "1 < m \<longrightarrow> in_session 0 (m - 1) ((off + length (concat cs)) mod 4096) [] [] s2"
    "toggle s2" "\<not> lock_held s2" "mem_available (length css) (a2_kmem s2)"
    "nprocs (a2_dev s2) = nprocs (a2_dev s)" "max_nprocs (a2_dev s2) = max_nprocs (a2_dev s)"
    using serve_one [OF Cons.prems(1) _ Cons.prems(3,4) _ Cons.prems(6-10), of "length css" cs]
      Cons.prems(2,5,11,12) by auto
  have "\<exists>t. serve ua count css s2 = Ok (map (\<lambda>cs. (int (length (concat cs)), concat cs)) css, t)"
  proof (cases "css = []")
    case True
    then show ?thesis by simp
  next
    case False
    then have "0 < length css" by simp
    moreover have "Suc (length css) \<le> m" using Cons.prems(2) by simp
    ultimately have "1 < m" "length css \<le> m - 1" by linarith+
    note m = this
    have in2: "in_session 0 (m - 1) ((off + length (concat cs)) mod 4096) [] [] s2" using s(3) m(1) by blast
    have np: "0 \<le> nprocs (a2_dev s2)" "nprocs (a2_dev s2) < max_nprocs (a2_dev s2)"
      "max_nprocs (a2_dev s2) < 2147483648"
      using s(7,8) Cons.prems(8-10) by simp_all
    have chunks: "\<forall>cs \<in> set css. \<forall>c \<in> set cs. 0 \<notin> set c \<and> length c \<le> 64"
      using Cons.prems(11) by simp
    have "within_pages ((off + length (concat cs)) mod 4096) (map (\<lambda>cs. length (concat cs)) css)"
      using Cons.prems(12) by simp
    from Cons.IH [OF in2 m(2) s(4-6) Cons.prems(6,7) np chunks this] show ?thesis .
  qed
  then show ?case using s(1,2) by auto
qed

lemma frames_ok_clean: "frames_ok (clean_kmem n)"
  by (simp add: frames_ok_def supplied_clean)

subsection \<open>Admission\<close>

interpretation port_users: admission "\<lambda>s. nprocs (a2_dev s)" "\<lambda>s. max_nprocs (a2_dev s)"
  "\<lambda>s. let (r, t) = asgn2_open s O_RDONLY in (r = 0, t)" "\<lambda>s. snd (asgn2_release s)"
  by unfold_locales (auto simp: asgn2_open_def asgn2_release_def split: if_splits)

text \<open>
  Under any sequence of opens and closes, one after the other, the count of users is exact
  and never above the limit.
\<close>

lemma asgn2_users_bounded:
  assumes "nprocs (a2_dev s) = int n" "int n \<le> max_nprocs (a2_dev s)" "max_nprocs (a2_dev s) \<le> 2147483647"
    and "visits (\<lambda>s. let (r, t) = asgn2_open s O_RDONLY in (r = 0, t)) (\<lambda>s. snd (asgn2_release s)) (n, s) vs = (n', t)"
  shows "nprocs (a2_dev t) = int n' \<and> int n' \<le> max_nprocs (a2_dev t) \<and>
    max_nprocs (a2_dev t) = max_nprocs (a2_dev s)"
  using assms by (rule port_users.visits_bounded)

end
