(* ===== verification/Asgn2_Faults.thy ===== *)
theory Asgn2_Faults
  imports Asgn2_Serve
begin

section \<open>Where the dummy-port driver loses bytes or stops\<close>

text \<open>
  The paths of \<^verbatim>\<open>asgn2/asgn.c\<close> outside the sessions of the previous theory: a full buffer, a
  failed allocation, a second page, an empty session, a small user buffer, an interrupted wait.
\<close>

subsection \<open>Returns with the lock held\<close>

lemma lock_stays:
  assumes "lock_held s" "toggle s"
  shows "port_run (send [b] @ es) s = Spins" and "tasklet_copy s = Spins"
  using byte_arrives [OF assms(2), of b es] assms(1) by (simp_all add: tasklet_copy_def)

lemma full_buffer:
  assumes "toggle s" "\<not> lock_held s" "b \<noteq> 0" "64 \<le> cb_count (cbuf s)"
  shows "port_run (send [b] @ es) s = port_run es (s\<lparr>top_full_byte := b, lock_held := True\<rparr>)"
  using byte_arrives [OF assms(1), of b es] assms(2-4) by (simp add: Let_def)

text \<open>
  A byte that arrives while the buffer holds 64 bytes is dropped, but the handler returns
  with the lock taken: neither the next byte nor the tasklet gets past it.
\<close>

lemma asgn2_overflow_locks:
  assumes "in_session 0 m off ws q s" "0 < m" "toggle s" "\<not> lock_held s" "0 \<notin> set bs"
    and "length q + length bs = 64" "off + length ws + length q + length bs \<le> 4096" "b \<noteq> 0"
  shows "\<exists>t. port_run (send (bs @ [b])) s = Ok t \<and> cbuf_contents (cbuf t) = q @ bs \<and> lock_held t \<and>
    tasklet_copy t = Spins \<and> port_run (send (bs @ [b] @ [c])) s = Spins"
proof -
  obtain u where u: "\<forall>es. port_run (send bs @ es) s = port_run es u" "in_session 0 m off ws (q @ bs) u"
    "toggle u" "\<not> lock_held u"
    using arrive_all [OF assms(1-5)] assms(6,7) by auto
  have o: "cbuf_ok (cbuf u)" "cbuf_contents (cbuf u) = q @ bs" using u(2) by (simp_all add: in_session_def)
  then have "64 \<le> cb_count (cbuf u)" using cbuf_count [OF o(1)] assms(6) unfolding o(2) by simp
  note full = full_buffer [OF u(3,4) assms(8) this]
  let ?t = "u\<lparr>top_full_byte := b, lock_held := True\<rparr>"
  have t: "lock_held ?t" "toggle ?t" using u(3) by simp_all
  have "port_run (send (bs @ [b])) s = Ok ?t"
    using u(1) [rule_format, of "send [b]"] full [of "[]"] by (simp del: port_run.simps(2))
  moreover have "port_run (send (bs @ [b] @ [c])) s = port_run (send [c] @ []) ?t"
    using u(1) [rule_format, of "send [b] @ send [c]"] full [of "send [c]"] by (simp del: port_run.simps(2))
  ultimately show ?thesis
    using lock_stays(1) [OF t, of c "[]"] lock_stays(2) [OF t] o(2) by (intro exI [of _ ?t]) (simp del: port_run.simps(2) send_simps(2))
qed

text \<open>
  When the tasklet cannot get a page it has already taken a byte out of the buffer and
  loses it, and it returns with the lock taken.
\<close>

lemma asgn2_no_page_locks:
  assumes "\<not> lock_held s" "toggle s" "cbuf_ok (cbuf s)" "cbuf_contents (cbuf s) = b # q"
    and "write_offset (sess s) = 0" "page_allocs (a2_kmem s) = [] \<or> kmallocs (a2_kmem s) = []"
  shows "\<exists>t. tasklet_copy s = Ok t \<and> lock_held t \<and> cbuf_contents (cbuf t) = q \<and>
    mem_list (a2_dev t) = mem_list (a2_dev s) \<and> sess t = sess s \<and>
    port_run (send [c]) t = Spins"
proof -
  let ?s = "s\<lparr>lock_held := True, scheduled := False\<rparr>"
  obtain c' where c': "cbuf_take (cbuf s) = Some (b, c')" "cbuf_contents c' = q"
    using cbuf_take_contents [OF assms(3,4)] by auto
  obtain k where "copy_byte ?s = Ok (False, ?s\<lparr>cbuf := c', a2_kmem := k\<rparr>)"
  proof (cases "fst (kmalloc (a2_kmem s))")
    case False
    then have "copy_byte ?s = Ok (False, ?s\<lparr>cbuf := c', a2_kmem := snd (kmalloc (a2_kmem s))\<rparr>)"
      using c'(1) assms(5) by (simp add: copy_byte_def store_byte_def Let_def case_prod_beta)
    then show ?thesis by (rule that)
  next
    case True
    then have "kmallocs (a2_kmem s) \<noteq> []" by (auto simp: kmalloc_def)
    then have "page_allocs (snd (kmalloc (a2_kmem s))) = []" using assms(6) by simp
    then have "alloc_page (snd (kmalloc (a2_kmem s))) = (None, snd (kmalloc (a2_kmem s)))"
      by (simp add: alloc_page_def)
    then have "copy_byte ?s = Ok (False, ?s\<lparr>cbuf := c', a2_kmem := snd (kmalloc (a2_kmem s))\<rparr>)"
      using True c'(1) assms(5) by (simp add: copy_byte_def store_byte_def Let_def case_prod_beta)
    then show ?thesis by (rule that)
  qed
  moreover have "s32 (cb_count (cbuf s)) \<noteq> 0"
    using cbuf_count [OF assms(3)] assms(3) unfolding assms(4) by (simp add: cbuf_ok_def)
  ultimately have run: "tasklet_copy s = Ok (?s\<lparr>cbuf := c', a2_kmem := k\<rparr>)"
    using assms(1) by (simp add: tasklet_copy_def copy_loop.simps [of ?s])
  have "port_run (send [c]) (?s\<lparr>cbuf := c', a2_kmem := k\<rparr>) = Spins"
    using lock_stays(1) [of "?s\<lparr>cbuf := c', a2_kmem := k\<rparr>" c "[]"] assms(2) by simp
  with run c'(2) show ?thesis by (intro exI [of _ "?s\<lparr>cbuf := c', a2_kmem := k\<rparr>"]) (simp del: port_run.simps)
qed

text \<open>States for the examples: one byte waits in the buffer.\<close>

definition demo_port :: "page_node list \<Rightarrow> sessions_tracker \<Rightarrow> asgn2_state" where
  "demo_port ns ss =
     (asgn2_initial (clean_kmem 0))\<lparr>cbuf := \<lparr>cb_head = 0, cb_count = 1, cb_buffer = replicate 64 9\<rparr>, sess := ss,
       a2_dev := \<lparr>mem_list = ns, num_pages = int (length ns), data_size = write_offset ss, nprocs = 1, max_nprocs = 1\<rparr>\<rparr>"

lemma demo_port_cbuf: "cbuf_ok (cbuf (demo_port ns ss))" "cbuf_contents (cbuf (demo_port ns ss)) = [9]"
  by (simp_all add: demo_port_def cbuf_ok_def cbuf_contents_def)

subsection \<open>More than one page\<close>

text \<open>
  Once there is a second page, every byte but the first of it goes to the first page,
  over the byte that is there.
\<close>

lemma asgn2_second_page_byte:
  assumes "cbuf_ok (cbuf s)" "cbuf_contents (cbuf s) = b # q" "mem_list (a2_dev s) = p1 # p2 # ps"
    and "length (frame p1) = 4096" "write_offset (sess s) = int w" "0 < w" "w < 4096"
  shows "\<exists>t. copy_byte s = Ok (True, t) \<and>
    mem_list (a2_dev t) = p1\<lparr>frame := (frame p1)[w := b]\<rparr> # p2 # ps"
proof -
  obtain c where c: "cbuf_take (cbuf s) = Some (b, c)"
    using cbuf_take_contents [OF assms(1,2)] by auto
  have "blit (frame p1) w [b] = (frame p1)[w := b]"
    using assms(4,7) by (simp add: blit_def upd_conv_take_nth_drop)
  then have "store_first (mem_list (a2_dev s)) (write_offset (sess s)) b =
      Some (p1\<lparr>frame := (frame p1)[w := b]\<rparr> # p2 # ps)"
    using assms by (simp add: store_first_def page_store_def)
  then show ?thesis using c assms(5,6) by (auto simp: copy_byte_def store_byte_def stored_def)
qed

subsection \<open>Reads\<close>

text \<open>
  A read does not look at the reader's count: a session of less than a page is copied
  whole, over the end of a buffer that is smaller.
\<close>

lemma asgn2_read_ignores_count:
  assumes "in_session 1 m off ws [] s" "\<not> fin_reading s" "no_fault ua" "length ws < 4096"
    and "0 \<le> count" "count < int (length ws)"
  shows "\<exists>n out pos' t. asgn2_read ua waited s count pos = Ok (n, out, pos', t) \<and> count < n \<and> out = ws"
  using read_session [OF assms(1-3), of count waited pos] assms(4,6) by auto

text \<open>
  An empty session that is read while the page of the following session is there from its
  start frees that page: the bytes are lost, and the next byte of the port is stored through a
  list that is empty.
\<close>

lemma asgn2_empty_session_frees_page:
  assumes "\<not> fin_reading s" "ss_count (sess s) \<noteq> 0" "no_fault ua" "slots_ok m (sess s)"
    and "sizes (sess s) ! nat (ss_head (sess s)) = 0" "read_offset (sess s) = 0"
    and "mem_list (a2_dev s) = [p]" "length (frame p) = 4096" "data_size (a2_dev s) = write_offset (sess s)"
    and "0 < write_offset (sess s)" "write_offset (sess s) < 4096"
    and "cbuf_ok (cbuf s)" "cbuf_contents (cbuf s) = b # q" "0 \<le> count" "count < 2147483648"
  shows "\<exists>t. asgn2_read ua waited s count pos = Ok (0, [], s64 pos, t) \<and> mem_list (a2_dev t) = [] \<and>
    data_size (a2_dev t) = write_offset (sess s) + 4294963200 \<and> copy_byte t = Fault"
proof -
  let ?ss = "sess s"
  have h: "0 \<le> ss_head ?ss" "ss_head ?ss < int (length (sizes ?ss))" "ss_head ?ss < 100"
    using assms(4) by (auto simp: slots_ok_def)
  define s1 where "s1 = s\<lparr>sess := ?ss\<lparr>ss_head := (ss_head ?ss + 1) mod 100, ss_count := s32 (ss_count ?ss - 1)\<rparr>\<rparr>"
  define t where "t = (drop_page p s1)\<lparr>fin_reading := True\<rparr>"
  have ro: "read_offset (sess s1) = 0" using assms(6) by (simp add: s1_def)
  then have eq: "s1\<lparr>sess := (sess s1)\<lparr>read_offset := 0\<rparr>\<rparr> = s1" by simp
  then have loop: "asgn2_read_pages ua 0 0 0 (- 1) 0 0 [p] s1 = Ok (True, 0, [], t)"
    using read_round [OF assms(3), of 0 0 p 0 0 s1 "[]"] assms(8) ro by (simp add: t_def eq del: asgn2_read_pages.simps)
  have "asgn2_read ua waited s count pos = Ok (0, [], s64 pos, t)"
    using assms(1,2,5-7,10,14) h loop by (simp add: asgn2_read_def Let_def array_get_def s1_def min_absorb2)
  moreover have "u32 (write_offset ?ss - 4096) = write_offset ?ss + 4294963200"
    using assms(10,11) by (subst u32_neg) simp_all
  moreover have "mem_list (a2_dev t) = []" "data_size (a2_dev t) = u32 (write_offset ?ss - 4096)"
    using assms(7,9) by (simp_all add: t_def drop_page_def s1_def list_del_def)
  moreover have "copy_byte t = Fault"
  proof -
    obtain c where "cbuf_take (cbuf s) = Some (b, c)"
      using cbuf_take_contents [OF assms(12,13)] by auto
    then show ?thesis
      using assms(7,10) by (simp add: copy_byte_def store_byte_def stored_def store_first_def t_def drop_page_def s1_def list_del_def)
  qed
  ultimately show ?thesis by auto
qed

text \<open>
  A reader whose wait is interrupted by a signal goes on as if a session had arrived: it
  returns nothing and moves on to the next slot, so that the session that arrives then is
  counted in the slot it has left, and, in the last slot, in front of the array.
\<close>

lemma asgn2_interrupted_wait:
  assumes "in_session 0 m 0 [] [] s" "1 < m" "\<not> fin_reading s" "0 \<le> count"
  shows "\<exists>t. asgn2_read ua id s count pos = Ok (0, [], s64 pos, t) \<and>
    ss_count (sess t) = - 1 \<and> sizes (sess t) ! nat (ss_head (sess t)) = 0 \<and>
    (if ss_head (sess s) = 99 then count_byte (sess t) = None
     else \<exists>ss. count_byte (sess t) = Some ss \<and> sizes ss ! nat (ss_head (sess s)) = 1 \<and>
       sizes ss ! nat (ss_head ss) = 0)"
proof -
  let ?ss = "sess s"
  define h where "h = (ss_head ?ss + 1) mod 100"
  have v: "slots_ok m ?ss" "sizes ?ss ! nat (ss_head ?ss) = 0" "ss_count ?ss = 0" "read_offset ?ss = 0"
    "write_offset ?ss = 0" "mem_list (a2_dev s) = []"
    using assms(1) by (simp_all add: in_session_def pages_hold_def)
  have b: "0 \<le> ss_head ?ss" "ss_head ?ss < 100" "length (sizes ?ss) = 100"
    using v(1) by (auto simp: slots_ok_def)
  have next0: "sizes ?ss ! nat h = 0" using slots_next(2) [OF v(1) assms(2) h_def] .
  define tt where "tt = ?ss\<lparr>ss_head := h, ss_count := - 1\<rparr>"
  let ?t = "s\<lparr>sess := tt\<rparr>"
  have run: "asgn2_read ua id s count pos = Ok (0, [], s64 pos, ?t)"
    using assms(3) v b by (simp add: asgn2_read_def Let_def array_get_def h_def tt_def)
  show ?thesis
  proof (cases "ss_head ?ss = 99")
    case True
    then have "session_end tt = - 1" by (simp add: session_end_def tt_def h_def crem_def cdiv_def)
    then have "count_byte tt = None" by (simp add: count_byte_def array_get_def)
    then show ?thesis using run True next0 by (intro exI [of _ ?t]) (simp add: tt_def)
  next
    case False
    then have h: "h = ss_head ?ss + 1" using b by (simp add: h_def)
    then have "session_end tt = ss_head ?ss" using b by (simp add: session_end_def tt_def)
    then have "count_byte tt = Some (tt\<lparr>sizes := (sizes tt)[nat (ss_head ?ss) := 1]\<rparr>)"
      using b v(2) by (simp add: count_byte_def array_get_def array_set_def tt_def)
    moreover have "nat (ss_head ?ss) \<noteq> nat h" using h b by simp
    ultimately show ?thesis
      using run False next0 b by (intro exI [of _ ?t]) (simp add: tt_def)
  qed
qed

end
