(* ===== verification/Asgn2_Module.thy ===== *)
theory Asgn2_Module
  imports Gpio Asgn2_Faults
begin

section \<open>Loading and unloading the dummy-port driver\<close>

text \<open>
  \<^verbatim>\<open>asgn2_init_module\<close> and \<^verbatim>\<open>asgn2_exit_module\<close>: the state of the common part of both drivers, the
  buffer and the session tracker, which \<open>init\<close> clears, and the set-up of the port, which
  comes between the status file and the device class.
\<close>

record asgn2_module =
  common :: module_state
  init_cbuf :: circular_buf
  init_sess :: sessions_tracker
  dummy_irq :: "int option"

definition asgn2_just_loaded :: "kmem \<Rightarrow> asgn2_module" where
  "asgn2_just_loaded k =
     \<lparr>common = just_loaded k,
      init_cbuf = \<lparr>cb_head = 0, cb_count = 0, cb_buffer = replicate 64 0\<rparr>,
      init_sess = \<lparr>ss_head = 0, ss_count = 0, read_offset = 0, write_offset = 0, sizes = replicate 100 0\<rparr>,
      dummy_irq = None\<rparr>"

text \<open>The loops that clear the two arrays.\<close>

fun clear_loop :: "nat \<Rightarrow> nat \<Rightarrow> 'a :: zero list \<Rightarrow> 'a list" where
  "clear_loop 0 index xs = xs"
| "clear_loop (Suc n) index xs = clear_loop n (Suc index) (xs[index := 0])"

lemma clear_loop_zero:
  "index + n = length xs \<Longrightarrow> clear_loop n index xs = take index xs @ replicate n 0"
proof (induction n arbitrary: index xs)
  case 0
  then show ?case by simp
next
  case (Suc n)
  then have "clear_loop n (Suc index) (xs[index := 0]) = take (Suc index) (xs[index := 0]) @ replicate n 0"
    by (intro Suc.IH) simp
  also have "take (Suc index) (xs[index := 0]) = take index xs @ [0]"
    using Suc.prems by (simp add: take_Suc_conv_app_nth)
  finally show ?case by simp
qed

definition log_calls :: "kcall list \<Rightarrow> module_state \<Rightarrow> module_state" where
  "log_calls cs s = s\<lparr>m_trace := m_trace s @ cs\<rparr>"

definition asgn2_init_module :: "init_env \<Rightarrow> gpio_env \<Rightarrow> asgn2_module \<Rightarrow> outcome \<times> asgn2_module" where
  "asgn2_init_module e g m =
     (let m = m\<lparr>init_cbuf := \<lparr>cb_head = 0, cb_count = 0,
                  cb_buffer = clear_loop 64 0 (cb_buffer (init_cbuf m))\<rparr>,
                init_sess := \<lparr>ss_head = 0, ss_count = 0, read_offset = 0, write_offset = 0,
                  sizes = clear_loop 100 0 (sizes (init_sess m))\<rparr>\<rparr>;
          s = common m;
          s = s\<lparr>m_dev := (m_dev s)\<lparr>nprocs := 0, max_nprocs := 1\<rparr>\<rparr>;
          failed = (\<lambda>result s m. let (r, s) = fail_device result s in (r, m\<lparr>common := s\<rparr>));
          result = e_region e
      in if result < 0 then failed result s m
         else
      (let s = log_call Alloc_region (s\<lparr>m_devno := e_devno e\<rparr>)
       in if \<not> e_cdev_alloc e then (Oops, m\<lparr>common := s\<rparr>)
          else
       (let s = log_call Cdev_alloc (s\<lparr>m_cdev := True\<rparr>);
            result = e_cdev_add e
        in if result < 0 then failed result s m
           else
        (let s = s\<lparr>m_dev := (m_dev s)\<lparr>mem_list := []\<rparr>, m_list_ready := True\<rparr>
         in if \<not> e_proc e then (Returned (- ENOMEM), m\<lparr>common := s\<rparr>)
            else
         (let s = log_call Create_proc (s\<lparr>m_proc := True\<rparr>);
              (r, calls, irq) = gpio_dummy_init g;
              s = log_calls calls s;
              m = m\<lparr>dummy_irq := irq\<rparr>
          in case r of
               Oops \<Rightarrow> (Oops, m\<lparr>common := s\<rparr>)
             | Returned result \<Rightarrow>
                 if result < 0 then failed result s m
                 else
                  (let s = (if e_class e then log_call Class_create (s\<lparr>m_class := Valid\<rparr>)
                            else s\<lparr>m_class := ErrPtr\<rparr>)
                   in if \<not> e_device e \<or> m_class s = ErrPtr then failed (- ENOMEM) s m
                      else (Returned 0, m\<lparr>common := log_call Device_create s\<rparr>)))))))"

definition asgn2_exit_module :: "asgn2_module \<Rightarrow> outcome \<times> asgn2_module" where
  "asgn2_exit_module m =
     (let s = log_calls gpio_dummy_exit (common m);
          s = class_destroy (log_call Device_destroy s)
      in case free_all_pages s of
           None \<Rightarrow> (Oops, m\<lparr>common := s\<rparr>)
         | Some s \<Rightarrow>
             (Returned 0,
              m\<lparr>common := log_call Cdev_del (log_call Remove_proc (log_call Unregister_region s))\<rparr>))"

text \<open>The state of the driver once the module is loaded; the other variables are initialised statically.\<close>

definition running :: "asgn2_module \<Rightarrow> asgn2_state" where
  "running m =
     \<lparr>a2_kmem = m_kmem (common m), a2_dev = m_dev (common m), cbuf = init_cbuf m, sess = init_sess m,
      toggle = True, top_full_byte = 0, fin_reading = False, lock_held = False, scheduled = False\<rparr>"

definition gpio_granted :: "gpio_env \<Rightarrow> bool" where
  "gpio_granted g \<longleftrightarrow> ''bcm2708_gpio'' \<in> set (map fst (g_chips g)) \<and> g_request g = 0 \<and>
     0 \<le> g_to_irq g \<and> g_request_irq g = 0"

lemma gpio_init_granted:
  assumes "gpio_granted g"
  shows "gpio_dummy_init g = (Returned 0, [Request_gpios, Request_irq, Free_gpios], Some (g_to_irq g))"
proof -
  have "find (\<lambda>chip. is_right_chip chip ''bcm2708_gpio'' \<noteq> 0) (g_chips g) \<noteq> None"
    using assms by (auto simp: find_None_iff is_right_chip_def gpio_granted_def)
  then obtain c where "find (\<lambda>chip. is_right_chip chip ''bcm2708_gpio'' \<noteq> 0) (g_chips g) = Some c" by blast
  then show ?thesis using assms by (simp add: gpio_dummy_init_def gpio_granted_def Let_def)
qed

text \<open>The answers of the kernel to the part that comes before the port's set-up.\<close>

definition early_granted :: "init_env \<Rightarrow> bool" where
  "early_granted e \<longleftrightarrow> e_region e = 0 \<and> e_devno e \<noteq> 0 \<and> e_cdev_alloc e \<and> e_cdev_add e = 0 \<and> e_proc e"

lemma log_calls_fields [simp]:
  "m_kmem (log_calls c s) = m_kmem s" "m_dev (log_calls c s) = m_dev s"
  "m_list_ready (log_calls c s) = m_list_ready s" "m_devno (log_calls c s) = m_devno s"
  "m_cdev (log_calls c s) = m_cdev s" "m_class (log_calls c s) = m_class s"
  "m_proc (log_calls c s) = m_proc s" "m_trace (log_calls c s) = m_trace s @ c"
  by (simp_all add: log_calls_def)

lemma cleared:
  "clear_loop 64 0 (replicate 64 0) = replicate 64 (0 :: byte)"
  "clear_loop 100 0 (replicate 100 0) = replicate 100 (0 :: int)"
  using clear_loop_zero [of 0 64 "replicate 64 (0 :: byte)"]
    clear_loop_zero [of 0 100 "replicate 100 (0 :: int)"] by simp_all

definition good_gpio :: gpio_env where
  "good_gpio = \<lparr>g_chips = [(''bcm2708_gpio'', 0x20200000)], g_request = 0, g_to_irq = 189, g_request_irq = 0\<rparr>"

lemma good_granted: "early_granted good_env" "gpio_granted good_gpio" "early_granted no_device_env"
  by (simp_all add: early_granted_def good_env_def gpio_granted_def good_gpio_def no_device_env_def)

text \<open>
  Loading the module and unloading it gives back the pins of the port twice; and where the
  device cannot be created the class is destroyed twice and the interrupt stays requested.
\<close>

lemma asgn2_module_resources:
  assumes "early_granted e" "e_class e" "gpio_granted g"
    and "asgn2_init_module e g (asgn2_just_loaded k) = (r, m)"
  shows "(e_device e \<longrightarrow> r = Returned 0 \<and>
      held {} (m_trace (common m)) = Some {Region, Cdev, Proc, Irq, Class, Device} \<and>
      held {} (m_trace (common (snd (asgn2_exit_module m)))) = None) \<and>
    (\<not> e_device e \<longrightarrow> r = Returned (- ENOMEM) \<and> held {} (m_trace (common m)) = None \<and>
      Free_irq \<notin> set (m_trace (common m)))"
  using assms
  by (auto simp: asgn2_init_module_def asgn2_just_loaded_def just_loaded_def zero_dev_def early_granted_def
      gpio_init_granted Let_def fail_device_def free_all_pages_def free_memory_pages_eq
      asgn2_exit_module_def gpio_dummy_exit_def simp del: clear_loop.simps)

end
