(* ===== verification/Asgn2_Sim.thy ===== *)
theory Asgn2_Sim
  imports Asgn2_Buffer
begin

section \<open>The port does not look at the whole tracker\<close>

text \<open>
  Interrupts and tasklets use the session tracker only through \<open>write_offset\<close>, the slot at
  \<open>session_end\<close> and the increment of the count; \<open>fin_reading\<close> they do not use at all. A change of
  the tracker that respects these is therefore a simulation of the port: running it after
  any events is the same as running it before them. The locales state what such a change has
  to respect; they are interpreted on the changes that the later theories need.
\<close>

definition retrack :: "(sessions_tracker \<Rightarrow> sessions_tracker) \<Rightarrow> (bool \<Rightarrow> bool) \<Rightarrow> asgn2_state \<Rightarrow> asgn2_state" where
  "retrack g f s = s\<lparr>sess := g (sess s), fin_reading := f (fin_reading s)\<rparr>"

lemma retrack_fields [simp]:
  "a2_kmem (retrack g f s) = a2_kmem s" "a2_dev (retrack g f s) = a2_dev s" "cbuf (retrack g f s) = cbuf s"
  "toggle (retrack g f s) = toggle s" "top_full_byte (retrack g f s) = top_full_byte s"
  "lock_held (retrack g f s) = lock_held s" "scheduled (retrack g f s) = scheduled s"
  "fin_reading (retrack g f s) = f (fin_reading s)" "sess (retrack g f s) = g (sess s)"
  by (simp_all add: retrack_def)

lemma retrack_flags:
  "(retrack g f s)\<lparr>lock_held := l\<rparr> = retrack g f (s\<lparr>lock_held := l\<rparr>)"
  "(retrack g f s)\<lparr>scheduled := d\<rparr> = retrack g f (s\<lparr>scheduled := d\<rparr>)"
  by (simp_all add: retrack_def)

subsection \<open>Tasklets\<close>

locale tracker_view =
  fixes g :: "sessions_tracker \<Rightarrow> sessions_tracker" and f :: "bool \<Rightarrow> bool"
  assumes keeps_write_offset: "write_offset (g ss) = write_offset ss"
    and commutes_write_offset: "g (ss\<lparr>write_offset := w\<rparr>) = (g ss)\<lparr>write_offset := w\<rparr>"
begin

lemma copy_byte_retrack: "copy_byte (retrack g f s) = map_exec (map_prod id (retrack g f)) (copy_byte s)"
  by (auto simp: copy_byte_def store_byte_def stored_def retrack_def Let_def keeps_write_offset commutes_write_offset
      split: option.splits prod.splits)

lemma copy_loop_retrack: "copy_loop (retrack g f s) = map_exec (map_prod id (retrack g f)) (copy_loop s)"
proof (induction s rule: copy_loop.induct)
  case (1 s)
  show ?case
  proof (cases "s32 (cb_count (cbuf s)) = 0")
    case True
    then show ?thesis by (simp add: copy_loop.simps [of s] copy_loop.simps [of "retrack g f s"])
  next
    case False
    then show ?thesis using 1 [OF False]
      by (simp add: copy_loop.simps [of s] copy_loop.simps [of "retrack g f s"] copy_byte_retrack
          split: exec.split prod.split bool.split)
  qed
qed

lemma softirq_retrack: "softirq (retrack g f s) = map_exec (retrack g f) (softirq s)"
proof (cases "copy_loop (s\<lparr>lock_held := True, scheduled := False\<rparr>)")
  case (Ok r)
  then show ?thesis
    by (cases r) (auto simp: softirq_def tasklet_copy_def retrack_flags copy_loop_retrack split: bool.split)
qed (auto simp: softirq_def tasklet_copy_def retrack_flags copy_loop_retrack)

end

subsection \<open>What a tasklet leaves of the tracker\<close>

text \<open>The tasklet changes nothing of the tracker but \<open>write_offset\<close>.\<close>

lemma copy_byte_sess:
  "copy_byte s = Ok (b, t) \<Longrightarrow> sess t = (sess s)\<lparr>write_offset := write_offset (sess t)\<rparr>"
  by (auto simp: copy_byte_def store_byte_def stored_def Let_def split: if_splits option.splits prod.splits)

lemma copy_loop_sess:
  "copy_loop s = Ok (b, t) \<Longrightarrow> sess t = (sess s)\<lparr>write_offset := write_offset (sess t)\<rparr>"
proof (induction s rule: copy_loop.induct)
  case (1 s)
  show ?case
  proof (cases "s32 (cb_count (cbuf s)) = 0")
    case True
    then show ?thesis using 1(2) by (simp add: copy_loop.simps [of s])
  next
    case False
    then obtain go u where u: "copy_byte s = Ok (go, u)" "if go then copy_loop u = Ok (b, t) else u = t"
      using 1(2) by (auto simp: copy_loop.simps [of s] split: exec.splits prod.splits bool.splits)
    show ?thesis
    proof (cases go)
      case True
      then have "sess t = (sess u)\<lparr>write_offset := write_offset (sess t)\<rparr>" using 1(1) False u by simp
      also have "\<dots> = (sess s)\<lparr>write_offset := write_offset (sess t)\<rparr>"
        by (subst copy_byte_sess [OF u(1)]) simp
      finally show ?thesis .
    next
      case False
      then show ?thesis using copy_byte_sess u by simp
    qed
  qed
qed

lemma softirq_sess:
  "softirq s = Ok t \<Longrightarrow> sess t = (sess s)\<lparr>write_offset := write_offset (sess t)\<rparr>"
  using copy_loop_sess [of "s\<lparr>lock_held := True, scheduled := False\<rparr>"]
  by (auto simp: softirq_def tasklet_copy_def split: if_splits exec.splits bool.splits prod.splits)

subsection \<open>Interrupts\<close>

text \<open>\<open>ok n\<close> says that the change is respected by \<open>n\<close> more events: the counters do not wrap.\<close>

locale tracker_change = tracker_view +
  fixes ok :: "nat \<Rightarrow> sessions_tracker \<Rightarrow> bool"
  assumes ends: "ok (Suc n) ss \<Longrightarrow>
      g (ss\<lparr>ss_count := s32 (ss_count ss + 1)\<rparr>) = (g ss)\<lparr>ss_count := s32 (ss_count (g ss) + 1)\<rparr>"
    and counts: "ok (Suc n) ss \<Longrightarrow> count_byte (g ss) = map_option g (count_byte ss)"
    and ok_less: "ok (Suc n) ss \<Longrightarrow> ok n ss"
    and ok_write_offset: "ok n ss \<Longrightarrow> ok n (ss\<lparr>write_offset := w\<rparr>)"
    and ok_ends: "ok (Suc n) ss \<Longrightarrow> ok n (ss\<lparr>ss_count := s32 (ss_count ss + 1)\<rparr>)"
    and ok_counts: "ok (Suc n) ss \<Longrightarrow> count_byte ss = Some ss' \<Longrightarrow> ok n ss'"
begin

lemma interrupt_retrack:
  assumes "ok (Suc n) (sess s)"
  shows "dummyport_interrupt h (retrack g f s) = map_exec (retrack g f) (dummyport_interrupt h s)"
  using counts [OF assms] ends [OF assms]
  by (auto simp: dummyport_interrupt_def retrack_def Let_def split: option.splits)

lemma interrupt_ok:
  assumes "ok (Suc n) (sess s)" "dummyport_interrupt h s = Ok t"
  shows "ok n (sess t)"
  using assms(2) ok_less [OF assms(1)] ok_ends [OF assms(1)] ok_counts [OF assms(1)]
  by (auto simp: dummyport_interrupt_def Let_def split: if_splits option.splits)

lemma softirq_ok: "ok n (sess s) \<Longrightarrow> softirq s = Ok t \<Longrightarrow> ok n (sess t)"
  using softirq_sess [of s t] ok_write_offset [of n "sess s" "write_offset (sess t)"] by simp

lemma port_run_retrack:
  assumes "ok (length es) (sess s)"
  shows "port_run es (retrack g f s) = map_exec (retrack g f) (port_run es s)"
  using assms
proof (induction es arbitrary: s)
  case Nil
  then show ?case by simp
next
  case (Cons e es)
  then have ok: "ok (Suc (length es)) (sess s)" by simp
  have step: "(case e of Half h \<Rightarrow> dummyport_interrupt h (retrack g f s) | Softirq \<Rightarrow> softirq (retrack g f s)) =
      map_exec (retrack g f) (case e of Half h \<Rightarrow> dummyport_interrupt h s | Softirq \<Rightarrow> softirq s)"
    by (simp add: interrupt_retrack [OF ok] softirq_retrack split: port_event.split)
  show ?case
  proof (cases "case e of Half h \<Rightarrow> dummyport_interrupt h s | Softirq \<Rightarrow> softirq s")
    case (Ok t)
    then have "ok (length es) (sess t)"
      using interrupt_ok [OF ok] softirq_ok [OF ok_less [OF ok]] by (cases e) auto
    then show ?thesis using step Ok Cons.IH by simp
  qed (use step in simp_all)
qed

end

text \<open>Neither interrupts nor tasklets move \<open>head\<close> or \<open>read_offset\<close>.\<close>

lemma interrupt_sess:
  "dummyport_interrupt h s = Ok t \<Longrightarrow>
   ss_head (sess t) = ss_head (sess s) \<and> read_offset (sess t) = read_offset (sess s)"
  by (auto simp: dummyport_interrupt_def count_byte_def Let_def split: if_splits option.splits)

lemma port_run_ss_head:
  "port_run es s = Ok t \<Longrightarrow> ss_head (sess t) = ss_head (sess s) \<and> read_offset (sess t) = read_offset (sess s)"
proof (induction es arbitrary: s)
  case Nil
  then show ?case by simp
next
  case (Cons e es)
  obtain u where u: "(case e of Half h \<Rightarrow> dummyport_interrupt h s | Softirq \<Rightarrow> softirq s) = Ok u" "port_run es u = Ok t"
    using Cons.prems by (auto split: exec.splits)
  have "ss_head (sess u) = ss_head (sess s) \<and> read_offset (sess u) = read_offset (sess s)"
  proof (cases e)
    case (Half h)
    then show ?thesis using u(1) interrupt_sess by simp
  next
    case Softirq
    then have ss: "sess u = (sess s)\<lparr>write_offset := write_offset (sess u)\<rparr>" using u(1) softirq_sess by simp
    show ?thesis using arg_cong [OF ss, of ss_head] arg_cong [OF ss, of read_offset] by simp
  qed
  then show ?case using Cons.IH [OF u(2)] by simp
qed

end
