(* ===== verification/Asgn2_Wait.thy ===== *)
theory Asgn2_Wait
  imports Asgn2_Serve Asgn2_Sim
begin

section \<open>Readers that come before the end of a session\<close>

text \<open>
  A reader that finds nothing sleeps in \<^verbatim>\<open>wait_event_interruptible\<close> while interrupts and tasklets run;
  a reader that comes between the first byte of a session and its end does not sleep. The
  first is served as soon as the session is closed; the second takes what is there and leaves
  the tracker one session ahead, so that the rest goes to nobody.
\<close>

subsection \<open>Sleeping\<close>

text \<open>
  The sleep: interrupts leave it alone, and a tasklet that gets to its end wakes the reader up,
  which looks at the count of sessions. The state in which the wait returns with the events that
  are left, or \<open>None\<close> where the reader is still asleep after all of them.
\<close>

fun asleep :: "port_event list \<Rightarrow> asgn2_state \<Rightarrow> (asgn2_state \<times> port_event list) option exec" where
  "asleep [] s = Ok None"
| "asleep (Half h # es) s =
     (case dummyport_interrupt h s of Ok t \<Rightarrow> asleep es t | Spins \<Rightarrow> Spins | Fault \<Rightarrow> Fault)"
| "asleep (Softirq # es) s =
     (case softirq s of
        Ok t \<Rightarrow> if scheduled s \<and> \<not> lock_held t \<and> ss_count (sess t) \<noteq> 0 then Ok (Some (t, es)) else asleep es t
      | Spins \<Rightarrow> Spins
      | Fault \<Rightarrow> Fault)"

definition wait_event :: "port_event list \<Rightarrow> asgn2_state \<Rightarrow> (asgn2_state \<times> port_event list) option exec" where
  "wait_event es s = (if ss_count (sess s) \<noteq> 0 then Ok (Some (s, es)) else asleep es s)"

text \<open>A whole read with the events that happen while it waits; \<open>None\<close> is a read that sleeps on.\<close>

definition asgn2_read_wait :: "uaccess \<Rightarrow> port_event list \<Rightarrow> asgn2_state \<Rightarrow> int \<Rightarrow> int \<Rightarrow>
    ((int \<times> byte list \<times> int \<times> asgn2_state) \<times> port_event list) option exec" where
  "asgn2_read_wait ua es s count f_pos =
     (case (if \<not> fin_reading s \<and> ss_count (sess s) = 0 \<and> read_offset (sess s) = write_offset (sess s)
            then wait_event es s else Ok (Some (s, es))) of
        Ok None \<Rightarrow> Ok None
      | Ok (Some (t, rest)) \<Rightarrow>
          (case asgn2_read ua (\<lambda>_. t) s count f_pos of
             Ok r \<Rightarrow> Ok (Some (r, rest))
           | Spins \<Rightarrow> Spins
           | Fault \<Rightarrow> Fault)
      | Spins \<Rightarrow> Spins
      | Fault \<Rightarrow> Fault)"

lemma asleep_halves:
  "port_run (map Half hs) s = Ok t \<Longrightarrow> asleep (map Half hs @ es) s = asleep es t"
  by (induction hs arbitrary: s) (auto split: exec.splits)

lemma send_map: "\<exists>hs. send bs = map Half hs"
  by (induction bs) (auto simp: Cons_eq_map_conv intro: exI [of _ "_ # _ # _"])

lemma asleep_send:
  assumes "\<forall>es. port_run (send bs @ es) s = port_run es t"
  shows "asleep (send bs @ es) s = asleep es t"
proof -
  obtain hs where hs: "send bs = map Half hs" using send_map by blast
  have "port_run (send bs) s = Ok t" using assms [rule_format, of "[]"] by (simp del: send_simps)
  then show ?thesis using asleep_halves hs by metis
qed

text \<open>A chunk in the middle of a session wakes the reader up to no purpose.\<close>

lemma asleep_chunk:
  assumes "in_session 0 m off ws [] s" "stock j off ws s" "0 < m" "toggle s" "\<not> lock_held s"
    and "0 \<notin> set c" "length c \<le> 64" "off + length ws + length c \<le> 4096"
  shows "\<exists>t. (\<forall>es. asleep (send_chunk c @ es) s = asleep es t) \<and> in_session 0 m off (ws @ c) [] t \<and>
    stock j off (ws @ c) t \<and> toggle t \<and> \<not> lock_held t \<and> fin_reading t = fin_reading s"
proof -
  obtain u where u: "\<forall>es. port_run (send c @ es) s = port_run es u" "in_session 0 m off ws ([] @ c) u"
    "toggle u" "\<not> lock_held u" "c \<noteq> [] \<longrightarrow> scheduled u" "a2_kmem u = a2_kmem s" "a2_dev u = a2_dev s"
    "fin_reading u = fin_reading s"
    using arrive_all [OF assms(1,3-6)] assms(7,8) by auto
  have "in_session 0 m off ws c u" "stock j off ws u" using u(2,6) assms(2) by (simp_all add: stock_def)
  from softirq_session [OF this u(4,5)] obtain t where t: "softirq u = Ok t"
    "in_session 0 m off (ws @ c) [] t" "stock j off (ws @ c) t" "toggle t = toggle u" "\<not> lock_held t"
    "fin_reading t = fin_reading u"
    by auto
  have "ss_count (sess t) = 0" using t(2) by (simp add: in_session_def)
  then have "\<forall>es. asleep (send_chunk c @ es) s = asleep es t"
    using asleep_send [OF u(1)] t(1) by (simp add: send_chunk_def)
  then show ?thesis using t u(3,8) by blast
qed

lemma asleep_chunks:
  assumes "in_session 0 m off ws [] s" "stock j off ws s" "0 < m" "toggle s" "\<not> lock_held s"
    and "\<forall>c \<in> set cs. 0 \<notin> set c \<and> length c \<le> 64" "off + length ws + length (concat cs) \<le> 4096"
  shows "\<exists>t. (\<forall>es. asleep (concat (map send_chunk cs) @ es) s = asleep es t) \<and>
    in_session 0 m off (ws @ concat cs) [] t \<and> stock j off (ws @ concat cs) t \<and> toggle t \<and> \<not> lock_held t \<and>
    fin_reading t = fin_reading s"
  using assms
proof (induction cs arbitrary: ws s)
  case Nil
  then show ?case by (intro exI [of _ s]) simp
next
  case (Cons c cs)
  obtain u where u: "\<forall>es. asleep (send_chunk c @ es) s = asleep es u" "in_session 0 m off (ws @ c) [] u"
    "stock j off (ws @ c) u" "toggle u" "\<not> lock_held u" "fin_reading u = fin_reading s"
    using asleep_chunk [OF Cons.prems(1-5), of c] Cons.prems(6,7) by auto
  from Cons.IH [OF u(2,3) Cons.prems(3) u(4,5)] Cons.prems(6,7) show ?case
    using u(1,6) by (auto simp del: asleep.simps)
qed



subsection \<open>A reader in the middle of a session\<close>

text \<open>
  The state one session ahead: \<open>head\<close> has moved on and the count is one less. The port does not
  see the difference, because it only uses the sum of the two, and neither \<open>read_offset\<close> nor
  \<open>fin_reading\<close> matter to it.
\<close>

abbreviation ahead_tracker :: "int \<Rightarrow> sessions_tracker \<Rightarrow> sessions_tracker" where
  "ahead_tracker x ss \<equiv> ss\<lparr>ss_head := ss_head ss + 1, ss_count := ss_count ss - 1, read_offset := x\<rparr>"

definition ahead :: "int \<Rightarrow> bool \<Rightarrow> asgn2_state \<Rightarrow> asgn2_state" where
  "ahead x f = retrack (ahead_tracker x) (\<lambda>_. f)"

lemma ahead_fields [simp]:
  "a2_kmem (ahead x f s) = a2_kmem s" "a2_dev (ahead x f s) = a2_dev s" "cbuf (ahead x f s) = cbuf s"
  "toggle (ahead x f s) = toggle s" "top_full_byte (ahead x f s) = top_full_byte s"
  "lock_held (ahead x f s) = lock_held s" "scheduled (ahead x f s) = scheduled s"
  "fin_reading (ahead x f s) = f" "sess (ahead x f s) = ahead_tracker x (sess s)"
  by (simp_all add: ahead_def)

interpretation ahead: tracker_change "ahead_tracker x" "\<lambda>_. f"
  "\<lambda>n ss. 0 \<le> ss_count ss \<and> ss_count ss + int n < 2147483648" for x f
  by unfold_locales
    (auto simp: count_byte_def session_end_def array_set_def split: option.splits if_splits)

text \<open>The port does the same one session ahead.\<close>

lemma ahead_port_run:
  assumes "0 \<le> ss_count (sess s)" "ss_count (sess s) + int (length es) < 2147483648"
  shows "port_run es (ahead x f s) = map_exec (ahead x f) (port_run es s)"
  unfolding ahead_def using assms by (intro ahead.port_run_retrack) simp

text \<open>A reader that finds bytes but no session takes the bytes and goes one session ahead.\<close>

lemma open_read_ahead:
  assumes "0 \<le> ss_head (sess s)" "ss_head (sess s) < 99" "length (sizes (sess s)) = 100" "ss_count (sess s) = 0"
    and "read_offset (sess s) = int off" "int off \<noteq> write_offset (sess s)" "mem_list (a2_dev s) = [p]"
    and "length (frame p) = 4096" "sizes (sess s) ! nat (ss_head (sess s)) = int n" "0 < off + n" "off + n < 4096"
    and "no_fault ua" "0 \<le> nprocs (a2_dev s)" "nprocs (a2_dev s) < max_nprocs (a2_dev s)"
    and "max_nprocs (a2_dev s) < 2147483648"
  shows "open_read_release ua count s = Ok (int n, take n (drop off (frame p)), ahead (int (off + n)) True s)"
proof -
  let ?ss = "sess s"
  define s1 where "s1 = s\<lparr>fin_reading := False, a2_dev := (a2_dev s)\<lparr>nprocs := nprocs (a2_dev s) + 1\<rparr>\<rparr>"
  have op: "asgn2_open s O_RDONLY = (0, s1)"
    using assms(13-15) by (simp add: asgn2_open_def s1_def)
  let ?s2 = "s1\<lparr>sess := ?ss\<lparr>ss_head := ss_head ?ss + 1, ss_count := - 1\<rparr>\<rparr>"
  let ?t = "(?s2\<lparr>sess := (sess ?s2)\<lparr>read_offset := int (off + n)\<rparr>\<rparr>)\<lparr>fin_reading := True\<rparr>"
  have "asgn2_read_pages ua (int n) (min count (int n)) (int off) (- 1) 0 0 [p] ?s2 =
      Ok (True, int n, take n (drop off (frame p)), ?t)"
    using read_round [OF assms(12), of "int off" "int n" p "int n" "min count (int n)" ?s2 "[]"] assms(5,8,10,11)
    by (simp add: Let_def s1_def del: asgn2_read_pages.simps)
  moreover have "array_get (sizes ?ss) (ss_head ?ss) = Some (int n)"
    using assms(1-3,9) by (simp add: array_get_def)
  ultimately have "asgn2_read ua id s1 count 0 = Ok (int n, take n (drop off (frame p)), int n, ?t)"
    using assms(1,2,4-7,11) by (simp add: asgn2_read_def Let_def s1_def del: asgn2_read_pages.simps)
  moreover have "snd (asgn2_release ?t) = ahead (int (off + n)) True s"
    using assms(4,13-15) by (simp add: asgn2_release_def ahead_def retrack_def s1_def)
  ultimately show ?thesis using op by (simp add: open_read_release_def)
qed

lemma length_send_session:
  "[] \<notin> set cs \<Longrightarrow> length (send_session cs) \<le> 3 * length (concat cs) + 3"
proof (induction cs)
  case Nil
  then show ?case by (simp add: send_session_def)
next
  case (Cons c cs)
  have "length (send c) = 2 * length c" for c by (induction c) simp_all
  moreover have "1 \<le> length c" using Cons.prems by (cases c) auto
  ultimately show ?case using Cons by (simp add: send_session_def send_chunk_def)
qed

text \<open>
  C37: a reader that comes when a part of a session has arrived gets that part, and counts a
  session that there is not. When the rest of the session arrives and the session is closed,
  the next reader looks into the wrong slot, gets nothing and goes ahead once more: the rest
  stays unread.
\<close>

theorem asgn2_mid_session_read:
  assumes "in_session 0 m off ws [] s" "stock j off ws s" "1 < m" "toggle s" "\<not> lock_held s"
    and "ss_head (sess s) < 98" "no_fault ua" "ws \<noteq> []" "cs \<noteq> []" "[] \<notin> set cs"
    and "\<forall>c \<in> set cs. 0 \<notin> set c \<and> length c \<le> 64" "off + length ws + length (concat cs) \<le> 4096"
    and "0 \<le> nprocs (a2_dev s)" "nprocs (a2_dev s) < max_nprocs (a2_dev s)" "max_nprocs (a2_dev s) < 2147483648"
  shows "\<exists>t u v. open_read_release ua count s = Ok (int (length ws), ws, t) \<and> ss_count (sess t) = - 1 \<and>
    port_run (send_session cs) t = Ok u \<and>
    open_read_release ua count u = Ok (0, [], v) \<and> ss_count (sess v) = - 1 \<and>
    mem_list (a2_dev v) = mem_list (a2_dev u) \<and> read_offset (sess v) = int (off + length ws) \<and>
    write_offset (sess v) = int ((off + length ws + length (concat cs)) mod 4096)"
proof -
  let ?x = "int (off + length ws)" and ?rest = "concat cs"
  have rest: "?rest \<noteq> []" using assms(9,10) by (cases cs) auto
  have v: "slots_ok m (sess s)" "sizes (sess s) ! nat (ss_head (sess s)) = int (length ws)"
    "ss_count (sess s) = 0" "read_offset (sess s) = int off" "write_offset (sess s) = int ((off + length ws) mod 4096)"
    using assms(1) by (simp_all add: in_session_def)
  have less: "off + length ws < 4096" using rest assms(12) by (cases ?rest) auto
  obtain p where p: "mem_list (a2_dev s) = [p]" "length (frame p) = 4096" "take (length ws) (drop off (frame p)) = ws"
    using assms(1,8) by (auto simp: in_session_def pages_hold_def)
  have first: "open_read_release ua count s = Ok (int (length ws), ws, ahead ?x True s)"
    using open_read_ahead [of s off p "length ws" ua count] v p less assms(6-8,13-15)
    by (auto simp: slots_ok_def)
  obtain u where u: "port_run (send_session cs) s = Ok u" "in_session 1 m off (ws @ ?rest) [] u"
    "nprocs (a2_dev u) = nprocs (a2_dev s)" "max_nprocs (a2_dev u) = max_nprocs (a2_dev s)"
    using session_continues [OF assms(1,2) _ assms(4,5,11,12)] assms(3) by auto
  have "length (send_session cs) < 2147483648"
    using length_send_session [OF assms(10)] assms(12) by linarith
  then have arrive: "port_run (send_session cs) (ahead ?x True s) = Ok (ahead ?x True u)"
    using ahead_port_run [of s "send_session cs" ?x True] v(3) u(1) by simp
  have head: "ss_head (sess u) = ss_head (sess s)"
    using port_run_ss_head [OF u(1)] by simp
  have w: "slots_ok m (sess u)" "ss_count (sess u) = 1"
    "write_offset (sess u) = int ((off + length (ws @ ?rest)) mod 4096)"
    using u(2) by (simp_all add: in_session_def)
  obtain q where q: "mem_list (a2_dev u) = [q]" "length (frame q) = 4096"
    using u(2) assms(8) by (auto simp: in_session_def pages_hold_def)
  have b: "0 \<le> ss_head (sess u)" "ss_head (sess u) < 98" "length (sizes (sess u)) = 100"
    using w(1) head assms(6) by (auto simp: slots_ok_def)
  have "sizes (sess u) ! ((nat (ss_head (sess u)) + 1) mod 100) = 0"
    using w(1) assms(3) by (auto simp: slots_ok_def)
  then have zero: "sizes (sess u) ! nat (ss_head (sess u) + 1) = 0"
    using b by (simp add: nat_add_distrib)
  have "(off + length (ws @ ?rest)) mod 4096 \<noteq> off + length ws"
    using rest assms(8,12) less by (cases "off + length (ws @ ?rest) = 4096") auto
  then have "open_read_release ua count (ahead ?x True u) = Ok (0, [], ahead ?x True (ahead ?x True u))"
    using open_read_ahead [of "ahead ?x True u" "off + length ws" q 0 ua count] w b q zero less assms(7,8,13-15) u(3,4)
    by (auto simp del: of_nat_add)
  then show ?thesis
    using first arrive v(3) w by (intro exI [of _ "ahead ?x True s"] exI [of _ "ahead ?x True u"]
        exI [of _ "ahead ?x True (ahead ?x True u)"]) (simp add: add.assoc)
qed

theorem asgn2_mid_session_read_witness:
  "\<exists>s t u v. port_run (send_chunk [72]) (asgn2_initial (clean_kmem 1)) = Ok s \<and>
    open_read_release all_copied 64 s = Ok (1, [72], t) \<and> port_run (send_session [[105]]) t = Ok u \<and>
    open_read_release all_copied 64 u = Ok (0, [], v) \<and> ss_count (sess v) = - 1"
proof -
  let ?i = "asgn2_initial (clean_kmem 1)"
  have i: "in_session 0 100 0 [] [] ?i"
    by (rule in_session_initial [OF frames_ok_clean])
  have "stock 0 0 [] ?i" using mem_available_clean [of 1] by (simp add: stock_def)
  from chunk_session [OF i this, of "[72]"] obtain s where s:
    "\<forall>es. port_run (send_chunk [72] @ es) ?i = port_run es s" "in_session 0 100 0 [72] [] s"
    "stock 0 0 [72] s" "toggle s" "\<not> lock_held s"
    "nprocs (a2_dev s) = 0" "max_nprocs (a2_dev s) = 1"
    by (auto simp del: send_simps)
  have run: "port_run (send_chunk [72]) ?i = Ok s" using s(1) [rule_format, of "[]"] by simp
  have "ss_head (sess s) = 0" using port_run_ss_head [OF run] by (simp add: asgn2_initial_def)
  with asgn2_mid_session_read [OF s(2,3) _ s(4,5), of all_copied "[[105]]" 64] s(6,7) run show ?thesis
    by (simp del: send_simps port_run.simps) blast
qed

end
