(* ===== verification/Asgn2_Typed.thy ===== *)
theory Asgn2_Typed
  imports Asgn2_Spec
begin

section \<open>The port keeps its variables in their ranges\<close>

text \<open>
  The types of the driver's variables as C programmers mean them: indices inside their arrays,
  offsets inside a page, pages of 4096 bytes, a page wherever the write offset is not at the
  beginning of one. Interrupts and tasklets keep them, with any bytes, in any order and with
  any answers of the allocator, and never touch memory that is not theirs.
\<close>

definition asgn2_wf :: "asgn2_state \<Rightarrow> bool" where
  "asgn2_wf s \<longleftrightarrow>
     cbuf_ok (cbuf s) \<and>
     0 \<le> ss_head (sess s) \<and> ss_head (sess s) < 100 \<and> 0 \<le> ss_count (sess s) \<and>
     length (sizes (sess s)) = 100 \<and> (\<forall>n \<in> set (sizes (sess s)). 0 \<le> n \<and> n < 4294967296) \<and>
     0 \<le> write_offset (sess s) \<and> write_offset (sess s) < 4096 \<and>
     (write_offset (sess s) \<noteq> 0 \<longrightarrow> mem_list (a2_dev s) \<noteq> []) \<and>
     (\<forall>p \<in> set (mem_list (a2_dev s)). length (frame p) = 4096) \<and>
     frames_ok (a2_kmem s)"

lemma wf_flags [simp]:
  "asgn2_wf (s\<lparr>toggle := a\<rparr>) = asgn2_wf s" "asgn2_wf (s\<lparr>top_full_byte := b\<rparr>) = asgn2_wf s"
  "asgn2_wf (s\<lparr>lock_held := c\<rparr>) = asgn2_wf s" "asgn2_wf (s\<lparr>scheduled := d\<rparr>) = asgn2_wf s"
  by (simp_all add: asgn2_wf_def)

subsection \<open>Interrupts\<close>

lemma count_byte_wf:
  assumes "0 \<le> ss_head ss" "ss_head ss < 100" "0 \<le> ss_count ss" "ss_count ss < 2147483548"
    and "length (sizes ss) = 100" "\<forall>n \<in> set (sizes ss). 0 \<le> n \<and> n < 4294967296"
  shows "\<exists>xs. count_byte ss = Some (ss\<lparr>sizes := xs\<rparr>) \<and> length xs = 100 \<and>
    (\<forall>n \<in> set xs. 0 \<le> n \<and> n < 4294967296)"
proof -
  have e: "0 \<le> session_end ss" "session_end ss < 100"
    using assms(1-4) by (simp_all add: session_end_def)
  let ?xs = "(sizes ss)[nat (session_end ss) := u32 (sizes ss ! nat (session_end ss) + 1)]"
  have "count_byte ss = Some (ss\<lparr>sizes := ?xs\<rparr>)"
    using e assms(5) by (simp add: count_byte_def array_get_def array_set_def)
  moreover have "\<forall>n \<in> insert (u32 (sizes ss ! nat (session_end ss) + 1)) (set (sizes ss)). 0 \<le> n \<and> n < 4294967296"
    using assms(6) by simp
  then have "\<forall>n \<in> set ?xs. 0 \<le> n \<and> n < 4294967296"
    using set_update_subset_insert by (metis subsetD)
  moreover have "length ?xs = 100" using assms(5) by simp
  ultimately show ?thesis by blast
qed

lemma interrupt_wf:
  assumes "asgn2_wf s" "ss_count (sess s) < 2147483547"
  shows "case dummyport_interrupt h s of
      Ok t \<Rightarrow> asgn2_wf t \<and> ss_count (sess t) \<le> ss_count (sess s) + 1
    | Spins \<Rightarrow> lock_held s
    | Fault \<Rightarrow> False"
proof -
  obtain xs where xs: "count_byte (sess s) = Some ((sess s)\<lparr>sizes := xs\<rparr>)" "length xs = 100"
    "\<forall>n \<in> set xs. 0 \<le> n \<and> n < 4294967296"
    using count_byte_wf [of "sess s"] assms by (auto simp: asgn2_wf_def)
  have put: "\<exists>c. cbuf_put b (cbuf s) = Some c \<and> cbuf_ok c" if "cb_count (cbuf s) < 64" for b
    using cbuf_put_contents [OF _ that, of b] assms(1) unfolding asgn2_wf_def by blast
  consider "toggle s" | "\<not> toggle s" "lock_held s"
    | "\<not> toggle s" "\<not> lock_held s" "top_full_byte s OR h = 0"
    | "\<not> toggle s" "\<not> lock_held s" "top_full_byte s OR h \<noteq> 0" "cb_count (cbuf s) \<ge> 64"
    | "\<not> toggle s" "\<not> lock_held s" "top_full_byte s OR h \<noteq> 0" "cb_count (cbuf s) < 64"
    by force
  then show ?thesis
  proof cases
    case 5
    then obtain c where "cbuf_put (top_full_byte s OR h) (cbuf s) = Some c" "cbuf_ok c" using put by blast
    then show ?thesis using 5 assms xs by (simp add: dummyport_interrupt_def asgn2_wf_def)
  qed (use assms in \<open>auto simp: dummyport_interrupt_def asgn2_wf_def\<close>)
qed

subsection \<open>Tasklets\<close>

lemma copy_byte_wf:
  assumes "asgn2_wf s" "cb_count (cbuf s) \<noteq> 0"
  shows "\<exists>go t. copy_byte s = Ok (go, t) \<and> asgn2_wf t \<and> ss_count (sess t) = ss_count (sess s)"
proof -
  have v: "cbuf_ok (cbuf s)" "0 \<le> write_offset (sess s)" "write_offset (sess s) < 4096" "frames_ok (a2_kmem s)"
    "\<forall>p \<in> set (mem_list (a2_dev s)). length (frame p) = 4096"
    using assms(1) by (simp_all add: asgn2_wf_def)
  have "length (cbuf_contents (cbuf s)) \<noteq> 0" using assms(2) v(1) by (simp add: cbuf_ok_def)
  then have "cbuf_contents (cbuf s) \<noteq> []" by (simp del: length_cbuf_contents)
  then obtain b q where "cbuf_contents (cbuf s) = b # q" by (meson neq_Nil_conv)
  then obtain c where c: "cbuf_take (cbuf s) = Some (b, c)" "cbuf_ok c" using cbuf_take_contents [OF v(1)] by blast
  show ?thesis
  proof (cases "write_offset (sess s) = 0")
    case new: True
    let ?k = "snd (kmalloc (a2_kmem s))"
    show ?thesis
    proof (cases "fst (kmalloc (a2_kmem s)) \<and> fst (alloc_page ?k) \<noteq> None")
      case True
      then obtain f bs where al: "fst (alloc_page ?k) = Some (f, bs)" by auto
      have k: "length bs = 4096" "frames_ok (snd (alloc_page ?k))"
        using frames_ok_alloc_Some [of ?k "(f, bs)"] v(4) al by simp_all
      have st: "store_last (list_add_tail \<lparr>pfn = f, frame = bs\<rparr> ns) 0 b =
          Some (ns @ [\<lparr>pfn = f, frame = blit bs 0 [b]\<rparr>])" for ns
        using k(1) by (simp add: store_last_def list_add_tail_def page_store_def)
      show ?thesis
        using c new True al assms(1) v(5) k
        by (auto simp: copy_byte_def store_byte_def stored_def case_prod_beta prod_eq_iff Let_def st asgn2_wf_def)
    next
      case False
      then show ?thesis
        using c new assms(1) alloc_page_None [of ?k]
        by (auto simp: copy_byte_def store_byte_def case_prod_beta Let_def asgn2_wf_def frames_ok_def split: option.split)
    qed
  next
    case False
    then obtain p ps where p: "mem_list (a2_dev s) = p # ps" using assms(1) by (cases "mem_list (a2_dev s)") (auto simp: asgn2_wf_def)
    then have "store_first (mem_list (a2_dev s)) (write_offset (sess s)) b =
        Some (p\<lparr>frame := blit (frame p) (nat (write_offset (sess s))) [b]\<rparr> # ps)"
      using v(2,3,5) by (simp add: store_first_def page_store_def)
    then show ?thesis
      using c False assms(1) p v(2,3) by (auto simp: copy_byte_def store_byte_def stored_def Let_def asgn2_wf_def)
  qed
qed

lemma copy_loop_wf:
  assumes "asgn2_wf s"
  shows "\<exists>go t. copy_loop s = Ok (go, t) \<and> asgn2_wf t \<and> ss_count (sess t) = ss_count (sess s)"
  using assms
proof (induction s rule: copy_loop.induct)
  case (1 s)
  show ?case
  proof (cases "s32 (cb_count (cbuf s)) = 0")
    case True
    then show ?thesis using 1(2) by (auto simp: copy_loop.simps [of s])
  next
    case False
    then have "cb_count (cbuf s) \<noteq> 0" by auto
    then obtain go u where u: "copy_byte s = Ok (go, u)" "asgn2_wf u" "ss_count (sess u) = ss_count (sess s)"
      using copy_byte_wf 1(2) by blast
    show ?thesis
    proof (cases go)
      case True
      then obtain g t where "copy_loop u = Ok (g, t)" "asgn2_wf t" "ss_count (sess t) = ss_count (sess u)"
        using 1(1) [OF False] u by blast
      then show ?thesis using False True u by (simp add: copy_loop.simps [of s])
    next
      case stop: False
      then show ?thesis using False u by (auto simp add: copy_loop.simps [of s])
    qed
  qed
qed

lemma softirq_wf:
  assumes "asgn2_wf s"
  shows "case softirq s of
      Ok t \<Rightarrow> asgn2_wf t \<and> ss_count (sess t) = ss_count (sess s)
    | Spins \<Rightarrow> lock_held s
    | Fault \<Rightarrow> False"
proof -
  have "asgn2_wf (s\<lparr>lock_held := True, scheduled := False\<rparr>)" using assms by simp
  from copy_loop_wf [OF this] obtain go t where
    "copy_loop (s\<lparr>lock_held := True, scheduled := False\<rparr>) = Ok (go, t)" "asgn2_wf t"
    "ss_count (sess t) = ss_count (sess s)"
    by auto
  then show ?thesis using assms by (cases go) (auto simp: softirq_def tasklet_copy_def)
qed

lemma port_step_wf:
  assumes "asgn2_wf s" "ss_count (sess s) < 2147483547"
  shows "case (case e of Half h \<Rightarrow> dummyport_interrupt h s | Softirq \<Rightarrow> softirq s) of
      Ok t \<Rightarrow> asgn2_wf t \<and> ss_count (sess t) \<le> ss_count (sess s) + 1
    | Spins \<Rightarrow> lock_held s
    | Fault \<Rightarrow> False"
  using interrupt_wf [OF assms(1)] softirq_wf [OF assms(1)] assms(2) by (cases e) (auto split: exec.splits)

text \<open>
  C7: whatever half-bytes arrive, whenever the tasklet runs and whatever the allocator answers,
  the driver's variables stay in their ranges and no access leaves an array or a page; the
  port either goes on or spins on a lock that one of its own paths has left taken.
\<close>

theorem asgn2_port_typed:
  assumes "asgn2_wf s" "ss_count (sess s) + int (length es) < 2147483547"
  shows "case port_run es s of
      Ok t \<Rightarrow> asgn2_wf t
    | Spins \<Rightarrow> \<exists>as bs t. es = as @ bs \<and> port_run as s = Ok t \<and> lock_held t
    | Fault \<Rightarrow> False"
  using assms
proof (induction es arbitrary: s)
  case Nil
  then show ?case by simp
next
  case (Cons e es)
  let ?r = "case e of Half h \<Rightarrow> dummyport_interrupt h s | Softirq \<Rightarrow> softirq s"
  note step = port_step_wf [OF Cons.prems(1), of e]
  have few: "ss_count (sess s) < 2147483547" using Cons.prems(2) by simp
  show ?case
  proof (cases ?r)
    case (Ok t)
    then have t: "asgn2_wf t" "ss_count (sess t) + int (length es) < 2147483547" using step few Cons.prems(2) by auto
    show ?thesis
    proof (cases "port_run es t")
      case (Ok u)
      then show ?thesis using Cons.IH [OF t] \<open>?r = Ok t\<close> by simp
    next
      case Spins
      then obtain as bs u where "es = as @ bs" "port_run as t = Ok u" "lock_held u"
        using Cons.IH [OF t] by auto
      then have "e # es = (e # as) @ bs" "port_run (e # as) s = Ok u" "lock_held u" using \<open>?r = Ok t\<close> by simp_all
      then have "\<exists>as bs t. e # es = as @ bs \<and> port_run as s = Ok t \<and> lock_held t" by blast
      then show ?thesis using Spins \<open>?r = Ok t\<close> by simp
    next
      case Fault
      then show ?thesis using Cons.IH [OF t] by simp
    qed
  next
    case Spins
    then have "lock_held s" using step few by simp
    then have "e # es = [] @ (e # es) \<and> port_run [] s = Ok s \<and> lock_held s" by simp
    then show ?thesis using Spins by (simp del: append_Nil port_run.simps(1)) blast
  next
    case Fault
    then show ?thesis using step few by simp
  qed
qed

theorem asgn2_port_typed_witness:
  "\<exists>s. asgn2_wf s \<and> (case port_run [Half 15, Half 15, Softirq, Half 0, Half 0] s of
      Ok t \<Rightarrow> asgn2_wf t | Spins \<Rightarrow> True | Fault \<Rightarrow> False)"
proof -
  let ?s = "\<lparr>a2_kmem = clean_kmem 0,
      a2_dev = \<lparr>mem_list = [], num_pages = 0, data_size = 0, nprocs = 0, max_nprocs = 1\<rparr>,
      cbuf = \<lparr>cb_head = 63, cb_count = 0, cb_buffer = replicate 64 0\<rparr>,
      sess = \<lparr>ss_head = 99, ss_count = 3, read_offset = 0, write_offset = 0, sizes = replicate 100 7\<rparr>,
      toggle = True, top_full_byte = 0, fin_reading = False, lock_held = False, scheduled = False\<rparr>"
  have w: "asgn2_wf ?s" by (simp add: asgn2_wf_def cbuf_ok_def frames_ok_def supplied_clean)
  from asgn2_port_typed [OF w, of "[Half 15, Half 15, Softirq, Half 0, Half 0]"]
  have "case port_run [Half 15, Half 15, Softirq, Half 0, Half 0] ?s of
      Ok t \<Rightarrow> asgn2_wf t | Spins \<Rightarrow> True | Fault \<Rightarrow> False"
    by (simp del: port_run.simps split: exec.splits)
  with w show ?thesis by blast
qed

end
