(* ===== verification/Asgn2_System.thy ===== *)
theory Asgn2_System
  imports Asgn2_Wait Asgn2_Typed
begin

section \<open>The driver of assignment 2 under any events and calls\<close>

text \<open>
  The driver as the kernel runs it: a table of open files over its variables, with the interrupts
  of the port and the tasklets between the calls, and in the waits of the reads. Bytes may be
  lost and sessions miscounted, but as long as no access leaves the driver's memory every page
  is accounted for, and so is every user.
\<close>

subsection \<open>The data\<close>

definition pages_inv :: "kmem \<Rightarrow> kmem \<Rightarrow> asgn_dev \<Rightarrow> bool" where
  "pages_inv k0 k d \<longleftrightarrow>
     pages_ok (mem_list d) \<and> kmem_ok (pfn ` set (mem_list d)) k \<and>
     length (mem_list d) + length (supplied k) < 1048576 \<and> num_pages d = int (length (mem_list d)) \<and>
     live_pages k - live_pages k0 = int (length (mem_list d)) \<and>
     length (mem_list d) + length (supplied k) \<le> length (supplied k0) \<and>
     int (length (supplied k0)) - int (length (supplied k)) \<le> live_nodes k - live_nodes k0"

definition data_inv :: "kmem \<Rightarrow> asgn2_state \<Rightarrow> bool" where
  "data_inv k0 s \<longleftrightarrow>
     pages_inv k0 (a2_kmem s) (a2_dev s) \<and> cbuf_ok (cbuf s) \<and>
     0 \<le> ss_head (sess s) \<and> ss_head (sess s) < 100 \<and> length (sizes (sess s)) = 100 \<and>
     0 \<le> read_offset (sess s) \<and> read_offset (sess s) < 4096 \<and>
     0 \<le> write_offset (sess s) \<and> write_offset (sess s) < 4096"

lemma data_inv_flags [simp]:
  "data_inv k (s\<lparr>toggle := a\<rparr>) = data_inv k s" "data_inv k (s\<lparr>top_full_byte := b\<rparr>) = data_inv k s"
  "data_inv k (s\<lparr>lock_held := c\<rparr>) = data_inv k s" "data_inv k (s\<lparr>scheduled := d\<rparr>) = data_inv k s"
  "data_inv k (s\<lparr>fin_reading := e\<rparr>) = data_inv k s"
  by (simp_all add: data_inv_def)

lemma data_inv_counters [simp]:
  "data_inv k (s\<lparr>a2_dev := (a2_dev s)\<lparr>nprocs := f\<rparr>\<rparr>) = data_inv k s"
  "data_inv k (s\<lparr>a2_dev := (a2_dev s)\<lparr>max_nprocs := f\<rparr>\<rparr>) = data_inv k s"
  "data_inv k (s\<lparr>sess := (sess s)\<lparr>ss_count := n\<rparr>\<rparr>) = data_inv k s"
  by (simp_all add: data_inv_def pages_inv_def)

subsection \<open>Interrupts\<close>

lemma interrupt_data:
  assumes "dummyport_interrupt h s = Ok t" "data_inv k s"
  shows "data_inv k t \<and> a2_dev t = a2_dev s"
proof -
  have put: "cbuf_ok c" if "cbuf_put b (cbuf s) = Some c" "cb_count (cbuf s) < 64" for b c
    using cbuf_put_contents [OF _ that(2), of b] that(1) assms(2) unfolding data_inv_def by auto
  have cnt: "\<exists>xs. ss = (sess s)\<lparr>sizes := xs\<rparr> \<and> length xs = length (sizes (sess s))"
    if "count_byte (sess s) = Some ss" for ss
    using that by (auto simp: count_byte_def array_get_def array_set_def split: if_splits)
  show ?thesis
    using assms put
    by (auto simp: dummyport_interrupt_def Let_def data_inv_def dest!: cnt split: if_splits option.splits)
qed

subsection \<open>Tasklets\<close>

lemma pages_inv_frames:
  assumes "pages_inv k0 k d" "map pfn ns = map pfn (mem_list d)" "\<forall>p \<in> set ns. length (frame p) = 4096"
  shows "pages_inv k0 k (d\<lparr>mem_list := ns, data_size := z\<rparr>)"
proof -
  have "length ns = length (mem_list d)" using assms(2) by (rule map_eq_imp_length_eq)
  moreover have "pfn ` set ns = pfn ` set (mem_list d)" using assms(2) by (metis set_map)
  ultimately show ?thesis using assms by (auto simp: pages_inv_def pages_ok_def)
qed

lemma pages_inv_add:
  assumes "pages_inv k0 k d" "fst (kmalloc k)" "fst (alloc_page (snd (kmalloc k))) = Some (f, bs)"
    and "length page = 4096"
  shows "length bs = 4096 \<and>
    pages_inv k0 (snd (alloc_page (snd (kmalloc k))))
      (d\<lparr>num_pages := s32 (num_pages d + 1), mem_list := mem_list d @ [\<lparr>pfn = f, frame = page\<rparr>], data_size := z\<rparr>)"
proof -
  let ?k = "snd (kmalloc k)"
  have "kmem_ok (pfn ` set (mem_list d)) ?k" using assms(1) by (simp add: pages_inv_def)
  note p = kmem_ok_alloc_Some [OF this assms(3)]
  note live = alloc_page_Some [OF assms(3)] kmalloc_live_nodes [of k]
  have "length (supplied k) = Suc (length (supplied (snd (alloc_page ?k))))" using live(1) by simp
  then show ?thesis
    using assms(1,2,4) p live unfolding pages_inv_def by (auto simp: pages_ok_def)
qed

lemma pages_inv_no_page:
  assumes "pages_inv k0 k d" "fst (alloc_page (snd (kmalloc k))) = None"
  shows "pages_inv k0 (snd (alloc_page (snd (kmalloc k)))) d" "pages_inv k0 (snd (kmalloc k)) d"
proof -
  have ok: "kmem_ok (pfn ` set (mem_list d)) (snd (kmalloc k))" using assms(1) by (simp add: pages_inv_def)
  show "pages_inv k0 (snd (alloc_page (snd (kmalloc k)))) d" "pages_inv k0 (snd (kmalloc k)) d"
    using assms(1) kmem_ok_alloc_None [OF ok assms(2)] alloc_page_None [OF assms(2)] kmalloc_live_nodes [of k]
    by (auto simp: pages_inv_def)
qed

lemma pages_inv_no_node:
  "pages_inv k0 k d \<Longrightarrow> \<not> fst (kmalloc k) \<Longrightarrow> pages_inv k0 (snd (kmalloc k)) d"
  using kmalloc_live_nodes [of k] by (simp add: pages_inv_def)

lemma pages_inv_frame: "pages_inv k0 k d \<Longrightarrow> p \<in> set (mem_list d) \<Longrightarrow> length (frame p) = 4096"
  by (simp add: pages_inv_def pages_ok_def)

text \<open>What the tasklet leaves: the data, and the counters of users.\<close>

abbreviation same_users :: "asgn2_state \<Rightarrow> asgn2_state \<Rightarrow> bool" where
  "same_users s t \<equiv> nprocs (a2_dev t) = nprocs (a2_dev s) \<and> max_nprocs (a2_dev t) = max_nprocs (a2_dev s)"

lemma copy_byte_data:
  assumes "copy_byte s = Ok (go, t)" "data_inv k0 s" "cb_count (cbuf s) \<noteq> 0"
  shows "data_inv k0 t \<and> same_users s t"
proof -
  have v: "cbuf_ok (cbuf s)" "0 \<le> write_offset (sess s)" "write_offset (sess s) < 4096"
    and pages: "pages_inv k0 (a2_kmem s) (a2_dev s)"
    using assms(2) by (simp_all add: data_inv_def)
  have "length (cbuf_contents (cbuf s)) \<noteq> 0" using assms(3) v(1) by (simp add: cbuf_ok_def)
  then have "cbuf_contents (cbuf s) \<noteq> []" by (simp del: length_cbuf_contents)
  then obtain b q where "cbuf_contents (cbuf s) = b # q" by (meson neq_Nil_conv)
  then obtain c where c: "cbuf_take (cbuf s) = Some (b, c)" "cbuf_ok c" using cbuf_take_contents [OF v(1)] by blast
  let ?k = "snd (kmalloc (a2_kmem s))" and ?d = "a2_dev s"
  consider (new) f bs where "write_offset (sess s) = 0" "fst (kmalloc (a2_kmem s))" "fst (alloc_page ?k) = Some (f, bs)"
    | (no_page) "write_offset (sess s) = 0" "fst (kmalloc (a2_kmem s))" "fst (alloc_page ?k) = None"
    | (no_node) "write_offset (sess s) = 0" "\<not> fst (kmalloc (a2_kmem s))"
    | (first) p ps where "write_offset (sess s) \<noteq> 0" "mem_list ?d = p # ps"
    | (stray) "write_offset (sess s) \<noteq> 0" "mem_list ?d = []"
    by (metis list.exhaust not_Some_eq prod.exhaust)
  then show ?thesis
  proof cases
    case new
    have "length bs = 4096" using pages_inv_add [OF pages new(2,3), of "replicate 4096 0"] by simp
    then have "length (blit bs 0 [b]) = 4096" by (simp add: blit_def)
    note page = pages_inv_add [OF pages new(2,3) this]
    have st: "store_last (list_add_tail \<lparr>pfn = f, frame = bs\<rparr> ns) 0 b =
        Some (ns @ [\<lparr>pfn = f, frame = blit bs 0 [b]\<rparr>])" for ns
      using page by (simp add: store_last_def list_add_tail_def page_store_def)
    show ?thesis
      using assms(1,2) c new page by (auto simp: copy_byte_def store_byte_def stored_def case_prod_beta prod_eq_iff Let_def st data_inv_def)
  next
    case no_page
    then show ?thesis
      using assms(1,2) c pages_inv_no_page [OF pages no_page(3)]
      by (auto simp: copy_byte_def store_byte_def case_prod_beta Let_def data_inv_def split: option.splits)
  next
    case no_node
    then show ?thesis
      using assms(1,2) c pages_inv_no_node [OF pages no_node(2)]
      by (auto simp: copy_byte_def store_byte_def case_prod_beta Let_def data_inv_def)
  next
    case first
    have l: "length (frame p) = 4096" using pages_inv_frame [OF pages] first(2) by simp
    then have st: "store_first (mem_list ?d) (write_offset (sess s)) b =
        Some (p\<lparr>frame := blit (frame p) (nat (write_offset (sess s))) [b]\<rparr> # ps)"
      using v(2,3) first(2) by (simp add: store_first_def page_store_def)
    have "pages_inv k0 (a2_kmem s)
        (?d\<lparr>mem_list := p\<lparr>frame := blit (frame p) (nat (write_offset (sess s))) [b]\<rparr> # ps, data_size := z\<rparr>)" for z
      using l first(2) pages_inv_frame [OF pages] v(2,3) by (intro pages_inv_frames [OF pages]) auto
    then show ?thesis
      using assms(1,2) c first st by (auto simp: copy_byte_def store_byte_def stored_def Let_def data_inv_def)
  next
    case stray
    then show ?thesis using assms(1) c by (simp add: copy_byte_def store_byte_def stored_def store_first_def Let_def)
  qed
qed

lemma copy_loop_data:
  assumes "copy_loop s = Ok (go, t)" "data_inv k0 s"
  shows "data_inv k0 t \<and> same_users s t"
  using assms
proof (induction s rule: copy_loop.induct)
  case (1 s)
  show ?case
  proof (cases "s32 (cb_count (cbuf s)) = 0")
    case True
    then show ?thesis using 1(2,3) by (simp add: copy_loop.simps [of s])
  next
    case False
    then have "cb_count (cbuf s) \<noteq> 0" by auto
    with False show ?thesis
      using 1 copy_byte_data [of s _ _ k0]
      by (auto simp: copy_loop.simps [of s] split: exec.splits if_splits prod.splits bool.splits)
  qed
qed

lemma softirq_data:
  assumes "softirq s = Ok t" "data_inv k0 s"
  shows "data_inv k0 t \<and> same_users s t"
  using assms copy_loop_data [of "s\<lparr>lock_held := True, scheduled := False\<rparr>" _ _ k0]
  by (auto simp: softirq_def tasklet_copy_def split: exec.splits if_splits prod.splits bool.splits)

subsection \<open>Reads\<close>

lemma set_remove1_pfn:
  assumes "distinct (map pfn ns)" "x \<in> set ns"
  shows "set (remove1 x ns) = set ns - {x}" "pfn ` set (remove1 x ns) = pfn ` set ns - {pfn x}"
proof -
  have d: "distinct ns" using assms(1) by (simp add: distinct_map)
  then show s: "set (remove1 x ns) = set ns - {x}" by simp
  have "inj_on pfn (set ns)" using assms(1) by (simp add: distinct_map)
  then show "pfn ` set (remove1 x ns) = pfn ` set ns - {pfn x}"
    unfolding s using assms(2) by (auto simp: inj_on_def)
qed

lemma distinct_map_remove1: "distinct (map f xs) \<Longrightarrow> distinct (map f (remove1 x xs))"
  by (induction xs) (use set_remove1_subset in \<open>fastforce+\<close>)

lemma drop_page_data:
  assumes "data_inv k0 s" "node \<in> set (mem_list (a2_dev s))"
  shows "data_inv k0 (drop_page node s)" "same_users s (drop_page node s)"
    and "set (mem_list (a2_dev (drop_page node s))) = set (mem_list (a2_dev s)) - {node}"
proof -
  let ?ns = "mem_list (a2_dev s)"
  have v: "pages_ok ?ns" "kmem_ok (pfn ` set ?ns) (a2_kmem s)"
    "num_pages (a2_dev s) = int (length ?ns)" "length ?ns < 1048576"
    using assms(1) by (auto simp: data_inv_def pages_inv_def)
  have d: "distinct (map pfn ?ns)" "0 < length ?ns" using v(1) assms(2) by (auto simp: pages_ok_def)
  note r = set_remove1_pfn [OF d(1) assms(2)]
  have "pages_ok (remove1 node ?ns)"
    using v(1) r(1) distinct_map_remove1 [OF d(1)] by (auto simp: pages_ok_def)
  moreover have "kmem_ok (pfn ` set (remove1 node ?ns)) (a2_kmem s)"
    using v(2) r(2) by (auto intro: kmem_ok_subset)
  moreover have "int (length (remove1 node ?ns)) = int (length ?ns) - 1"
    using assms(2) d(2) by (simp add: length_remove1 of_nat_diff Suc_leI)
  ultimately show "data_inv k0 (drop_page node s)"
    using assms(1) v(3,4) d(2)
    by (auto simp: data_inv_def pages_inv_def drop_page_def list_del_def free_page_def kmem_ok_def supplied_def)
  show "same_users s (drop_page node s)"
    "set (mem_list (a2_dev (drop_page node s))) = set ?ns - {node}"
    using r(1) by (simp_all add: drop_page_def list_del_def)
qed

text \<open>What a round leaves of the state, once the bytes of a page have been copied.\<close>

definition round_over :: "page_node \<Rightarrow> int \<Rightarrow> asgn2_state \<Rightarrow> asgn2_state" where
  "round_over node n s =
     (let s = s\<lparr>sess := (sess s)\<lparr>read_offset := u32 (read_offset (sess s) + n) mod PAGE_SIZE\<rparr>\<rparr>
      in if read_offset (sess s) = 0 then drop_page node s else s)"

lemma round_over_data:
  assumes "data_inv k0 s" "node \<in> set (mem_list (a2_dev s))"
  shows "data_inv k0 (round_over node n s)" "same_users s (round_over node n s)"
    and "set (mem_list (a2_dev s)) - {node} \<subseteq> set (mem_list (a2_dev (round_over node n s)))"
proof -
  let ?s = "s\<lparr>sess := (sess s)\<lparr>read_offset := u32 (read_offset (sess s) + n) mod PAGE_SIZE\<rparr>\<rparr>"
  have "data_inv k0 ?s" "node \<in> set (mem_list (a2_dev ?s))" using assms by (simp_all add: data_inv_def)
  note d = \<open>data_inv k0 ?s\<close> drop_page_data [OF this]
  have "round_over node n s = (if read_offset (sess ?s) = 0 then drop_page node ?s else ?s)"
    unfolding round_over_def Let_def ..
  then consider "round_over node n s = drop_page node ?s" | "round_over node n s = ?s" by meson
  then have "data_inv k0 (round_over node n s) \<and> same_users s (round_over node n s) \<and>
    set (mem_list (a2_dev s)) - {node} \<subseteq> set (mem_list (a2_dev (round_over node n s)))"
  proof cases
    case 1
    show ?thesis unfolding 1 using d(2-) by simp
  next
    case 2
    show ?thesis unfolding 2 using d(1) by auto
  qed
  then show "data_inv k0 (round_over node n s)" "same_users s (round_over node n s)"
    "set (mem_list (a2_dev s)) - {node} \<subseteq> set (mem_list (a2_dev (round_over node n s)))" by blast+
qed

lemma read_page_cases:
  assumes "asgn2_read_pages ua total_to actual off no bp sz (node # rest) s = Ok (b, n, out, t)" "s32 (no + 1) = bp"
  obtains (short) u where "u = s \<or> u = s\<lparr>fin_reading := True\<rparr>" "t = u\<lparr>fin_reading := True\<rparr>"
  | (last) u m where "u = s \<or> u = s\<lparr>fin_reading := True\<rparr>" "t = (round_over node m u)\<lparr>fin_reading := True\<rparr>"
  | (on) u m off' no' bp' sz' b' n' out' where "u = s \<or> u = s\<lparr>fin_reading := True\<rparr>"
    "asgn2_read_pages ua total_to actual off' no' bp' sz' rest (round_over node m u) = Ok (b', n', out', t)"
proof -
  define left where "left = u32 (total_to - sz)"
  define u where "u = (if left < 4096 then s\<lparr>fin_reading := True\<rparr> else s)"
  define str where "str = (if left < 4096 then u32 (u32 (PAGE_SIZE - off) - u32 (PAGE_SIZE - u32 (left + off)))
    else u32 (min (s32 (u32 (PAGE_SIZE - off))) (s32 actual)))"
  have us: "u = s \<or> u = s\<lparr>fin_reading := True\<rparr>" by (simp add: u_def)
  have r: "(case page_bytes (frame node) off str of
      None \<Rightarrow> Fault
    | Some src \<Rightarrow>
        (let (out, l) = copy_to_user ua bp sz src str
         in if l \<noteq> 0 then Ok (False, sz, out, u\<lparr>fin_reading := True\<rparr>)
            else if u32 (sz + u32 (str - l)) = total_to
            then Ok (True, u32 (sz + u32 (str - l)), out, (round_over node (u32 (str - l)) u)\<lparr>fin_reading := True\<rparr>)
            else (case asgn2_read_pages ua total_to actual (u32 (off + u32 (str - l))) bp
                      (s32 (bp + 1)) (u32 (sz + u32 (str - l))) rest (round_over node (u32 (str - l)) u) of
                   Ok (b, n, later, t) \<Rightarrow> Ok (b, n, out @ later, t)
                 | Spins \<Rightarrow> Spins
                 | Fault \<Rightarrow> Fault))) = Ok (b, n, out, t)"
    using assms unfolding asgn2_read_pages.simps Let_def left_def str_def u_def round_over_def
    by (cases "u32 (total_to - sz) < 4096") (simp_all only: if_True if_False prod.case simp_thms)
  obtain src where src: "page_bytes (frame node) off str = Some src" using r by (cases "page_bytes (frame node) off str") auto
  obtain o1 l where c: "copy_to_user ua bp sz src str = (o1, l)" by fastforce
  show thesis
  proof (cases "l = 0")
    case False
    then show thesis using r src c short [OF us] by simp
  next
    case True
    then show thesis using r src c last [OF us] on [OF us] by (auto split: if_splits exec.splits)
  qed
qed

lemma read_pages_data:
  assumes "asgn2_read_pages ua total_to actual off no bp sz nodes s = Ok (b, n, out, t)" "data_inv k0 s"
    and "set nodes \<subseteq> set (mem_list (a2_dev s))" "distinct (map pfn nodes)"
  shows "data_inv k0 t \<and> same_users s t"
  using assms
proof (induction nodes arbitrary: off no bp sz s b n out t)
  case Nil
  then show ?case by simp
next
  case (Cons node rest)
  show ?case
  proof (cases "s32 (no + 1) = bp")
    case False
    then have "asgn2_read_pages ua total_to actual off (s32 (no + 1)) bp sz rest s = Ok (b, n, out, t)"
      using Cons.prems(1) by (simp add: Let_def)
    then show ?thesis using Cons.IH Cons.prems(2-4) by simp
  next
    case True
    have rest: "set rest \<subseteq> set (mem_list (a2_dev s)) - {node}" "node \<in> set (mem_list (a2_dev s))"
      using Cons.prems(3,4) by auto
    have v: "data_inv k0 u" "node \<in> set (mem_list (a2_dev u))" "a2_dev u = a2_dev s"
      if "u = s \<or> u = s\<lparr>fin_reading := True\<rparr>" for u
      using that Cons.prems(2) rest(2) by auto
    from Cons.prems(1) True show ?thesis
    proof (cases rule: read_page_cases)
      case (short u)
      then show ?thesis using v [OF short(1)] by simp
    next
      case (last u m)
      then show ?thesis using v [OF last(1)] round_over_data(1,2) [OF v(1,2) [OF last(1)], of m] by simp
    next
      case (on u m off' no' bp' sz' b' n' out')
      note d = round_over_data [OF v(1,2) [OF on(1)], of m]
      have "set rest \<subseteq> set (mem_list (a2_dev (round_over node m u)))"
        using d(3) rest(1) v(3) [OF on(1)] by auto
      from Cons.IH [OF on(2) d(1) this] Cons.prems(4) d(2) v(3) [OF on(1)] show ?thesis by simp
    qed
  qed
qed

lemma asleep_data:
  assumes "asleep es s = Ok (Some (t, rest))" "data_inv k0 s"
  shows "data_inv k0 t \<and> same_users s t"
  using assms
proof (induction es s rule: asleep.induct)
  case (2 h es s)
  then show ?case using interrupt_data [of h s _ k0] by (auto split: exec.splits)
next
  case (3 es s)
  then show ?case using softirq_data [of s _ k0] by (fastforce split: exec.splits if_splits)
qed simp

lemma read_data:
  assumes "asgn2_read ua w s count pos = Ok (r, out, pos', t)" "data_inv k0 s" "data_inv k0 (w s)" "same_users s (w s)"
  shows "data_inv k0 t \<and> same_users s t"
proof (cases "fin_reading s")
  case True
  then show ?thesis using assms(1,2) by (simp add: asgn2_read_def)
next
  case False
  define u where "u = (if ss_count (sess s) = 0 \<and> read_offset (sess s) = write_offset (sess s) then w s else s)"
  define v where "v = u\<lparr>sess := (sess u)\<lparr>ss_head := crem (s32 (ss_head (sess u) + 1)) MAX_SESSIONS,
    ss_count := s32 (ss_count (sess u) - 1)\<rparr>\<rparr>"
  have u: "data_inv k0 u" "same_users s u" using assms(2-4) by (simp_all add: u_def)
  then have "0 \<le> ss_head (sess u)" "ss_head (sess u) < 100" by (simp_all add: data_inv_def)
  then have "data_inv k0 v" using u(1) by (simp add: v_def data_inv_def)
  moreover obtain z b n where "asgn2_read_pages ua z (min count z) (read_offset (sess v)) (- 1) 0 0 (mem_list (a2_dev v)) v = Ok (b, n, out, t)"
    using assms(1) False unfolding asgn2_read_def u_def [symmetric] Let_def
    by (auto simp: v_def split: option.splits exec.splits)
  moreover have "distinct (map pfn (mem_list (a2_dev v)))"
    using \<open>data_inv k0 v\<close> by (simp add: data_inv_def pages_inv_def pages_ok_def)
  ultimately have "data_inv k0 t \<and> same_users v t" using read_pages_data by blast
  then show ?thesis using u(2) by (simp add: v_def)
qed

lemma read_wait_data:
  assumes "asgn2_read_wait ua es s count pos = Ok (Some ((r, out, pos', t), rest))" "data_inv k0 s"
  shows "data_inv k0 t \<and> same_users s t"
proof -
  have "\<exists>u. (u = s \<or> asleep es s = Ok (Some (u, rest))) \<and> asgn2_read ua (\<lambda>_. u) s count pos = Ok (r, out, pos', t)"
    using assms(1) by (auto simp: asgn2_read_wait_def wait_event_def split: exec.splits option.splits if_splits)
  then show ?thesis using asleep_data [of es s _ rest k0] read_data assms(2) by blast
qed

subsection \<open>The system\<close>

text \<open>
  The calls of \<open>asgn2_fops\<close> and the events of the port. A read comes with the events that happen
  while it waits; those that are left over and a read that sleeps on are events of the port by
  themselves. The file layer passes descriptors that are open, and arguments of an \<open>int\<close>.
\<close>

datatype asgn2_event =
  A2_Port port_event
| A2_Open nat "32 word"
| A2_Close nat
| A2_Read nat uaccess int "port_event list"
| A2_Ioctl nat "32 word" bool "int option"

record asgn2_sys =
  drv :: asgn2_state
  positions :: "nat \<Rightarrow> int option"

fun a2_passes :: "asgn2_sys \<Rightarrow> asgn2_event \<Rightarrow> bool" where
  "a2_passes S (A2_Port e) = True"
| "a2_passes S (A2_Open fd flags) = (positions S fd = None)"
| "a2_passes S (A2_Close fd) = (positions S fd \<noteq> None)"
| "a2_passes S (A2_Read fd ua count es) = (positions S fd \<noteq> None)"
| "a2_passes S (A2_Ioctl fd cmd arg_ok arg) =
     (positions S fd \<noteq> None \<and> (case arg of None \<Rightarrow> True | Some n \<Rightarrow> n < 2147483648))"

fun asgn2_call :: "asgn2_sys \<Rightarrow> asgn2_event \<Rightarrow> (int \<times> asgn2_sys) option exec" where
  "asgn2_call S (A2_Port e) = map_exec (\<lambda>t. Some (0, S\<lparr>drv := t\<rparr>)) (port_run [e] (drv S))"
| "asgn2_call S (A2_Open fd flags) =
     (let (r, t) = asgn2_open (drv S) flags
      in Ok (Some (r, S\<lparr>drv := t, positions := (if r = 0 then (positions S)(fd \<mapsto> 0) else positions S)\<rparr>)))"
| "asgn2_call S (A2_Close fd) =
     (let (r, t) = asgn2_release (drv S) in Ok (Some (r, S\<lparr>drv := t, positions := (positions S)(fd := None)\<rparr>)))"
| "asgn2_call S (A2_Read fd ua count es) =
     (let pos = (case positions S fd of None \<Rightarrow> 0 | Some p \<Rightarrow> p)
      in map_exec (map_option (\<lambda>((r, out, pos, t), rest). (r, S\<lparr>drv := t, positions := (positions S)(fd \<mapsto> pos)\<rparr>)))
           (asgn2_read_wait ua es (drv S) count pos))"
| "asgn2_call S (A2_Ioctl fd cmd arg_ok arg) =
     (let (r, t) = asgn2_ioctl (drv S) cmd arg_ok arg in Ok (Some (r, S\<lparr>drv := t\<rparr>)))"

inductive asgn2_step :: "asgn2_sys \<Rightarrow> asgn2_sys \<Rightarrow> bool" where
  call: "a2_passes S e \<Longrightarrow> asgn2_call S e = Ok (Some (r, T)) \<Longrightarrow> asgn2_step S T"

inductive asgn2_reachable :: "kmem \<Rightarrow> asgn2_sys \<Rightarrow> bool" for k where
  loaded: "asgn2_reachable k \<lparr>drv = asgn2_initial k, positions = (\<lambda>_. None)\<rparr>"
| step: "asgn2_reachable k S \<Longrightarrow> asgn2_step S T \<Longrightarrow> asgn2_reachable k T"

inductive_cases asgn2_stepE: "asgn2_step S T"

definition a2_inv :: "kmem \<Rightarrow> asgn2_sys \<Rightarrow> bool" where
  "a2_inv k S \<longleftrightarrow>
     data_inv k (drv S) \<and> finite (dom (positions S)) \<and>
     nprocs (a2_dev (drv S)) = int (card (dom (positions S))) \<and> nprocs (a2_dev (drv S)) < 2147483648 \<and>
     0 \<le> max_nprocs (a2_dev (drv S)) \<and> max_nprocs (a2_dev (drv S)) < 2147483648"

lemma a2_inv_same:
  assumes "a2_inv k S" "data_inv k t \<and> same_users (drv S) t" "dom ps = dom (positions S)"
  shows "a2_inv k (S\<lparr>drv := t, positions := ps\<rparr>)"
  using assms by (simp add: a2_inv_def)

lemma a2_inv_port:
  assumes "a2_inv k S" "port_run [e] (drv S) = Ok t"
  shows "a2_inv k (S\<lparr>drv := t\<rparr>)"
proof -
  have "data_inv k t \<and> same_users (drv S) t"
    using assms interrupt_data [of _ "drv S" t k] softirq_data [of "drv S" t k]
    by (cases e) (auto simp: a2_inv_def split: exec.splits)
  then show ?thesis using assms(1) by (simp add: a2_inv_def)
qed

lemma a2_inv_open:
  assumes "a2_inv k S" "positions S fd = None" "asgn2_open (drv S) flags = (r, t)"
  shows "a2_inv k (S\<lparr>drv := t, positions := (if r = 0 then (positions S)(fd \<mapsto> 0) else positions S)\<rparr>)"
proof -
  have "fd \<notin> dom (positions S)" "finite (dom (positions S))" using assms(1,2) by (auto simp: a2_inv_def)
  then have "card (insert fd (dom (positions S))) = Suc (card (dom (positions S)))" by simp
  then show ?thesis using assms by (auto simp: a2_inv_def asgn2_open_def data_inv_def pages_inv_def split: if_splits)
qed

lemma a2_inv_close:
  assumes "a2_inv k S" "positions S fd \<noteq> None"
  shows "a2_inv k (S\<lparr>drv := snd (asgn2_release (drv S)), positions := (positions S)(fd := None)\<rparr>)"
proof -
  have "fd \<in> dom (positions S)" "finite (dom (positions S))" using assms by (auto simp: a2_inv_def)
  then have "card (dom (positions S)) = Suc (card (dom (positions S) - {fd}))"
    by (metis card_Suc_Diff1)
  then show ?thesis using assms by (auto simp: a2_inv_def asgn2_release_def)
qed

lemma a2_inv_call:
  assumes "a2_inv k S" "a2_passes S e" "asgn2_call S e = Ok (Some (r, T))"
  shows "a2_inv k T"
proof (cases e)
  case (A2_Port p)
  then show ?thesis using assms a2_inv_port [OF assms(1)] by (cases "port_run [p] (drv S)") (auto simp del: port_run.simps)
next
  case (A2_Open fd flags)
  then show ?thesis using assms a2_inv_open [OF assms(1), of fd flags] by (auto split: prod.splits)
next
  case (A2_Close fd)
  then show ?thesis using assms a2_inv_close [OF assms(1), of fd] by (auto simp: asgn2_release_def)
next
  case (A2_Read fd ua count es)
  obtain p where p: "positions S fd = Some p" using assms(2) A2_Read by auto
  then obtain out pos t rest where t: "asgn2_read_wait ua es (drv S) count p = Ok (Some ((r, out, pos, t), rest))"
    "T = S\<lparr>drv := t, positions := (positions S)(fd \<mapsto> pos)\<rparr>"
    using assms(3) A2_Read by (cases "asgn2_read_wait ua es (drv S) count p") auto
  have "data_inv k t \<and> same_users (drv S) t" using read_wait_data [OF t(1), of k] assms(1) unfolding a2_inv_def by blast
  moreover have "dom ((positions S)(fd \<mapsto> pos)) = dom (positions S)" using p by auto
  ultimately show ?thesis unfolding t(2) by (rule a2_inv_same [OF assms(1)])
next
  case (A2_Ioctl fd cmd arg_ok arg)
  then show ?thesis using assms
    by (auto simp: a2_inv_def asgn2_ioctl_def Let_def split: if_splits option.splits)
qed

lemma a2_inv_reachable:
  assumes "fresh_kmem k" "asgn2_reachable k S" shows "a2_inv k S"
  using assms(2)
proof (induction rule: asgn2_reachable.induct)
  case loaded
  then show ?case
    using assms(1) by (simp add: a2_inv_def data_inv_def pages_inv_def fresh_kmem_def asgn2_initial_def cbuf_ok_def)
next
  case (step S T)
  then show ?case using a2_inv_call by (auto elim: asgn2_stepE)
qed

subsection \<open>The crashes of the port\<close>

lemma interrupt_fault:
  assumes "dummyport_interrupt h s = Fault" "data_inv k s"
  shows "session_end (sess s) < 0"
proof -
  have ok: "cbuf_ok (cbuf s)" "length (sizes (sess s)) = 100" using assms(2) by (simp_all add: data_inv_def)
  have "count_byte (sess s) = None \<or> (cb_count (cbuf s) < 64 \<and> (\<exists>b. cbuf_put b (cbuf s) = None))"
    using assms(1) by (auto simp: dummyport_interrupt_def Let_def split: if_splits option.splits)
  moreover have "\<exists>c. cbuf_put b (cbuf s) = Some c" if "cb_count (cbuf s) < 64" for b
    using cbuf_put_contents [OF ok(1) that] by blast
  ultimately have "count_byte (sess s) = None" by (metis option.distinct(1))
  moreover have "session_end (sess s) < 100"
    using crem_less [of 100 "s32 (ss_head (sess s) + ss_count (sess s))"] by (simp add: session_end_def)
  ultimately show ?thesis using ok(2) by (auto simp: count_byte_def array_get_def array_set_def split: if_splits)
qed

lemma copy_byte_fault:
  assumes "copy_byte s = Fault" "data_inv k s" "cb_count (cbuf s) \<noteq> 0"
  shows "mem_list (a2_dev s) = [] \<and> write_offset (sess s) \<noteq> 0"
proof (rule ccontr)
  assume n: "\<not> (mem_list (a2_dev s) = [] \<and> write_offset (sess s) \<noteq> 0)"
  have "asgn2_wf (s\<lparr>sess := (sess s)\<lparr>ss_count := 0, sizes := replicate 100 0\<rparr>\<rparr>)"
    using assms(2) n by (auto simp: asgn2_wf_def data_inv_def pages_inv_def pages_ok_def frames_ok_def kmem_ok_def)
  from copy_byte_wf [OF this] assms(1,3) show False
    by (auto simp: copy_byte_def store_byte_def stored_def Let_def split: option.splits prod.splits if_splits)
qed

lemma copy_byte_page:
  assumes "copy_byte s = Ok (True, t)" shows "mem_list (a2_dev t) \<noteq> []"
  using assms
  by (auto simp: copy_byte_def store_byte_def stored_def store_first_def store_last_def list_add_tail_def Let_def
      split: option.splits prod.splits if_splits list.splits)

lemma copy_loop_total:
  assumes "data_inv k s" "mem_list (a2_dev s) \<noteq> [] \<or> write_offset (sess s) = 0"
  shows "copy_loop s \<noteq> Fault"
  using assms
proof (induction s rule: copy_loop.induct)
  case (1 s)
  show ?case
  proof (cases "s32 (cb_count (cbuf s)) = 0")
    case True
    then show ?thesis by (simp add: copy_loop.simps [of s])
  next
    case False
    then have "cb_count (cbuf s) \<noteq> 0" by auto
    then have "copy_byte s \<noteq> Fault" using copy_byte_fault 1(2,3) by blast
    moreover have "copy_loop u \<noteq> Fault" if "copy_byte s = Ok (True, u)" for u
      using 1(1) [OF False that] copy_byte_data [OF that 1(2)] copy_byte_page [OF that] \<open>cb_count (cbuf s) \<noteq> 0\<close>
      by blast
    ultimately show ?thesis
      using False by (auto simp: copy_loop.simps [of s] split: exec.split bool.split)
  qed
qed

lemma softirq_fault:
  assumes "softirq s = Fault" "data_inv k s"
  shows "mem_list (a2_dev s) = [] \<and> write_offset (sess s) \<noteq> 0"
proof -
  have "copy_loop (s\<lparr>lock_held := True, scheduled := False\<rparr>) = Fault"
    using assms(1) by (auto simp: softirq_def tasklet_copy_def split: if_splits exec.splits bool.splits)
  then show ?thesis using copy_loop_total [of k "s\<lparr>lock_held := True, scheduled := False\<rparr>"] assms(2) by auto
qed

subsection \<open>The property\<close>



end
