(* ===== verification/Asgn2_Unload.thy ===== *)
theory Asgn2_Unload
  imports Asgn2_System Asgn2_Module
begin

section \<open>The life of the dummy-port driver\<close>

text \<open>
  Loading the module, any events and calls, and unloading it: what is given back and what is not.
\<close>

text \<open>
  \<^verbatim>\<open>free_memory_pages\<close> of \<^verbatim>\<open>asgn2/asgn.c\<close>, with the list that the loop walks over as it was. It does
  what the function of the same name in \<^verbatim>\<open>asgn1.c\<close> does, which the set-up uses for both.
\<close>

fun asgn2_free_loop :: "page_node list \<Rightarrow> kmem \<times> page_node list \<Rightarrow> kmem \<times> page_node list" where
  "asgn2_free_loop [] (k, ns) = (k, ns)"
| "asgn2_free_loop (node # nodes) (k, ns) = asgn2_free_loop nodes (kfree (free_page k), list_del node ns)"

definition asgn2_free_memory_pages :: "kmem \<Rightarrow> asgn_dev \<Rightarrow> kmem \<times> asgn_dev" where
  "asgn2_free_memory_pages k d =
     (let (k, ns) = asgn2_free_loop (mem_list d) (k, mem_list d)
      in (k, d\<lparr>mem_list := ns, data_size := 0, num_pages := 0\<rparr>))"

lemma asgn2_free_loop_nodes:
  "free_nodes ps k (d\<lparr>mem_list := ns\<rparr>) =
     (let (k, ns) = asgn2_free_loop ps (k, ns) in (k, d\<lparr>mem_list := ns\<rparr>))"
  by (induction ps arbitrary: k ns) simp_all

lemma asgn2_free_memory_pages_eq: "asgn2_free_memory_pages = free_memory_pages"
proof (intro ext)
  fix k and d :: asgn_dev
  show "asgn2_free_memory_pages k d = free_memory_pages k d"
    using asgn2_free_loop_nodes [where ps = "mem_list d" and k = k and d = d and ns = "mem_list d"]
    by (simp add: asgn2_free_memory_pages_def free_memory_pages_def split: prod.split)
qed

text \<open>The variables of the loaded module after a run, and its unloading.\<close>

definition asgn2_after :: "asgn2_module \<Rightarrow> asgn2_sys \<Rightarrow> asgn2_module" where
  "asgn2_after m S =
     m\<lparr>common := (common m)\<lparr>m_kmem := a2_kmem (drv S), m_dev := a2_dev (drv S)\<rparr>,
       init_cbuf := cbuf (drv S), init_sess := sess (drv S)\<rparr>"

definition asgn2_life :: "init_env \<Rightarrow> gpio_env \<Rightarrow> kmem \<Rightarrow> asgn2_sys \<Rightarrow> outcome \<times> asgn2_module" where
  "asgn2_life e g k S = asgn2_exit_module (asgn2_after (snd (asgn2_init_module e g (asgn2_just_loaded k))) S)"

lemma asgn2_init_loaded:
  assumes "early_granted e" "e_class e" "e_device e" "gpio_granted g"
  shows "\<exists>m. asgn2_init_module e g (asgn2_just_loaded k) = (Returned 0, m) \<and> running m = asgn2_initial k \<and>
    m_list_ready (common m) \<and> m_class (common m) = Valid \<and>
    m_trace (common m) = [Alloc_region, Cdev_alloc, Create_proc, Request_gpios, Request_irq, Free_gpios,
      Class_create, Device_create]"
  using assms
  by (simp add: asgn2_init_module_def asgn2_just_loaded_def just_loaded_def zero_dev_def early_granted_def
      gpio_init_granted Let_def running_def asgn2_initial_def cleared del: clear_loop.simps)



end
