(* ===== verification/Asgn2_Port.thy ===== *)
theory Asgn2_Port
  imports Asgn2_Unload
begin

section \<open>From the pins to the reader\<close>

text \<open>
  The parts of the driver composed: the module is loaded, the levels of the pins are read in every
  interrupt, the tasklet runs when the kernel gets to it, and programs open the device, read a
  session and close it.
\<close>

text \<open>What happens at the port: an interrupt with the registers as they are then, or the softirq.\<close>

datatype pin_event = Raised registers | Deferred

definition at_port :: "32 word \<Rightarrow> pin_event \<Rightarrow> port_event" where
  "at_port base e = (case e of Raised regs \<Rightarrow> Half (read_half_byte regs base) | Deferred \<Rightarrow> Softirq)"

fun pin_serve :: "32 word \<Rightarrow> uaccess \<Rightarrow> int \<Rightarrow> pin_event list list \<Rightarrow> asgn2_state \<Rightarrow>
    ((int \<times> byte list) list \<times> asgn2_state) exec" where
  "pin_serve base ua count [] s = Ok ([], s)"
| "pin_serve base ua count (es # ess) s =
     (case port_run (map (at_port base) es) s of
        Ok s1 \<Rightarrow>
          (case open_read_release ua count s1 of
             Ok (n, out, s2) \<Rightarrow>
               (case pin_serve base ua count ess s2 of
                  Ok (outs, t) \<Rightarrow> Ok ((n, out) # outs, t)
                | Spins \<Rightarrow> Spins
                | Fault \<Rightarrow> Fault)
           | Spins \<Rightarrow> Spins
           | Fault \<Rightarrow> Fault)
      | Spins \<Rightarrow> Spins
      | Fault \<Rightarrow> Fault)"

text \<open>
  The levels of the four data pins show a half-byte; the other pins may have any level.
\<close>

definition pins_show :: "32 word \<Rightarrow> byte \<Rightarrow> registers \<Rightarrow> bool" where
  "pins_show base h regs \<longleftrightarrow>
     bit (regs (base + 0x34)) 7 = bit h 0 \<and> bit (regs (base + 0x34)) 17 = bit h 1 \<and>
     bit (regs (base + 0x34)) 22 = bit h 2 \<and> bit (regs (base + 0x34)) 24 = bit h 3"

fun pins_follow :: "32 word \<Rightarrow> pin_event \<Rightarrow> port_event \<Rightarrow> bool" where
  "pins_follow base (Raised regs) (Half h) = pins_show base h regs"
| "pins_follow base Deferred Softirq = True"
| "pins_follow base _ _ = False"

lemma half_bits:
  assumes "h AND 15 = (h :: byte)"
  shows "(if bit h 0 then 1 else (0 :: byte)) OR (if bit h 1 then 2 else 0) OR (if bit h 2 then 4 else 0) OR
    (if bit h 3 then 8 else 0) = h"
proof (rule bit_word_eqI)
  fix n
  assume n: "n < LENGTH(8)"
  have "bit h n \<Longrightarrow> n < 4"
  proof -
    assume "bit h n"
    then have "bit (h AND mask 4) n" using assms by (simp add: mask_eq_exp_minus_1)
    then show "n < 4" by (simp add: bit_simps)
  qed
  moreover have "bit (2 :: byte) n \<longleftrightarrow> n = 1" "bit (4 :: byte) n \<longleftrightarrow> n = 2" "bit (8 :: byte) n \<longleftrightarrow> n = 3"
    using n bit_exp_iff [of 1 n, where 'a = "8 word"] bit_exp_iff [of 2 n, where 'a = "8 word"]
      bit_exp_iff [of 3 n, where 'a = "8 word"] by auto
  ultimately show "bit ((if bit h 0 then 1 else (0 :: byte)) OR (if bit h 1 then 2 else 0) OR (if bit h 2 then 4 else 0) OR
      (if bit h 3 then 8 else 0)) n = bit h n"
    by (cases "n = 0"; cases "n = 1"; cases "n = 2"; cases "n = 3") (auto simp: bit_simps)
qed

lemma read_half_byte_shown:
  assumes "pins_show base h regs" "h AND 15 = h"
  shows "read_half_byte regs base = h"
proof -
  have "read_half_byte regs base =
      (if bit h 0 then 1 else 0) OR (if bit h 1 then 2 else 0) OR (if bit h 2 then 4 else 0) OR (if bit h 3 then 8 else 0)"
    using assms(1) unfolding read_half_byte_def gpio_inw_def pin_test Let_def pins_show_def
    by (cases "bit h 0"; cases "bit h 1"; cases "bit h 2"; cases "bit h 3") simp_all
  then show ?thesis using half_bits [OF assms(2)] by simp
qed

lemma at_port_followed:
  assumes "list_all2 (pins_follow base) es ps" "\<forall>h. Half h \<in> set ps \<longrightarrow> h AND 15 = h"
  shows "map (at_port base) es = ps"
  using assms
proof (induction rule: list_all2_induct)
  case Nil
  then show ?case by simp
next
  case (Cons e es p ps)
  have "at_port base e = p"
    using Cons.hyps(1) Cons.prems read_half_byte_shown by (cases e; cases p) (auto simp: at_port_def)
  then show ?case using Cons.IH Cons.prems by simp
qed

lemma sent_halves: "Half h \<in> set (send_session cs) \<Longrightarrow> h AND 15 = h"
proof -
  have "drop_bit 4 b AND 15 = drop_bit 4 (b :: byte)" for b
  proof (rule bit_word_eqI)
    fix n
    assume "n < LENGTH(8)"
    have "bit (15 :: byte) n \<longleftrightarrow> n < 4"
    proof -
      have "(15 :: byte) = mask 4" by (simp add: mask_eq_exp_minus_1)
      then show ?thesis using \<open>n < LENGTH(8)\<close> by (simp only: bit_mask_iff) auto
    qed
    moreover have "bit b (4 + n) \<Longrightarrow> n < 4" using bit_imp_le_length [of b "4 + n"] by simp
    ultimately show "bit (drop_bit 4 b AND 15) n = bit (drop_bit 4 b) n" by (auto simp: bit_simps)
  qed
  moreover assume "Half h \<in> set (send_session cs)"
  then have "h = 0 \<or> (\<exists>x. h = drop_bit 4 x \<or> h = x AND 15)"
    by (auto simp: send_session_def send_chunk_def send_def halves_def split: if_splits)
  ultimately show ?thesis by (metis and.right_idem zero_and_eq)
qed

lemma pin_serve_followed:
  assumes "list_all2 (\<lambda>es cs. list_all2 (pins_follow base) es (send_session cs)) ess css"
  shows "pin_serve base ua count ess s = serve ua count css s"
  using assms
proof (induction arbitrary: s rule: list_all2_induct)
  case Nil
  then show ?case by simp
next
  case (Cons es ess cs css)
  have "map (at_port base) es = send_session cs"
    using at_port_followed [OF Cons.hyps(1)] sent_halves by blast
  then show ?case using Cons.IH by (auto split: exec.split)
qed

text \<open>
  C6: from the pins to the readers: after loading, whatever levels the other pins have, if the data
  pins show the halves of the bytes of up to 100 sessions, in chunks that fit the buffer and with
  no session across the end of a page, and each session is followed by a program that opens the
  device, reads and closes it, then every program gets exactly the bytes of its session.
\<close>

theorem asgn2_port_to_reader:
  assumes "early_granted e" "e_class e" "e_device e" "gpio_granted g"
    and "frames_ok k" "mem_available (length css) k" "no_fault ua" "4096 \<le> count" "length css \<le> 100"
    and "\<forall>cs \<in> set css. \<forall>c \<in> set cs. 0 \<notin> set c \<and> length c \<le> 64"
    and "within_pages 0 (map (\<lambda>cs. length (concat cs)) css)"
    and "list_all2 (\<lambda>es cs. list_all2 (pins_follow base) es (send_session cs)) ess css"
  shows "\<exists>m t. asgn2_init_module e g (asgn2_just_loaded k) = (Returned 0, m) \<and>
    pin_serve base ua count ess (running m) = Ok (map (\<lambda>cs. (int (length (concat cs)), concat cs)) css, t)"
proof -
  obtain m where m: "asgn2_init_module e g (asgn2_just_loaded k) = (Returned 0, m)" "running m = asgn2_initial k"
    using asgn2_init_loaded [OF assms(1-4)] by blast
  have "\<exists>t. serve ua count css (asgn2_initial k) = Ok (map (\<lambda>cs. (int (length (concat cs)), concat cs)) css, t)"
    using assms(6-11) by (intro asgn2_serves_sessions [OF in_session_initial [OF assms(5)]]) simp_all
  then show ?thesis using m pin_serve_followed [OF assms(12)] by auto
qed

text \<open>
  The letter B, the half-byte 4 on the pins and then 2, the tasklet, and the zero byte: one read returns it.
\<close>

theorem asgn2_port_to_reader_witness:
  "\<exists>m t. asgn2_init_module good_env good_gpio (asgn2_just_loaded (clean_kmem 1)) = (Returned 0, m) \<and>
    pin_serve 0x20200000 all_copied 4096
      [[Raised (\<lambda>_. 4194304), Raised (\<lambda>_. 131072), Deferred, Raised (\<lambda>_. 0), Raised (\<lambda>_. 1), Deferred]]
      (running m) = Ok ([(1, [66])], t)"
proof -
  have "send_session [[66]] = [Half 4, Half 2, Softirq, Half 0, Half 0, Softirq]"
    by (simp add: send_session_def send_chunk_def send_def halves_def)
  moreover have "bit (4194304 :: 32 word) 22" "\<not> bit (4194304 :: 32 word) 7" "\<not> bit (4194304 :: 32 word) 17"
    "\<not> bit (4194304 :: 32 word) 24" "bit (131072 :: 32 word) 17" "\<not> bit (131072 :: 32 word) 7"
    "\<not> bit (131072 :: 32 word) 22" "\<not> bit (131072 :: 32 word) 24" "\<not> bit (1 :: 32 word) 7"
    "\<not> bit (1 :: 32 word) 17" "\<not> bit (1 :: 32 word) 22" "\<not> bit (1 :: 32 word) 24"
    by (simp_all add: bit_iff_odd)
  moreover have "bit (4 :: byte) 2" "\<not> bit (4 :: byte) 0" "\<not> bit (4 :: byte) 1" "\<not> bit (4 :: byte) 3"
    "bit (2 :: byte) 1" "\<not> bit (2 :: byte) 0" "\<not> bit (2 :: byte) 2" "\<not> bit (2 :: byte) 3"
    by (simp_all add: bit_iff_odd)
  ultimately have "list_all2 (\<lambda>es cs. list_all2 (pins_follow 0x20200000) es (send_session cs))
      [[Raised (\<lambda>_. 4194304), Raised (\<lambda>_. 131072), Deferred, Raised (\<lambda>_. 0), Raised (\<lambda>_. 1), Deferred]]
      [[[66]]]"
    by (simp add: pins_show_def)
  from asgn2_port_to_reader [OF good_granted(1) _ _ good_granted(2) frames_ok_clean _ no_fault_all_copied _ _ _ _ this,
      of 1 4096] mem_available_clean [of 1]
  show ?thesis by (simp add: good_env_def)
qed

end
