(* ===== verification/Asgn2_Preempt.thy ===== *)
theory Asgn2_Preempt
  imports Asgn2_Serve Asgn2_Sim
begin

section \<open>Interrupts inside the tasklet\<close>

text \<open>
  \<^verbatim>\<open>tasklet_copy\<close> cut into the steps between which an interrupt of the port can come: each access
  to the buffer that \<^verbatim>\<open>dummyport_interrupt\<close> shares is a step of its own, and the step itself is not
  interrupted. Both functions take the lock by \<^verbatim>\<open>spin_lock\<close>, which leaves the interrupts on. The flag
  \<open>smp\<close> is the kernel's configuration: on a kernel for one processor the spin locks are compiled to
  nothing.
\<close>

subsection \<open>The steps\<close>

text \<open>Where the tasklet is, with the values of its local variables.\<close>

datatype tasklet_at =
  Starting | Locking | Testing | Taking | Advancing byte | Counting byte | Discounting byte int
| Storing byte | Unlocking | Done

fun tasklet_step :: "bool \<Rightarrow> tasklet_at \<Rightarrow> asgn2_state \<Rightarrow> (tasklet_at \<times> asgn2_state) exec" where
  "tasklet_step smp Starting s = Ok (Locking, s\<lparr>scheduled := False\<rparr>)"
| "tasklet_step smp Locking s =
     (if smp then (if lock_held s then Spins else Ok (Testing, s\<lparr>lock_held := True\<rparr>)) else Ok (Testing, s))"
| "tasklet_step smp Testing s = Ok (if s32 (cb_count (cbuf s)) = 0 then Unlocking else Taking, s)"
| "tasklet_step smp Taking s =
     (case array_get (cb_buffer (cbuf s)) (cb_head (cbuf s)) of
        None \<Rightarrow> Fault
      | Some byte \<Rightarrow> Ok (Advancing byte, s))"
| "tasklet_step smp (Advancing byte) s =
     Ok (Counting byte, s\<lparr>cbuf := (cbuf s)\<lparr>cb_head := crem (s32 (cb_head (cbuf s) + 1)) BUFFER_CAPACITY\<rparr>\<rparr>)"
| "tasklet_step smp (Counting byte) s = Ok (Discounting byte (cb_count (cbuf s)), s)"
| "tasklet_step smp (Discounting byte n) s =
     Ok (Storing byte, s\<lparr>cbuf := (cbuf s)\<lparr>cb_count := s32 (n - 1)\<rparr>\<rparr>)"
| "tasklet_step smp (Storing byte) s =
     (case store_byte byte s of
        Ok (go, t) \<Rightarrow> Ok (if go then Testing else Done, t)
      | Spins \<Rightarrow> Spins
      | Fault \<Rightarrow> Fault)"
| "tasklet_step smp Unlocking s = Ok (Done, if smp then s\<lparr>lock_held := False\<rparr> else s)"
| "tasklet_step smp Done s = Ok (Done, s)"

text \<open>The handler under either configuration.\<close>

definition interrupt_on :: "bool \<Rightarrow> byte \<Rightarrow> asgn2_state \<Rightarrow> asgn2_state exec" where
  "interrupt_on smp h s =
     (if smp then dummyport_interrupt h s
      else (case dummyport_interrupt h (s\<lparr>lock_held := False\<rparr>) of
              Ok t \<Rightarrow> Ok (t\<lparr>lock_held := lock_held s\<rparr>)
            | Spins \<Rightarrow> Spins
            | Fault \<Rightarrow> Fault))"

datatype turn = Go | Irq byte

fun turns :: "bool \<Rightarrow> turn list \<Rightarrow> tasklet_at \<times> asgn2_state \<Rightarrow> (tasklet_at \<times> asgn2_state) exec" where
  "turns smp [] c = Ok c"
| "turns smp (Go # es) (p, s) =
     (case tasklet_step smp p s of Ok c \<Rightarrow> turns smp es c | Spins \<Rightarrow> Spins | Fault \<Rightarrow> Fault)"
| "turns smp (Irq h # es) (p, s) =
     (case interrupt_on smp h s of Ok t \<Rightarrow> turns smp es (p, t) | Spins \<Rightarrow> Spins | Fault \<Rightarrow> Fault)"

fun irqs :: "turn list \<Rightarrow> byte list" where
  "irqs [] = []"
| "irqs (Go # es) = irqs es"
| "irqs (Irq h # es) = h # irqs es"

lemma turns_append:
  "turns smp (as @ bs) c = (case turns smp as c of Ok c \<Rightarrow> turns smp bs c | Spins \<Rightarrow> Spins | Fault \<Rightarrow> Fault)"
  by (induction smp as c rule: turns.induct) (auto split: exec.splits)

text \<open>A round of the loop is its first four accesses and the rest.\<close>

lemma copy_byte_steps:
  "copy_byte s =
     (case array_get (cb_buffer (cbuf s)) (cb_head (cbuf s)) of
        None \<Rightarrow> Fault
      | Some byte \<Rightarrow>
          store_byte byte (s\<lparr>cbuf := (cbuf s)\<lparr>cb_head := crem (s32 (cb_head (cbuf s) + 1)) BUFFER_CAPACITY,
            cb_count := s32 (cb_count (cbuf s) - 1)\<rparr>\<rparr>))"
  by (simp add: copy_byte_def cbuf_take_def split: option.split)

subsection \<open>What is left of the tasklet\<close>

definition unlocked :: "(bool \<times> asgn2_state) exec \<Rightarrow> asgn2_state exec" where
  "unlocked r =
     (case r of Ok (go, t) \<Rightarrow> Ok (if go then t\<lparr>lock_held := False\<rparr> else t) | Spins \<Rightarrow> Spins | Fault \<Rightarrow> Fault)"

definition loop_on :: "(bool \<times> asgn2_state) exec \<Rightarrow> asgn2_state exec" where
  "loop_on r =
     (case r of Ok (go, t) \<Rightarrow> (if go then unlocked (copy_loop t) else Ok t) | Spins \<Rightarrow> Spins | Fault \<Rightarrow> Fault)"

fun remaining :: "tasklet_at \<Rightarrow> asgn2_state \<Rightarrow> asgn2_state exec" where
  "remaining Starting s = tasklet_copy s"
| "remaining Locking s = (if lock_held s then Spins else unlocked (copy_loop (s\<lparr>lock_held := True\<rparr>)))"
| "remaining Testing s = unlocked (copy_loop s)"
| "remaining Taking s = loop_on (copy_byte s)"
| "remaining (Advancing b) s =
     loop_on (store_byte b (s\<lparr>cbuf := (cbuf s)\<lparr>cb_head := crem (s32 (cb_head (cbuf s) + 1)) BUFFER_CAPACITY,
       cb_count := s32 (cb_count (cbuf s) - 1)\<rparr>\<rparr>))"
| "remaining (Counting b) s = loop_on (store_byte b (s\<lparr>cbuf := (cbuf s)\<lparr>cb_count := s32 (cb_count (cbuf s) - 1)\<rparr>\<rparr>))"
| "remaining (Discounting b n) s = loop_on (store_byte b (s\<lparr>cbuf := (cbuf s)\<lparr>cb_count := s32 (n - 1)\<rparr>\<rparr>))"
| "remaining (Storing b) s = loop_on (store_byte b s)"
| "remaining Unlocking s = Ok (s\<lparr>lock_held := False\<rparr>)"
| "remaining Done s = Ok s"

lemma tasklet_copy_rest: "tasklet_copy s = remaining Locking (s\<lparr>scheduled := False\<rparr>)"
  by (cases s) (simp add: tasklet_copy_def unlocked_def split: exec.split bool.split)

lemma copy_loop_round:
  "unlocked (copy_loop s) =
     (if s32 (cb_count (cbuf s)) = 0 then Ok (s\<lparr>lock_held := False\<rparr>) else loop_on (copy_byte s))"
  by (subst copy_loop.simps) (auto simp: unlocked_def loop_on_def split: exec.split bool.split)

lemma step_rest:
  assumes "tasklet_step True p s = Ok (q, t)"
  shows "remaining q t = remaining p s"
proof (cases p)
  case Starting
  then show ?thesis using assms by (simp add: tasklet_copy_rest del: remaining.simps(2))
next
  case Locking
  then show ?thesis using assms by (simp split: if_splits)
next
  case Testing
  then show ?thesis using assms by (simp add: copy_loop_round split: if_splits)
next
  case Taking
  then show ?thesis using assms by (auto simp: copy_byte_steps split: option.splits)
next
  case (Storing b)
  then show ?thesis using assms by (auto simp: loop_on_def split: exec.splits)
qed (use assms in auto)

subsection \<open>The tasklet does not see the half byte\<close>

definition port_flags :: "bool \<Rightarrow> byte \<Rightarrow> bool \<Rightarrow> asgn2_state \<Rightarrow> asgn2_state" where
  "port_flags a b d s = s\<lparr>toggle := a, top_full_byte := b, scheduled := d\<rparr>"

lemma port_flags_fields [simp]:
  "a2_kmem (port_flags a b d s) = a2_kmem s" "a2_dev (port_flags a b d s) = a2_dev s"
  "cbuf (port_flags a b d s) = cbuf s" "sess (port_flags a b d s) = sess s"
  "lock_held (port_flags a b d s) = lock_held s" "toggle (port_flags a b d s) = a"
  "scheduled (port_flags a b d s) = d" "top_full_byte (port_flags a b d s) = b"
  by (simp_all add: port_flags_def)

lemma port_flags_updates:
  "(port_flags a b d s)\<lparr>a2_kmem := k\<rparr> = port_flags a b d (s\<lparr>a2_kmem := k\<rparr>)"
  "(port_flags a b d s)\<lparr>a2_dev := dev\<rparr> = port_flags a b d (s\<lparr>a2_dev := dev\<rparr>)"
  "(port_flags a b d s)\<lparr>cbuf := c\<rparr> = port_flags a b d (s\<lparr>cbuf := c\<rparr>)"
  "(port_flags a b d s)\<lparr>sess := ss\<rparr> = port_flags a b d (s\<lparr>sess := ss\<rparr>)"
  "(port_flags a b d s)\<lparr>lock_held := l\<rparr> = port_flags a b d (s\<lparr>lock_held := l\<rparr>)"
  by (simp_all add: port_flags_def)

lemma store_byte_flags:
  "store_byte x (port_flags a b d s) = map_exec (map_prod id (port_flags a b d)) (store_byte x s)"
  by (auto simp: store_byte_def stored_def Let_def port_flags_updates split: option.splits prod.splits)

lemma copy_byte_flags:
  "copy_byte (port_flags a b d s) = map_exec (map_prod id (port_flags a b d)) (copy_byte s)"
  by (simp add: copy_byte_steps port_flags_updates store_byte_flags split: option.split)

lemma copy_loop_flags:
  "copy_loop (port_flags a b d s) = map_exec (map_prod id (port_flags a b d)) (copy_loop s)"
proof (induction s rule: copy_loop.induct)
  case (1 s)
  show ?case
  proof (cases "s32 (cb_count (cbuf s)) = 0")
    case True
    then show ?thesis by (simp add: copy_loop.simps [of s] copy_loop.simps [of "port_flags a b d s"])
  next
    case False
    then show ?thesis using 1 [OF False]
      by (simp add: copy_loop.simps [of s] copy_loop.simps [of "port_flags a b d s"] copy_byte_flags
          split: exec.split prod.split bool.split)
  qed
qed

lemma unlocked_flags:
  "unlocked (map_exec (map_prod id (port_flags a b d)) r) = map_exec (port_flags a b d) (unlocked r)"
  by (cases r) (auto simp: unlocked_def port_flags_updates)

lemma loop_on_flags:
  "loop_on (map_exec (map_prod id (port_flags a b d)) r) = map_exec (port_flags a b d) (loop_on r)"
  by (cases r) (auto simp: loop_on_def copy_loop_flags unlocked_flags)

lemma rest_flags:
  assumes "p \<noteq> Starting"
  shows "remaining p (port_flags a b d s) = map_exec (port_flags a b d) (remaining p s)"
  using assms
  by (cases p) (simp_all add: port_flags_updates copy_loop_flags copy_byte_flags store_byte_flags
      unlocked_flags loop_on_flags)

text \<open>The tasklet leaves the flags as they are, once it has cleared its own.\<close>

lemma rest_keeps:
  assumes "remaining p s = Ok t" "p \<noteq> Starting"
  shows "toggle t = toggle s \<and> top_full_byte t = top_full_byte s \<and> scheduled t = scheduled s"
proof -
  have "port_flags (toggle s) (top_full_byte s) (scheduled s) s = s" by (simp add: port_flags_def)
  then have "Ok t = map_exec (port_flags (toggle s) (top_full_byte s) (scheduled s)) (Ok t)"
    using rest_flags [OF assms(2), of "toggle s" "top_full_byte s" "scheduled s" s] assms(1) by simp
  then have "t = port_flags (toggle s) (top_full_byte s) (scheduled s) t" by simp
  then show ?thesis by (metis port_flags_fields(6-8))
qed

subsection \<open>Every interleaving is a serial one\<close>

lemma first_half:
  "toggle s \<Longrightarrow> dummyport_interrupt h s = Ok (port_flags False (push_bit 4 h) (scheduled s) s)"
  by (simp add: dummyport_interrupt_def port_flags_def)

lemma second_half_spins: "\<not> toggle s \<Longrightarrow> lock_held s \<Longrightarrow> dummyport_interrupt h s = Spins"
  by (simp add: dummyport_interrupt_def Let_def)

lemma store_byte_lock: "store_byte b s = Ok (go, t) \<Longrightarrow> lock_held t = lock_held s"
  by (auto simp: store_byte_def stored_def Let_def split: option.splits prod.splits if_splits)

text \<open>The places at which the tasklet holds the lock.\<close>

definition critical :: "tasklet_at \<Rightarrow> bool" where
  "critical p \<longleftrightarrow> p \<noteq> Starting \<and> p \<noteq> Locking \<and> p \<noteq> Done"

lemma step_critical:
  assumes "tasklet_step True p s = Ok (q, t)" "critical p" "lock_held s"
  shows "q = Done \<or> critical q \<and> lock_held t"
  using assms by (cases p) (auto simp: critical_def dest: store_byte_lock split: if_splits option.splits exec.splits)

lemma critical_serial:
  assumes "turns True es (p, s) = Ok (Done, t)" "p = Done \<or> critical p \<and> lock_held s"
  shows "\<exists>v. remaining p s = Ok v \<and> port_run (map Half (irqs es)) v = Ok t"
  using assms
proof (induction es arbitrary: p s)
  case Nil
  then show ?case by simp
next
  case (Cons e es)
  show ?case
  proof (cases e)
    case Go
    then obtain q u where q: "tasklet_step True p s = Ok (q, u)" "turns True es (q, u) = Ok (Done, t)"
      using Cons.prems(1) by (auto split: exec.splits)
    have "q = Done \<or> critical q \<and> lock_held u"
      using step_critical [OF q(1)] Cons.prems(2) q(1) by auto
    then show ?thesis using Cons.IH [OF q(2)] step_rest [OF q(1)] Go by simp
  next
    case (Irq h)
    then obtain u where u: "dummyport_interrupt h s = Ok u" "turns True es (p, u) = Ok (Done, t)"
      using Cons.prems(1) by (auto simp: interrupt_on_def split: exec.splits)
    show ?thesis
    proof (cases "p = Done")
      case True
      then show ?thesis using Cons.IH [OF u(2)] u(1) Irq by auto
    next
      case False
      then have p: "critical p" "lock_held s" using Cons.prems(2) by simp_all
      then have "toggle s" using second_half_spins u(1) by fastforce
      then have flags: "u = port_flags False (push_bit 4 h) (scheduled s) s" using first_half u(1) by simp
      obtain w where w: "remaining p u = Ok w" "port_run (map Half (irqs es)) w = Ok t"
        using Cons.IH [OF u(2)] p flags by auto
      have "p \<noteq> Starting" using p(1) by (simp add: critical_def)
      then obtain v where v: "remaining p s = Ok v" "w = port_flags False (push_bit 4 h) (scheduled s) v"
        using rest_flags w(1) flags by (cases "remaining p s") auto
      have "toggle v" "scheduled v = scheduled s"
        using rest_keeps [OF v(1) \<open>p \<noteq> Starting\<close>] \<open>toggle s\<close> by simp_all
      then have "dummyport_interrupt h v = Ok w" using first_half v(2) by simp
      then show ?thesis using v(1) w(2) Irq by simp
    qed
  qed
qed

lemma locking_serial:
  assumes "turns True es (Locking, s) = Ok (Done, t)"
  shows "\<exists>bs1 bs2 u v. irqs es = bs1 @ bs2 \<and> port_run (map Half bs1) s = Ok u \<and> remaining Locking u = Ok v \<and>
    port_run (map Half bs2) v = Ok t"
  using assms
proof (induction es arbitrary: s)
  case Nil
  then show ?case by simp
next
  case (Cons e es)
  show ?case
  proof (cases e)
    case Go
    then have l: "\<not> lock_held s" "turns True es (Testing, s\<lparr>lock_held := True\<rparr>) = Ok (Done, t)"
      using Cons.prems by (auto split: if_splits)
    then obtain v where "remaining Testing (s\<lparr>lock_held := True\<rparr>) = Ok v" "port_run (map Half (irqs es)) v = Ok t"
      using critical_serial [OF l(2)] by (auto simp: critical_def)
    then show ?thesis using l(1) Go
      by (intro exI [of _ "[]"] exI [of _ "irqs es"] exI [of _ s] exI [of _ v]) simp
  next
    case (Irq h)
    then obtain w where w: "dummyport_interrupt h s = Ok w" "turns True es (Locking, w) = Ok (Done, t)"
      using Cons.prems by (auto simp: interrupt_on_def split: exec.splits)
    from Cons.IH [OF w(2)] obtain bs1 bs2 u v where "irqs es = bs1 @ bs2" "port_run (map Half bs1) w = Ok u"
      "remaining Locking u = Ok v" "port_run (map Half bs2) v = Ok t" by blast
    then show ?thesis using w(1) Irq by (intro exI [of _ "h # bs1"] exI [of _ bs2] exI [of _ u] exI [of _ v]) simp
  qed
qed

text \<open>The flag of the tasklet does not matter to the handler.\<close>

abbreviation unscheduled :: "asgn2_state \<Rightarrow> asgn2_state" where
  "unscheduled s \<equiv> s\<lparr>scheduled := False\<rparr>"

lemma interrupt_unscheduled:
  assumes "dummyport_interrupt h s = Ok t" "unscheduled s = unscheduled s'"
  shows "\<exists>t'. dummyport_interrupt h s' = Ok t' \<and> unscheduled t = unscheduled t'"
  using assms by (cases s; cases s')
    (auto simp: dummyport_interrupt_def Let_def split: if_splits option.splits)

lemma halves_unscheduled:
  assumes "port_run (map Half bs) s = Ok t" "unscheduled s = unscheduled s'"
  shows "\<exists>t'. port_run (map Half bs) s' = Ok t' \<and> unscheduled t = unscheduled t'"
  using assms
proof (induction bs arbitrary: s s')
  case Nil
  then show ?case by simp
next
  case (Cons h bs)
  then obtain u where u: "dummyport_interrupt h s = Ok u" "port_run (map Half bs) u = Ok t"
    by (auto split: exec.splits)
  from interrupt_unscheduled [OF u(1) Cons.prems(2)] obtain u' where
    "dummyport_interrupt h s' = Ok u'" "unscheduled u = unscheduled u'" by blast
  then show ?case using Cons.IH [OF u(2)] by simp
qed

lemma starting_serial:
  assumes "turns True es (Starting, s) = Ok (Done, t)"
  shows "\<exists>bs1 bs2 u v w. irqs es = bs1 @ bs2 \<and> port_run (map Half bs1) s = Ok u \<and> tasklet_copy u = Ok v \<and>
    port_run (map Half bs2) v = Ok w \<and> unscheduled w = unscheduled t"
  using assms
proof (induction es arbitrary: s)
  case Nil
  then show ?case by simp
next
  case (Cons e es)
  show ?case
  proof (cases e)
    case Go
    then have "turns True es (Locking, unscheduled s) = Ok (Done, t)" using Cons.prems by simp
    from locking_serial [OF this] obtain bs1 bs2 u v where
      split: "irqs es = bs1 @ bs2" and u: "port_run (map Half bs1) (unscheduled s) = Ok u" and
      v: "remaining Locking u = Ok v" and t: "port_run (map Half bs2) v = Ok t" by blast
    obtain u' where u': "port_run (map Half bs1) s = Ok u'" "unscheduled u = unscheduled u'"
      using halves_unscheduled [OF u, of s] by auto
    have "unscheduled u = port_flags (toggle u) (top_full_byte u) False u" by (simp add: port_flags_def)
    then obtain v' where v': "tasklet_copy u' = Ok v'" "v' = port_flags (toggle u) (top_full_byte u) False v"
      using rest_flags [of Locking _ _ _ u] v u'(2) by (simp add: tasklet_copy_rest del: remaining.simps)
    have "unscheduled v = unscheduled v'"
      using v'(2) rest_keeps [OF v] by (simp add: port_flags_def)
    from halves_unscheduled [OF t this] obtain w where
      "port_run (map Half bs2) v' = Ok w" "unscheduled t = unscheduled w" by blast
    then show ?thesis using split u'(1) v'(1) Go
      by (intro exI [of _ bs1] exI [of _ bs2] exI [of _ u'] exI [of _ v'] exI [of _ w]) simp
  next
    case (Irq h)
    then obtain x where x: "dummyport_interrupt h s = Ok x" "turns True es (Starting, x) = Ok (Done, t)"
      using Cons.prems by (auto simp: interrupt_on_def split: exec.splits)
    from Cons.IH [OF x(2)] obtain bs1 bs2 u v w where "irqs es = bs1 @ bs2" "port_run (map Half bs1) x = Ok u"
      "tasklet_copy u = Ok v" "port_run (map Half bs2) v = Ok w" "unscheduled w = unscheduled t" by blast
    then show ?thesis using x(1) Irq
      by (intro exI [of _ "h # bs1"] exI [of _ bs2] exI [of _ u] exI [of _ v] exI [of _ w]) simp
  qed
qed

subsection \<open>Left alone, the steps are the function\<close>

lemma testing_ends:
  "unlocked (copy_loop s) = Ok t \<Longrightarrow> \<exists>n. turns True (replicate n Go) (Testing, s) = Ok (Done, t)"
proof (induction s rule: copy_loop.induct)
  case (1 s)
  show ?case
  proof (cases "s32 (cb_count (cbuf s)) = 0")
    case True
    then show ?thesis using 1(2) by (intro exI [of _ 2]) (simp add: copy_loop_round numeral_2_eq_2)
  next
    case False
    then have l: "loop_on (copy_byte s) = Ok t" using 1(2) by (simp add: copy_loop_round)
    then obtain go u where u: "copy_byte s = Ok (go, u)" by (auto simp: loop_on_def split: exec.splits)
    then have six: "turns True (Go # Go # Go # Go # Go # Go # es) (Testing, s) =
        turns True es (if go then Testing else Done, u)" for es
      using False by (auto simp: copy_byte_steps split: option.splits)
    obtain n where "turns True (replicate n Go) (if go then Testing else Done, u) = Ok (Done, t)"
    proof (cases go)
      case True
      then have "unlocked (copy_loop u) = Ok t" using l u by (simp add: loop_on_def)
      with 1(1) [OF False u [unfolded eqTrueI [OF True]]] True that show ?thesis by auto
    next
      case False
      then show ?thesis using l u that [of 0] by (simp add: loop_on_def)
    qed
    then have "turns True (replicate (6 + n) Go) (Testing, s) = Ok (Done, t)"
      using six [of "replicate n Go"] by (simp add: numeral_eq_Suc)
    then show ?thesis by blast
  qed
qed

lemma tasklet_ends:
  assumes "tasklet_copy s = Ok t"
  shows "\<exists>n. turns True (replicate n Go) (Starting, s) = Ok (Done, t)"
proof -
  let ?s = "(unscheduled s)\<lparr>lock_held := True\<rparr>"
  have l: "\<not> lock_held s" "unlocked (copy_loop ?s) = Ok t"
    using assms by (auto simp: tasklet_copy_rest split: if_splits)
  then obtain n where "turns True (replicate n Go) (Testing, ?s) = Ok (Done, t)" using testing_ends by blast
  then have "turns True (replicate (Suc (Suc n)) Go) (Starting, s) = Ok (Done, t)" using l(1) by simp
  then show ?thesis by blast
qed

lemma turns_rest:
  "turns True (replicate n Go) (p, s) = Ok (q, t) \<Longrightarrow> remaining q t = remaining p s"
proof (induction n arbitrary: p s)
  case 0
  then show ?case by simp
next
  case (Suc n)
  then obtain q1 t1 where s: "tasklet_step True p s = Ok (q1, t1)" "turns True (replicate n Go) (q1, t1) = Ok (q, t)"
    by (auto split: exec.splits)
  show ?case using Suc.IH [OF s(2)] step_rest [OF s(1)] by simp
qed

text \<open>
  C8: with working spin locks the tasklet is atomic: left alone its steps end in the state that the
  function gives, and whatever interrupts come between its steps, if all of them end then the bytes
  and counters are those of the interrupts before some point, then the whole tasklet, then the
  other interrupts in their order.
\<close>

theorem asgn2_tasklet_atomic:
  "((\<exists>n. turns True (replicate n Go) (Starting, s) = Ok (Done, t)) \<longleftrightarrow> tasklet_copy s = Ok t) \<and>
   (turns True es (Starting, s) = Ok (Done, t) \<longrightarrow>
     (\<exists>bs1 bs2 u v w. irqs es = bs1 @ bs2 \<and> port_run (map Half bs1) s = Ok u \<and> tasklet_copy u = Ok v \<and>
       port_run (map Half bs2) v = Ok w \<and> unscheduled w = unscheduled t))"
  using tasklet_ends starting_serial turns_rest [of _ Starting s Done t] by auto

theorem asgn2_tasklet_atomic_witness:
  "\<exists>t bs1 bs2 u v w. turns True [Go, Go, Irq 4, Go, Go, Irq 1] (Starting, asgn2_initial (clean_kmem 1)) = Ok (Done, t) \<and>
    [4, 1] = bs1 @ bs2 \<and> port_run (map Half bs1) (asgn2_initial (clean_kmem 1)) = Ok u \<and> tasklet_copy u = Ok v \<and>
    port_run (map Half bs2) v = Ok w \<and> unscheduled w = unscheduled t"
proof -
  have "\<exists>t. turns True [Go, Go, Irq 4, Go, Go, Irq 1] (Starting, asgn2_initial (clean_kmem 1)) = Ok (Done, t)"
    by (simp add: asgn2_initial_def interrupt_on_def dummyport_interrupt_def cbuf_put_def cbuf_end_def array_set_def
        count_byte_def array_get_def session_end_def)
  then obtain t where "turns True [Go, Go, Irq 4, Go, Go, Irq 1] (Starting, asgn2_initial (clean_kmem 1)) = Ok (Done, t)"
    by blast
  then show ?thesis
    using asgn2_tasklet_atomic [of "asgn2_initial (clean_kmem 1)" t "[Go, Go, Irq 4, Go, Go, Irq 1]"]
    by (intro exI [of _ t]) (simp del: turns.simps)
qed

subsection \<open>The lock that the handler waits for\<close>

lemma turns_critical:
  assumes "turns True es (q, s) = Ok (p, u)" "critical p" "critical q \<longrightarrow> lock_held s"
  shows "lock_held u"
  using assms
proof (induction es arbitrary: q s)
  case Nil
  then show ?case by simp
next
  case (Cons e es)
  have irq: "critical q \<longrightarrow> lock_held t" if "dummyport_interrupt h s = Ok t" for h t
    using that Cons.prems(3) second_half_spins [of s h] first_half [of s h] by (cases "toggle s") auto
  have go: "critical q' \<longrightarrow> lock_held t" if "tasklet_step True q s = Ok (q', t)" for q' t
  proof (cases "critical q")
    case True
    then show ?thesis using step_critical [OF that] Cons.prems(3) by (auto simp: critical_def)
  next
    case False
    then show ?thesis using that by (cases q) (auto simp: critical_def split: if_splits)
  qed
  show ?case
  proof (cases e)
    case Go
    then obtain q' t where "tasklet_step True q s = Ok (q', t)" "turns True es (q', t) = Ok (p, u)"
      using Cons.prems(1) by (auto split: exec.splits)
    then show ?thesis using Cons.IH Cons.prems(2) go by blast
  next
    case (Irq h)
    then obtain t where "dummyport_interrupt h s = Ok t" "turns True es (q, t) = Ok (p, u)"
      using Cons.prems(1) by (auto simp: interrupt_on_def split: exec.splits)
    then show ?thesis using Cons.IH Cons.prems(2) irq by blast
  qed
qed



subsection \<open>On one processor\<close>

text \<open>A byte that is put at the end does not show in the entries before it.\<close>

lemma put_behind:
  assumes "cbuf_ok c" "cb_count c < 64" "cbuf_put b c = Some d" "m \<le> cb_count c"
  shows "cbuf_contents (d\<lparr>cb_count := m\<rparr>) = cbuf_contents (c\<lparr>cb_count := m\<rparr>)"
proof -
  let ?h = "nat (cb_head c)" and ?n = "nat (cb_count c)"
  have d: "d = c\<lparr>cb_buffer := (cb_buffer c)[(?h + ?n) mod 64 := b], cb_count := cb_count c + 1\<rparr>"
    using cbuf_put_Some [OF assms(1,2), of b] assms(3) by simp
  have "(?h + i) mod 64 \<noteq> (?h + ?n) mod 64" if "i < nat m" for i
    using that mod_shift_neq [of i ?n 64 ?h] assms by (simp add: cbuf_ok_def)
  then have "(cb_buffer c)[(?h + ?n) mod 64 := b] ! ((?h + i) mod 64) = cb_buffer c ! ((?h + i) mod 64)" if "i < nat m" for i
    using that by (metis nth_list_update_neq)
  then show ?thesis by (simp add: cbuf_contents_def d)
qed

text \<open>Where the head is advanced and the count is not yet lowered, one slot too many counts as filled.\<close>

lemma advanced_contents:
  assumes "cbuf_ok c" "cbuf_contents c = x # xs"
  shows "cbuf_contents (c\<lparr>cb_head := crem (s32 (cb_head c + 1)) 64\<rparr>) =
    xs @ [cb_buffer c ! ((nat (cb_head c) + length (x # xs)) mod 64)]"
proof -
  let ?h = "nat (cb_head c)" and ?slot = "\<lambda>i. cb_buffer c ! ((nat (cb_head c) + i) mod 64)"
  have n: "nat (cb_count c) = Suc (length xs)" using arg_cong [OF assms(2), of length] by simp
  have "nat (crem (s32 (cb_head c + 1)) 64) = Suc ?h mod 64"
    using assms(1) by (simp add: cbuf_ok_def nat_mod_distrib nat_add_distrib)
  then have "cbuf_contents (c\<lparr>cb_head := crem (s32 (cb_head c + 1)) 64\<rparr>) = map (\<lambda>i. ?slot (Suc i)) [0..<Suc (length xs)]"
    by (simp add: cbuf_contents_def n mod_add_left_eq del: upt_Suc)
  also have "\<dots> = map (\<lambda>i. ?slot (Suc i)) [0..<length xs] @ [?slot (length (x # xs))]" by simp
  also have "map (\<lambda>i. ?slot (Suc i)) [0..<length xs] = xs"
  proof -
    have "x # xs = map ?slot [0..<Suc (length xs)]" using assms(2) by (simp add: cbuf_contents_def n del: upt_Suc)
    then have "xs = map ?slot [Suc 0..<Suc (length xs)]" by (simp add: upt_rec [of 0] del: upt_Suc)
    then show ?thesis by (simp add: map_Suc_upt [symmetric] comp_def del: upt_Suc)
  qed
  finally show ?thesis .
qed

lemma take_steps:
  assumes "cbuf_take (cbuf s) = Some (x, c)"
  shows "turns smp (Go # Go # Go # es) (Advancing x, s) = turns smp es (Storing x, s\<lparr>cbuf := c\<rparr>)"
    "turns smp (Go # es) (Taking, s) = turns smp es (Advancing x, s)"
  using assms by (auto simp: cbuf_take_def)

lemma byte_irq:
  assumes "toggle s" "b \<noteq> 0" "cb_count (cbuf s) < 64" "cbuf_put b (cbuf s) = Some c" "count_byte (sess s) = Some ss"
  shows "turns False (map Irq (halves b) @ es) (p, s) =
    turns False es (p, s\<lparr>toggle := True, top_full_byte := b, cbuf := c, sess := ss, scheduled := True\<rparr>)"
  using assms by (cases s) (simp add: halves_def interrupt_on_def dummyport_interrupt_def Let_def halves_join)

lemma go_replicates:
  "replicate 2 Go = [Go, Go]" "replicate 3 Go = [Go, Go, Go]" "replicate 4 Go = [Go, Go, Go, Go]"
  by (simp_all add: numeral_eq_Suc)

text \<open>
  A byte put into the buffer at the four stages of the taking of another one: before it, with the
  head advanced only (where the count may be stored before or after the put), and after it.
\<close>

lemma put_during_take:
  assumes "cbuf_ok c" "cbuf_contents c = x # xs" "length xs < 63"
  obtains d d' d2 f where
    "array_get (cb_buffer c) (cb_head c) = Some x"
    "cbuf_put b c = Some d" "cbuf_take d = Some (x, f)" "cbuf_contents f = xs @ [b]"
    "cbuf_put b (c\<lparr>cb_head := crem (s32 (cb_head c + 1)) 64\<rparr>) = Some d'" "cb_count d' = cb_count c + 1"
    "cbuf_contents (d'\<lparr>cb_count := cb_count c\<rparr>) = xs @ [cb_buffer c ! ((nat (cb_head c) + length (x # xs)) mod 64)]"
    "cbuf_contents (d'\<lparr>cb_count := cb_count c - 1\<rparr>) = xs"
    "cbuf_put b (c\<lparr>cb_head := crem (s32 (cb_head c + 1)) 64, cb_count := cb_count c - 1\<rparr>) = Some d2"
    "cbuf_contents d2 = xs @ [b]"
proof -
  let ?adv = "c\<lparr>cb_head := crem (s32 (cb_head c + 1)) 64\<rparr>"
  have n: "cb_count c = int (length (x # xs))" using cbuf_count [OF assms(1)] assms(2) by simp
  obtain e where e: "cbuf_take c = Some (x, e)" "cbuf_ok e" "cbuf_contents e = xs"
    using cbuf_take_contents [OF assms(1,2)] by blast
  then have x: "array_get (cb_buffer c) (cb_head c) = Some x"
    and e_eq: "e = ?adv\<lparr>cb_count := cb_count c - 1\<rparr>"
    using assms(1) n by (auto simp: cbuf_take_def cbuf_ok_def)
  have adv: "cbuf_ok ?adv" "cb_count ?adv = cb_count c" using e(2) assms(1) by (simp_all add: e_eq cbuf_ok_def)
  have room: "cb_count c < 64" "cb_count e < 64" using n assms(3) by (simp_all add: e_eq)
  obtain d where d: "cbuf_put b c = Some d" "cbuf_ok d" "cbuf_contents d = x # (xs @ [b])"
    using cbuf_put_contents [OF assms(1) room(1), of b] assms(2) by auto
  obtain f where f: "cbuf_take d = Some (x, f)" "cbuf_contents f = xs @ [b]"
    using cbuf_take_contents [OF d(2,3)] by blast
  obtain d' where d': "cbuf_put b ?adv = Some d'" using cbuf_put_contents [OF adv(1), of b] adv(2) room(1) by auto
  obtain d2 where d2: "cbuf_put b e = Some d2" "cbuf_contents d2 = xs @ [b]"
    using cbuf_put_contents [OF e(2) room(2), of b] e(3) by auto
  have "cbuf_contents (d'\<lparr>cb_count := cb_count c\<rparr>) = xs @ [cb_buffer c ! ((nat (cb_head c) + length (x # xs)) mod 64)]"
    using put_behind [OF adv(1) _ d', of "cb_count c"] adv(2) room(1) advanced_contents [OF assms(1,2)] by simp
  moreover have "cbuf_contents (d'\<lparr>cb_count := cb_count c - 1\<rparr>) = xs"
    using put_behind [OF adv(1) _ d', of "cb_count c - 1"] adv(2) room(1) e(3) by (simp add: e_eq)
  moreover have "cb_count d' = cb_count c + 1" using cbuf_put_Some [OF adv(1), of b] d' adv(2) room(1) by auto
  ultimately show thesis using x d(1) f d' d2 that by (simp add: e_eq)
qed

text \<open>
  C31: on the one-processor kernel, where the spin locks are nothing, a byte that arrives while the
  tasklet takes one out of the buffer is always counted in the size of the session, but is in the
  buffer behind the others only if it arrives before the head is advanced or after the count is
  stored. Between the two updates it is stored one slot too far and what that slot held before
  takes its place; between the load and the store of the decrement it is lost.
\<close>

theorem asgn2_lost_update:
  assumes "cbuf_ok (cbuf s)" "cbuf_contents (cbuf s) = x # xs" "length xs < 63" "toggle s" "b \<noteq> 0"
    and "count_byte (sess s) = Some ss" "k \<le> 4"
  shows "\<exists>t. turns False (replicate k Go @ map Irq (halves b) @ replicate (4 - k) Go) (Taking, s) = Ok (Storing x, t) \<and>
    sess t = ss \<and>
    cbuf_contents (cbuf t) =
      (if k = 2 then xs @ [cb_buffer (cbuf s) ! ((nat (cb_head (cbuf s)) + length (x # xs)) mod 64)]
       else if k = 3 then xs else xs @ [b])"
proof -
  let ?c = "cbuf s"
  obtain d d' d2 f where x: "array_get (cb_buffer ?c) (cb_head ?c) = Some x"
    and d: "cbuf_put b ?c = Some d" and f: "cbuf_take d = Some (x, f)" "cbuf_contents f = xs @ [b]"
    and d': "cbuf_put b (?c\<lparr>cb_head := crem (s32 (cb_head ?c + 1)) 64\<rparr>) = Some d'" "cb_count d' = cb_count ?c + 1"
      "cbuf_contents (d'\<lparr>cb_count := cb_count ?c\<rparr>) = xs @ [cb_buffer ?c ! ((nat (cb_head ?c) + length (x # xs)) mod 64)]"
      "cbuf_contents (d'\<lparr>cb_count := cb_count ?c - 1\<rparr>) = xs"
    and d2: "cbuf_put b (?c\<lparr>cb_head := crem (s32 (cb_head ?c + 1)) 64, cb_count := cb_count ?c - 1\<rparr>) = Some d2"
      "cbuf_contents d2 = xs @ [b]"
    by (rule put_during_take [OF assms(1-3), of b])
  have n: "cb_count ?c = int (length (x # xs))" using cbuf_count [OF assms(1)] assms(2) by simp
  then have c: "cb_count ?c < 64" "s32 (cb_count ?c) = cb_count ?c" "s32 (cb_count ?c - 1) = cb_count ?c - 1"
    using assms(3) by simp_all
  have byte: "turns False (map Irq (halves b) @ es) (p, u) =
      turns False es (p, u\<lparr>toggle := True, top_full_byte := b, cbuf := c, sess := ss, scheduled := True\<rparr>)"
    if "toggle u" "cb_count (cbuf u) < 64" "cbuf_put b (cbuf u) = Some c" "sess u = sess s" for es p u c
    using byte_irq [OF that(1) assms(5) that(2,3)] that(4) assms(6) by simp
  consider "k = 0" | "k = 1" | "k = 2" | "k = 3" | "k = 4" using assms(7) by linarith
  then show ?thesis
  proof cases
    case 1
    have "\<exists>t. turns False (map Irq (halves b) @ [Go, Go, Go, Go]) (Taking, s) = Ok (Storing x, t) \<and> sess t = ss \<and> cbuf t = f"
      unfolding byte [OF assms(4) c(1) d refl] using f(1) by (simp add: take_steps del: turns.simps(2))
    then show ?thesis using 1 f(2) by (auto simp: go_replicates)
  next
    case 2
    have "\<exists>t. turns False (map Irq (halves b) @ [Go, Go, Go]) (Advancing x, s) = Ok (Storing x, t) \<and> sess t = ss \<and> cbuf t = f"
      unfolding byte [OF assms(4) c(1) d refl] using f(1) by (simp add: take_steps del: turns.simps(2))
    then show ?thesis using 2 f(2) x by (auto simp: go_replicates)
  next
    case 3
    then show ?thesis using byte [of _ d'] assms(4) c d' x go_replicates by simp
  next
    case 4
    then show ?thesis using byte [of _ d'] assms(4) c d' x go_replicates by simp
  next
    case 5
    then show ?thesis using byte [where c = d2 and es = "[]"] assms(4) c d2 x go_replicates by simp
  qed
qed

theorem asgn2_lost_update_witness:
  "let s = (asgn2_initial (clean_kmem 1))\<lparr>cbuf := \<lparr>cb_head = 0, cb_count = 1, cb_buffer = replicate 64 65\<rparr>\<rparr>
   in \<exists>t. turns False [Go, Go, Go, Irq 4, Irq 2, Go] (Taking, s) = Ok (Storing 65, t) \<and>
        cbuf_contents (cbuf t) = [] \<and> sizes (sess t) ! 0 = 1"
proof -
  let ?s = "(asgn2_initial (clean_kmem 1))\<lparr>cbuf := \<lparr>cb_head = 0, cb_count = 1, cb_buffer = replicate 64 65\<rparr>\<rparr>"
  let ?ss = "(sess ?s)\<lparr>sizes := (replicate 100 0)[0 := 1]\<rparr>"
  have "count_byte (sess ?s) = Some ?ss"
    by (simp add: count_byte_def array_get_def array_set_def session_end_def asgn2_initial_def)
  moreover have "cbuf_ok (cbuf ?s)" "cbuf_contents (cbuf ?s) = [65]"
    by (simp_all add: cbuf_ok_def cbuf_contents_def)
  moreover have "map Irq (halves 66) = [Irq 4, Irq 2]" by (simp add: halves_def)
  ultimately have "\<exists>t. turns False [Go, Go, Go, Irq 4, Irq 2, Go] (Taking, ?s) = Ok (Storing 65, t) \<and> sess t = ?ss \<and>
      cbuf_contents (cbuf t) = []"
    using asgn2_lost_update [where s = ?s and x = 65 and xs = "[]" and b = 66 and ss = ?ss and k = 3] by (simp add: numeral_3_eq_3 del: turns.simps)
  then show ?thesis unfolding Let_def by (auto simp del: turns.simps)
qed

end
