(* ===== verification/Asgn2_Read_Race.thy ===== *)
theory Asgn2_Read_Race
  imports Asgn2_Preempt
begin

section \<open>Interrupts inside a read\<close>

text \<open>
  \<^verbatim>\<open>asgn2_read\<close> takes a session off the tracker without the lock that the handler takes. Here the
  statements that do so are cut into their accesses to the tracker, with interrupts of the port
  in between.
\<close>

text \<open>Where the reader is, with the values of its local variables.\<close>

datatype reader_at = At_size | At_head int | At_count int | At_store int int | At_pages int

fun reader_step :: "reader_at \<Rightarrow> asgn2_state \<Rightarrow> (reader_at \<times> asgn2_state) exec" where
  "reader_step At_size s =
     (case array_get (sizes (sess s)) (ss_head (sess s)) of
        None \<Rightarrow> Fault
      | Some total_to_read \<Rightarrow> Ok (At_head total_to_read, s))"
| "reader_step (At_head total_to_read) s =
     Ok (At_count total_to_read,
         s\<lparr>sess := (sess s)\<lparr>ss_head := crem (s32 (ss_head (sess s) + 1)) MAX_SESSIONS\<rparr>\<rparr>)"
| "reader_step (At_count total_to_read) s = Ok (At_store total_to_read (ss_count (sess s)), s)"
| "reader_step (At_store total_to_read n) s =
     Ok (At_pages total_to_read, s\<lparr>sess := (sess s)\<lparr>ss_count := s32 (n - 1)\<rparr>\<rparr>)"
| "reader_step (At_pages total_to_read) s = Ok (At_pages total_to_read, s)"

fun reader_turns :: "turn list \<Rightarrow> reader_at \<times> asgn2_state \<Rightarrow> (reader_at \<times> asgn2_state) exec" where
  "reader_turns [] c = Ok c"
| "reader_turns (Go # es) (p, s) =
     (case reader_step p s of Ok c \<Rightarrow> reader_turns es c | Spins \<Rightarrow> Spins | Fault \<Rightarrow> Fault)"
| "reader_turns (Irq h # es) (p, s) =
     (case dummyport_interrupt h s of Ok t \<Rightarrow> reader_turns es (p, t) | Spins \<Rightarrow> Spins | Fault \<Rightarrow> Fault)"

text \<open>Without interrupts the four steps and the loop over the pages are the function.\<close>

lemma asgn2_read_steps:
  assumes "\<not> fin_reading s" "ss_count (sess s) \<noteq> 0"
  shows "asgn2_read ua waited s count pos =
    (case reader_turns [Go, Go, Go, Go] (At_size, s) of
       Ok (At_pages total_to_read, t) \<Rightarrow>
         (case asgn2_read_pages ua total_to_read (min count total_to_read) (read_offset (sess t)) (- 1) 0 0
                 (mem_list (a2_dev t)) t of
            Ok (end_reached, size_read, out, t) \<Rightarrow>
              Ok (s32 size_read, out, if end_reached then s64 (pos + size_read) else pos, t)
          | Spins \<Rightarrow> Spins
          | Fault \<Rightarrow> Fault)
     | _ \<Rightarrow> Fault)"
  using assms by (simp add: asgn2_read_def Let_def split: option.split)

lemma reader_irqs:
  "reader_turns (map Irq hs @ es) (p, s) =
     (case port_run (map Half hs) s of Ok t \<Rightarrow> reader_turns es (p, t) | Spins \<Rightarrow> Spins | Fault \<Rightarrow> Fault)"
  by (induction hs arbitrary: s) (auto split: exec.split)

text \<open>What the two interrupts of a byte do to the tracker.\<close>

lemma zero_irq:
  assumes "toggle s" "\<not> lock_held s"
  shows "reader_turns (map Irq (halves 0) @ es) (p, s) =
    reader_turns es (p, s\<lparr>top_full_byte := 0, sess := (sess s)\<lparr>ss_count := s32 (ss_count (sess s) + 1)\<rparr>, scheduled := True\<rparr>)"
proof -
  have "map Half (halves 0) = [Half (drop_bit 4 0), Half (0 AND 15)]" by (simp add: halves_def)
  then show ?thesis
    using byte_arrives [OF assms(1), of 0 "[]"] assms(2) unfolding reader_irqs by simp
qed

lemma byte_irq_slot:
  assumes "toggle s" "\<not> lock_held s" "b \<noteq> 0" "cb_count (cbuf s) < 64" "cbuf_put b (cbuf s) = Some c"
    and "slot = nat (session_end (sess s))" "0 \<le> session_end (sess s)" "session_end (sess s) < 100"
    and "length (sizes (sess s)) = 100"
  shows "reader_turns (map Irq (halves b) @ es) (p, s) =
    reader_turns es (p, s\<lparr>top_full_byte := b, cbuf := c,
      sess := (sess s)\<lparr>sizes := (sizes (sess s))[slot := u32 (sizes (sess s) ! slot + 1)]\<rparr>, scheduled := True\<rparr>)"
proof -
  have "map Half (halves b) = [Half (drop_bit 4 b), Half (b AND 15)]" by (simp add: halves_def)
  moreover have "count_byte (sess s) = Some ((sess s)\<lparr>sizes := (sizes (sess s))[slot := u32 (sizes (sess s) ! slot + 1)]\<rparr>)"
    using assms(6-9) by (simp add: count_byte_def array_get_def array_set_def)
  ultimately show ?thesis
    using byte_arrives [OF assms(1), of b "[]"] assms(2-5) unfolding reader_irqs by simp
qed

text \<open>
  A tracker at which a reader finds a session, when the next interrupt begins a byte; and the numbers
  that the steps of the reader compute from it.
\<close>

definition readable :: "int \<Rightarrow> asgn2_state \<Rightarrow> bool" where
  "readable n s \<longleftrightarrow>
     toggle s \<and> \<not> lock_held s \<and> 0 \<le> ss_head (sess s) \<and> ss_head (sess s) < 100 \<and> length (sizes (sess s)) = 100 \<and>
     ss_count (sess s) = n \<and> 0 < n \<and> n < 100"

lemma readable_steps:
  assumes "readable n s"
  shows "array_get (sizes (sess s)) (ss_head (sess s)) = Some (sizes (sess s) ! nat (ss_head (sess s)))"
    "crem (s32 (ss_head (sess s) + 1)) 100 = (ss_head (sess s) + 1) mod 100"
    "s32 n = n" "s32 (n - 1) = n - 1" "s32 (n + 1) = n + 1" "ss_count (sess s) = n" "toggle s" "\<not> lock_held s"
  using assms by (simp_all add: readable_def array_get_def)

text \<open>The end of a session among the steps.\<close>

lemma end_interrupts:
  assumes "readable n s" "k \<le> 4"
  shows "\<exists>t. reader_turns (replicate k Go @ map Irq (halves 0) @ replicate (4 - k) Go) (At_size, s) =
      Ok (At_pages (sizes (sess s) ! nat (ss_head (sess s))), t) \<and>
    ss_head (sess t) = (ss_head (sess s) + 1) mod 100 \<and>
    ss_count (sess t) = (if k = 3 then n - 1 else n) \<and> sizes (sess t) = sizes (sess s)"
proof -
  consider "k = 0" | "k = 1" | "k = 2" | "k = 3" | "k = 4" using assms(2) by linarith
  then show ?thesis
    by cases (simp_all add: readable_steps [OF assms(1)] go_replicates zero_irq zero_irq [where es = "[]", simplified])
qed

text \<open>The slots: before and after both updates of the reader the handler finds one, between them the next.\<close>

lemma slots_found:
  assumes "readable n s" "slot = (\<lambda>j. nat ((ss_head (sess s) + n + j) mod 100))"
  shows "session_end (sess s) = int (slot 0)"
    "session_end ((sess s)\<lparr>ss_head := (ss_head (sess s) + 1) mod 100\<rparr>) = int (slot 1)"
    "session_end ((sess s)\<lparr>ss_head := (ss_head (sess s) + 1) mod 100, ss_count := n - 1\<rparr>) = int (slot 0)"
    "slot j < 100" "slot 0 \<noteq> nat (ss_head (sess s))"
proof -
  let ?h = "ss_head (sess s)"
  have r: "0 \<le> ?h" "?h < 100" "ss_count (sess s) = n" "0 < n" "n < 100" using assms(1) by (simp_all add: readable_def)
  have m: "((?h + 1) mod 100 + i) mod 100 = (?h + 1 + i) mod 100" for i by (simp only: mod_add_left_eq)
  show "session_end (sess s) = int (slot 0)"
    "session_end ((sess s)\<lparr>ss_head := (ss_head (sess s) + 1) mod 100\<rparr>) = int (slot 1)"
    "session_end ((sess s)\<lparr>ss_head := (ss_head (sess s) + 1) mod 100, ss_count := n - 1\<rparr>) = int (slot 0)"
    using r m [of n] m [of "n - 1"] by (simp_all add: session_end_def assms(2) ac_simps)
  show "slot j < 100" by (simp add: assms(2) nat_less_iff)
  show "slot 0 \<noteq> nat ?h"
  proof
    assume "slot 0 = nat ?h"
    then have "(?h + n) mod 100 = ?h" using r(1) by (simp add: assms(2) eq_nat_nat_iff)
    then show False using r by presburger
  qed
qed

text \<open>A byte among the steps.\<close>

lemma byte_interrupts:
  assumes "readable n s" "k \<le> 4" "b \<noteq> 0" "cb_count (cbuf s) < 64" "cbuf_put b (cbuf s) = Some c"
    and "slot = (\<lambda>j. nat ((ss_head (sess s) + n + j) mod 100))" "i = slot (if k = 2 \<or> k = 3 then 1 else 0)"
  shows "\<exists>u. reader_turns (replicate k Go @ map Irq (halves b) @ replicate (4 - k) Go) (At_size, s) =
      Ok (At_pages (sizes (sess s) ! nat (ss_head (sess s))), u) \<and>
    ss_head (sess u) = (ss_head (sess s) + 1) mod 100 \<and> ss_count (sess u) = n - 1 \<and>
    sizes (sess u) = (sizes (sess s))[i := u32 (sizes (sess s) ! i + 1)]"
proof -
  note r = readable_steps [OF assms(1)] and found = slots_found [OF assms(1,6)]
  define grown where "grown = (\<lambda>i. (sizes (sess s))[i := u32 (sizes (sess s) ! i + 1)])"
  have len: "length (sizes (sess s)) = 100" "0 \<le> ss_head (sess s)" "ss_head (sess s) < 100"
    using assms(1) by (simp_all add: readable_def)
  have byte: "reader_turns (map Irq (halves b) @ es) (p, v) =
      reader_turns es (p, v\<lparr>top_full_byte := b, cbuf := c, sess := (sess v)\<lparr>sizes := grown (slot j)\<rparr>, scheduled := True\<rparr>)"
    if "toggle v" "\<not> lock_held v" "cbuf v = cbuf s" "sizes (sess v) = sizes (sess s)"
      "session_end (sess v) = int (slot j)" for v es p j
    using byte_irq_slot [of v b c "slot j" es p] that assms(3-5) len found(4) [of j] by (simp add: grown_def)
  note byte_last = byte [where es = "[]", simplified]
  have first: "array_get (grown (slot 0)) (ss_head (sess s)) = Some (sizes (sess s) ! nat (ss_head (sess s)))"
    using len found(5) by (simp add: array_get_def grown_def)
  consider "k = 0" | "k = 1" | "k = 2" | "k = 3" | "k = 4" using assms(2) by linarith
  then have "\<exists>u. reader_turns (replicate k Go @ map Irq (halves b) @ replicate (4 - k) Go) (At_size, s) =
      Ok (At_pages (sizes (sess s) ! nat (ss_head (sess s))), u) \<and>
    ss_head (sess u) = (ss_head (sess s) + 1) mod 100 \<and> ss_count (sess u) = n - 1 \<and> sizes (sess u) = grown i"
  proof cases
    case 1
    then show ?thesis using byte [OF r(7,8) refl refl found(1)] first assms(7) by (simp add: r go_replicates)
  next
    case 2
    then show ?thesis using byte [OF r(7,8) refl refl found(1)] assms(7) by (simp add: r go_replicates)
  next
    case 3
    then show ?thesis using byte [where j = 1] found(2) assms(7) by (simp add: r go_replicates)
  next
    case 4
    then show ?thesis using byte [where j = 1] found(2) assms(7) by (simp add: r go_replicates)
  next
    case 5
    then show ?thesis using byte_last [where j = 0] found(3) assms(7) by (simp add: r go_replicates)
  qed
  then show ?thesis by (simp add: grown_def)
qed

text \<open>
  C33: a read that finds a finished session takes the right size whatever arrives meanwhile. But
  the end of a session that arrives between the load and the store of the decrement is lost, so that
  the session is never announced; and a byte that arrives between the update of the head and
  that of the count is counted one slot too far, for the session behind its own.
\<close>

theorem asgn2_read_interrupted:
  assumes "toggle s" "\<not> lock_held s" "0 \<le> ss_head (sess s)" "ss_head (sess s) < 100" "length (sizes (sess s)) = 100"
    and "n = ss_count (sess s)" "0 < n" "n < 100" "k \<le> 4"
    and "b \<noteq> 0" "cb_count (cbuf s) < 64" "cbuf_put b (cbuf s) = Some c"
  shows "\<exists>t u. reader_turns (replicate k Go @ map Irq (halves 0) @ replicate (4 - k) Go) (At_size, s) =
      Ok (At_pages (sizes (sess s) ! nat (ss_head (sess s))), t) \<and>
    ss_head (sess t) = (ss_head (sess s) + 1) mod 100 \<and>
    ss_count (sess t) = (if k = 3 then n - 1 else n) \<and> sizes (sess t) = sizes (sess s) \<and>
    reader_turns (replicate k Go @ map Irq (halves b) @ replicate (4 - k) Go) (At_size, s) =
      Ok (At_pages (sizes (sess s) ! nat (ss_head (sess s))), u) \<and>
    ss_head (sess u) = (ss_head (sess s) + 1) mod 100 \<and> ss_count (sess u) = n - 1 \<and>
    (let slot = nat ((ss_head (sess s) + n + (if k = 2 \<or> k = 3 then 1 else 0)) mod 100)
     in sizes (sess u) = (sizes (sess s))[slot := u32 (sizes (sess s) ! slot + 1)])"
proof -
  have "readable n s" using assms(1-8) by (simp add: readable_def)
  from end_interrupts [OF this assms(9)] byte_interrupts [OF this assms(9-12) refl refl] show ?thesis
    unfolding Let_def by blast
qed

theorem asgn2_read_interrupted_witness:
  "let s = (asgn2_initial (clean_kmem 1))\<lparr>sess := (sess (asgn2_initial (clean_kmem 1)))\<lparr>ss_count := 1\<rparr>\<rparr>
   in \<exists>t. reader_turns [Go, Go, Go, Irq 0, Irq 0, Go] (At_size, s) = Ok (At_pages 0, t) \<and> ss_count (sess t) = 0"
proof -
  let ?s = "(asgn2_initial (clean_kmem 1))\<lparr>sess := (sess (asgn2_initial (clean_kmem 1)))\<lparr>ss_count := 1\<rparr>\<rparr>"
  obtain c where "cbuf_put 65 (cbuf ?s) = Some c"
    by (simp add: asgn2_initial_def cbuf_put_def cbuf_end_def array_set_def)
  moreover have "map Irq (halves 0) = [Irq 0, Irq 0]" by (simp add: halves_def)
  moreover have "replicate 3 Go = [Go, Go, Go]" by (simp add: numeral_eq_Suc)
  ultimately show ?thesis
    using asgn2_read_interrupted [where s = ?s and n = 1 and k = 3 and b = 65 and c = c]
    unfolding Let_def by (auto simp: asgn2_initial_def simp del: reader_turns.simps)
qed

end
