(* ===== verification/Asgn2_Processors.thy ===== *)
theory Asgn2_Processors
  imports Asgn2_Preempt
begin

section \<open>The handler on one processor and the tasklet on another\<close>

text \<open>
  With several processors an interrupt of the port can come while the tasklet runs on another
  one. Then the handler waits for the lock until the tasklet gives it back, and the tasklet for
  the handler. The handler looks up the end of the buffer and the slot of the session before it takes the
  lock, so that what it finds there depends on where the tasklet is.
\<close>

subsection \<open>The handler in steps\<close>

text \<open>Where the handler is, with the values of its local variables \<open>cbuf_end\<close> and \<open>session_end\<close>.\<close>

datatype handler_at =
  Entering byte | Indexed byte int int | Awaiting int int | Inserting int int | Releasing | Scheduling | Handled

definition put_at :: "int \<Rightarrow> byte \<Rightarrow> circular_buf \<Rightarrow> circular_buf option" where
  "put_at i b c =
     map_option (\<lambda>buf. c\<lparr>cb_buffer := buf, cb_count := s32 (cb_count c + 1)\<rparr>) (array_set (cb_buffer c) i b)"

definition count_at :: "int \<Rightarrow> sessions_tracker \<Rightarrow> sessions_tracker option" where
  "count_at i ss =
     (case array_get (sizes ss) i of
        None \<Rightarrow> None
      | Some n \<Rightarrow> map_option (\<lambda>xs. ss\<lparr>sizes := xs\<rparr>) (array_set (sizes ss) i (u32 (n + 1))))"

fun handler_step :: "handler_at \<Rightarrow> asgn2_state \<Rightarrow> (handler_at \<times> asgn2_state) exec" where
  "handler_step (Entering h) s = Ok (Indexed h (cbuf_end (cbuf s)) (session_end (sess s)), s)"
| "handler_step (Indexed h ce se) s =
     (if toggle s then Ok (Handled, s\<lparr>toggle := False, top_full_byte := push_bit 4 h\<rparr>)
      else Ok (Awaiting ce se, s\<lparr>toggle := True, top_full_byte := top_full_byte s OR h\<rparr>))"
| "handler_step (Awaiting ce se) s =
     (if lock_held s then Spins else Ok (Inserting ce se, s\<lparr>lock_held := True\<rparr>))"
| "handler_step (Inserting ce se) s =
     (if top_full_byte s = 0 then
        Ok (Releasing, s\<lparr>sess := (sess s)\<lparr>ss_count := s32 (ss_count (sess s) + 1)\<rparr>\<rparr>)
      else if cb_count (cbuf s) \<ge> BUFFER_CAPACITY then Ok (Handled, s)
      else (case put_at ce (top_full_byte s) (cbuf s) of
              None \<Rightarrow> Fault
            | Some c \<Rightarrow>
                (case count_at se (sess s) of
                   None \<Rightarrow> Fault
                 | Some ss \<Rightarrow> Ok (Releasing, s\<lparr>cbuf := c, sess := ss\<rparr>))))"
| "handler_step Releasing s = Ok (Scheduling, s\<lparr>lock_held := False\<rparr>)"
| "handler_step Scheduling s = Ok (Handled, s\<lparr>scheduled := True\<rparr>)"
| "handler_step Handled s = Ok (Handled, s)"

text \<open>A processor that finds the lock taken waits: its turn passes.\<close>

datatype cpu = Tasklet | Handler

fun smp_turns :: "cpu list \<Rightarrow> tasklet_at \<times> handler_at \<times> asgn2_state \<Rightarrow>
    (tasklet_at \<times> handler_at \<times> asgn2_state) exec" where
  "smp_turns [] c = Ok c"
| "smp_turns (Tasklet # es) (p, q, s) =
     (case tasklet_step True p s of
        Ok (p, s) \<Rightarrow> smp_turns es (p, q, s)
      | Spins \<Rightarrow> smp_turns es (p, q, s)
      | Fault \<Rightarrow> Fault)"
| "smp_turns (Handler # es) (p, q, s) =
     (case handler_step q s of
        Ok (q, s) \<Rightarrow> smp_turns es (p, q, s)
      | Spins \<Rightarrow> smp_turns es (p, q, s)
      | Fault \<Rightarrow> Fault)"

subsection \<open>What is left of the handler\<close>

definition released :: "(handler_at \<times> asgn2_state) exec \<Rightarrow> asgn2_state exec" where
  "released r =
     (case r of
        Ok (q, t) \<Rightarrow> Ok (if q = Handled then t else t\<lparr>lock_held := False, scheduled := True\<rparr>)
      | Spins \<Rightarrow> Spins
      | Fault \<Rightarrow> Fault)"

definition insert_rest :: "int \<Rightarrow> int \<Rightarrow> asgn2_state \<Rightarrow> asgn2_state exec" where
  "insert_rest ce se s =
     (if lock_held s then Spins else released (handler_step (Inserting ce se) (s\<lparr>lock_held := True\<rparr>)))"

definition byte_rest :: "byte \<Rightarrow> int \<Rightarrow> int \<Rightarrow> asgn2_state \<Rightarrow> asgn2_state exec" where
  "byte_rest h ce se s =
     (if toggle s then Ok (s\<lparr>toggle := False, top_full_byte := push_bit 4 h\<rparr>)
      else insert_rest ce se (s\<lparr>toggle := True, top_full_byte := top_full_byte s OR h\<rparr>))"

fun handler_rest :: "handler_at \<Rightarrow> asgn2_state \<Rightarrow> asgn2_state exec" where
  "handler_rest (Entering h) s = byte_rest h (cbuf_end (cbuf s)) (session_end (sess s)) s"
| "handler_rest (Indexed h ce se) s = byte_rest h ce se s"
| "handler_rest (Awaiting ce se) s = insert_rest ce se s"
| "handler_rest (Inserting ce se) s = released (handler_step (Inserting ce se) s)"
| "handler_rest Releasing s = Ok (s\<lparr>lock_held := False, scheduled := True\<rparr>)"
| "handler_rest Scheduling s = Ok (s\<lparr>scheduled := True\<rparr>)"
| "handler_rest Handled s = Ok s"

lemma put_at_end: "put_at (cbuf_end c) b c = cbuf_put b c"
  by (simp add: put_at_def cbuf_put_def)

lemma count_at_end: "count_at (session_end ss) ss = count_byte ss"
  by (simp add: count_at_def count_byte_def)

lemma handler_rest_entering: "handler_rest (Entering h) s = dummyport_interrupt h s"
  by (cases s) (auto simp: dummyport_interrupt_def byte_rest_def insert_rest_def released_def put_at_end count_at_end Let_def split: option.split)

lemma handler_step_rest: "handler_step q s = Ok (q', t) \<Longrightarrow> handler_rest q' t = handler_rest q s"
  by (cases q) (auto simp: released_def byte_rest_def insert_rest_def split: if_splits option.splits)

text \<open>The flags that the handler changes before it has the lock.\<close>

lemma indexed_flags:
  "handler_step (Indexed h ce se) s =
    Ok (if toggle s then (Handled, port_flags False (push_bit 4 h) (scheduled s) s)
        else (Awaiting ce se, port_flags True (top_full_byte s OR h) (scheduled s) s))"
  by (simp add: port_flags_def)

subsection \<open>The buffer at the places of the tasklet\<close>

text \<open>
  Where the next byte has to go once the tasklet is through: between the advance of the head and
  the store of the count, \<open>cbuf_end\<close> is one too far.
\<close>

fun between :: "tasklet_at \<Rightarrow> bool" where
  "between (Counting b) = True"
| "between (Discounting b n) = True"
| "between p = False"

definition right_end :: "tasklet_at \<Rightarrow> circular_buf \<Rightarrow> int" where
  "right_end p c = (cb_head c + cb_count c - (if between p then 1 else 0)) mod 64"

fun place_ok :: "tasklet_at \<Rightarrow> asgn2_state \<Rightarrow> bool" where
  "place_ok Taking s = (cbuf_ok (cbuf s) \<and> 0 < cb_count (cbuf s))"
| "place_ok (Advancing b) s = (cbuf_ok (cbuf s) \<and> 0 < cb_count (cbuf s))"
| "place_ok (Counting b) s = (cbuf_ok (cbuf s) \<and> 0 < cb_count (cbuf s))"
| "place_ok (Discounting b n) s = (cbuf_ok (cbuf s) \<and> 0 < cb_count (cbuf s) \<and> n = cb_count (cbuf s))"
| "place_ok Unlocking s = (cbuf_ok (cbuf s) \<and> cb_count (cbuf s) = 0)"
| "place_ok Done s = (cbuf_ok (cbuf s) \<and> (lock_held s \<or> cb_count (cbuf s) = 0))"
| "place_ok p s = cbuf_ok (cbuf s)"

lemma place_ok_flags [simp]: "place_ok p (port_flags a b d s) = place_ok p s"
  by (cases p) simp_all

lemma cbuf_end_right:
  assumes "cbuf_ok c"
  shows "cbuf_end c = (right_end p c + (if between p then 1 else 0)) mod 64"
  using assms by (auto simp: cbuf_end_def right_end_def cbuf_ok_def mod_simps)

lemma store_byte_keeps:
  "store_byte b s = Ok (go, t) \<Longrightarrow>
    cbuf t = cbuf s \<and> lock_held t = lock_held s \<and>
    ss_head (sess t) = ss_head (sess s) \<and> ss_count (sess t) = ss_count (sess s)"
  by (auto simp: store_byte_def stored_def Let_def split: option.splits prod.splits if_splits)

lemma step_not_starting: "tasklet_step True p s = Ok (q, t) \<Longrightarrow> q \<noteq> Starting"
  by (cases p) (auto split: if_splits option.splits exec.splits)

lemma step_place:
  assumes "tasklet_step True p s = Ok (q, t)" "critical p" "lock_held s" "place_ok p s"
  shows "place_ok q t \<and> right_end q (cbuf t) = right_end p (cbuf s) \<and> session_end (sess t) = session_end (sess s)"
proof -
  have h: "((h + 1) mod 64 + n - 1) mod 64 = (h + n) mod 64" for h n :: int
    using mod_add_left_eq [of "h + 1" 64 "n - 1"] by (simp add: add_diff_eq)
  show ?thesis
  proof (cases p)
    case (Advancing b)
    then show ?thesis using assms h [of "cb_head (cbuf s)" "cb_count (cbuf s)"]
      by (auto simp: right_end_def session_end_def cbuf_ok_def)
  next
    case (Discounting b n)
    have e: "(cb_head (cbuf s) + (cb_count (cbuf s) - 1)) mod 64 = (cb_head (cbuf s) + cb_count (cbuf s) - 1) mod 64"
      by (simp add: add_diff_eq)
    show ?thesis using Discounting assms by (auto simp: right_end_def session_end_def cbuf_ok_def e)
  next
    case (Storing b)
    then show ?thesis using assms
      by (auto simp: right_end_def session_end_def split: exec.splits if_splits dest!: store_byte_keeps)
  qed (use assms in \<open>auto simp: critical_def right_end_def session_end_def cbuf_ok_def split: if_splits option.splits\<close>)
qed

subsection \<open>The tasklet has the lock\<close>

text \<open>The handler's step before the lock commutes with what is left of the tasklet.\<close>

lemma indexed_commutes:
  assumes "handler_step (Indexed h ce se) s = Ok (q, u)" "remaining p u = Ok w" "p \<noteq> Starting"
  shows "\<exists>v. remaining p s = Ok v \<and> handler_step (Indexed h ce se) v = Ok (q, w) \<and> cbuf w = cbuf v \<and>
    sess w = sess v \<and> lock_held w = lock_held v \<and> toggle v = toggle s \<and> top_full_byte v = top_full_byte s"
proof -
  obtain a b where u: "u = port_flags a b (scheduled s) s"
    "\<And>v. toggle v = toggle s \<Longrightarrow> top_full_byte v = top_full_byte s \<Longrightarrow> scheduled v = scheduled s \<Longrightarrow>
      handler_step (Indexed h ce se) v = Ok (q, port_flags a b (scheduled s) v)"
    using assms(1) by (cases "toggle s") (auto simp: indexed_flags simp del: handler_step.simps)
  then obtain v where v: "remaining p s = Ok v" "w = port_flags a b (scheduled s) v"
    using rest_flags [OF assms(3), of a b "scheduled s" s] assms(2) by (cases "remaining p s") auto
  from rest_keeps [OF v(1) assms(3)] u(2) v(2) have "handler_step (Indexed h ce se) v = Ok (q, w)" by blast
  then show ?thesis using v rest_keeps [OF v(1) assms(3)] by simp
qed

lemma indexed_step:
  assumes "handler_step (Indexed h ce se) s = Ok (q, u)"
  shows "(q = Handled \<or> q = Awaiting ce se) \<and> place_ok p u = place_ok p s \<and> cbuf u = cbuf s \<and> sess u = sess s \<and>
    lock_held u = lock_held s"
  using assms by (auto simp: indexed_flags simp del: handler_step.simps split: if_splits)

lemma tasklet_is_done:
  "smp_turns es (Done, q, s) = Ok (Done, Handled, t) \<Longrightarrow> handler_rest q s = Ok t"
proof (induction es arbitrary: q s)
  case Nil
  then show ?case by simp
next
  case (Cons e es)
  then show ?case by (cases e) (auto split: exec.splits dest: handler_step_rest)
qed

text \<open>
  Both end in \<open>t\<close> as if the tasklet went on alone first and the handler after it, and the tasklet
  leaves the ends where they have to be.
\<close>

definition after_tasklet :: "tasklet_at \<Rightarrow> handler_at \<Rightarrow> asgn2_state \<Rightarrow> asgn2_state \<Rightarrow> bool" where
  "after_tasklet p q s t \<longleftrightarrow>
     (\<exists>v. remaining p s = Ok v \<and> handler_rest q v = Ok t \<and> place_ok Done v \<and>
       cbuf_end (cbuf v) = right_end p (cbuf s) \<and> session_end (sess v) = session_end (sess s))"

lemma after_tasklet_done:
  assumes "smp_turns es (Done, q, s) = Ok (Done, Handled, t)" "place_ok Done s"
  shows "after_tasklet Done q s t"
  using tasklet_is_done [OF assms(1)] assms(2) cbuf_end_right [of "cbuf s" Done]
  by (auto simp: after_tasklet_def right_end_def)

lemma after_tasklet_step:
  assumes "tasklet_step True p s = Ok (p', u)" "critical p" "lock_held s" "place_ok p s" "after_tasklet p' q u t"
  shows "after_tasklet p q s t"
  using assms(5) step_rest [OF assms(1)] step_place [OF assms(1-4)] by (simp add: after_tasklet_def)

lemma after_tasklet_indexed:
  assumes "handler_step (Indexed h ce se) s = Ok (q, u)" "p \<noteq> Starting" "after_tasklet p q u t"
  shows "after_tasklet p (Indexed h ce se) s t"
proof -
  obtain w where w: "remaining p u = Ok w" "handler_rest q w = Ok t" "place_ok Done w"
    "cbuf_end (cbuf w) = right_end p (cbuf u)" "session_end (sess w) = session_end (sess u)"
    using assms(3) by (auto simp: after_tasklet_def)
  from indexed_commutes [OF assms(1) w(1) assms(2)] obtain v where
    v: "remaining p s = Ok v" "handler_step (Indexed h ce se) v = Ok (q, w)" "cbuf w = cbuf v" "sess w = sess v"
    "lock_held w = lock_held v" by blast
  then show ?thesis using w handler_step_rest [OF v(2)] indexed_step [OF assms(1)]
    unfolding after_tasklet_def by (intro exI [of _ v]) simp
qed

lemma tasklet_first:
  assumes "smp_turns es (p, q, s) = Ok (Done, Handled, t)" "p = Done \<or> critical p \<and> lock_held s" "place_ok p s"
    and "q = Handled \<or> (\<exists>ce se. q = Awaiting ce se) \<or> (\<exists>h ce se. q = Indexed h ce se)"
  shows "after_tasklet p q s t"
  using assms
proof (induction es arbitrary: p q s)
  case Nil
  then show ?case using after_tasklet_done [of "[]" q s t] by simp
next
  case (Cons e es)
  show ?case
  proof (cases "p = Done")
    case True
    then show ?thesis using after_tasklet_done Cons.prems(1,3) by blast
  next
    case False
    then have p: "critical p" "lock_held s" using Cons.prems(2) by simp_all
    show ?thesis
    proof (cases "e = Tasklet \<and> tasklet_step True p s \<noteq> Spins")
      case True
      then obtain p' u where u: "tasklet_step True p s = Ok (p', u)" "smp_turns es (p', q, u) = Ok (Done, Handled, t)"
        using Cons.prems(1) by (auto split: exec.splits)
      have "place_ok p' u" using step_place [OF u(1) p Cons.prems(3)] by simp
      from after_tasklet_step [OF u(1) p Cons.prems(3) Cons.IH [OF u(2) step_critical [OF u(1) p] this Cons.prems(4)]]
      show ?thesis .
    next
      case nogo: False
      show ?thesis
      proof (cases "e = Handler \<and> (\<exists>h ce se. q = Indexed h ce se)")
        case False
        then have "smp_turns es (p, q, s) = Ok (Done, Handled, t)"
          using nogo Cons.prems(1,4) p(2) by (cases e) auto
        from Cons.IH [OF this Cons.prems(2-4)] show ?thesis .
      next
        case True
        then obtain h ce se q' u where q: "q = Indexed h ce se" "handler_step (Indexed h ce se) s = Ok (q', u)"
          "smp_turns es (p, q', u) = Ok (Done, Handled, t)"
          using Cons.prems(1) by (auto split: if_splits)
        note k = indexed_step [OF q(2), of p]
        then have "after_tasklet p q' u t" using Cons.IH [OF q(3)] p Cons.prems(3) by auto
        from after_tasklet_indexed [OF q(2) _ this] show ?thesis using p(1) q(1) by (simp add: critical_def)
      qed
    qed
  qed
qed

subsection \<open>The handler has the lock\<close>

lemma handler_done:
  "smp_turns es (p, Handled, s) = Ok (Done, Handled, t) \<Longrightarrow> p \<noteq> Starting \<Longrightarrow> remaining p s = Ok t"
proof (induction es arbitrary: p s)
  case Nil
  then show ?case by simp
next
  case (Cons e es)
  show ?case
  proof (cases "e = Tasklet \<and> tasklet_step True p s \<noteq> Spins")
    case True
    then obtain q u where u: "tasklet_step True p s = Ok (q, u)" "smp_turns es (q, Handled, u) = Ok (Done, Handled, t)"
      using Cons.prems(1) by (auto split: exec.splits)
    then show ?thesis using Cons.IH [OF u(2)] step_rest [OF u(1)] step_not_starting [OF u(1)] by simp
  next
    case False
    then have "smp_turns es (p, Handled, s) = Ok (Done, Handled, t)" using Cons.prems(1) by (cases e) auto
    then show ?thesis using Cons.IH Cons.prems(2) by blast
  qed
qed

lemma remaining_scheduled:
  assumes "p \<noteq> Starting"
  shows "remaining p (s\<lparr>scheduled := True\<rparr>) = map_exec (\<lambda>t. t\<lparr>scheduled := True\<rparr>) (remaining p s)"
proof -
  have flag: "s\<lparr>scheduled := True\<rparr> = port_flags (toggle s) (top_full_byte s) True s" for s
    by (simp add: port_flags_def)
  then show ?thesis
    using rest_flags [OF assms, of "toggle s" "top_full_byte s" True s] rest_keeps [OF _ assms, of s]
    by (cases "remaining p s") (simp_all add: flag)
qed

lemma handler_scheduling:
  "smp_turns es (p, Scheduling, s) = Ok (Done, Handled, t) \<Longrightarrow> p \<noteq> Starting \<Longrightarrow>
    remaining p (s\<lparr>scheduled := True\<rparr>) = Ok t"
proof (induction es arbitrary: p s)
  case Nil
  then show ?case by simp
next
  case (Cons e es)
  show ?case
  proof (cases e)
    case Tasklet
    show ?thesis
    proof (cases "tasklet_step True p s")
      case (Ok c)
      obtain q u where c: "c = (q, u)" by fastforce
      then have u: "tasklet_step True p s = Ok (q, u)" "smp_turns es (q, Scheduling, u) = Ok (Done, Handled, t)"
        using Ok Cons.prems(1) Tasklet by simp_all
      note q = step_not_starting [OF u(1)]
      then show ?thesis using Cons.IH [OF u(2) q] step_rest [OF u(1)] remaining_scheduled Cons.prems(2) by simp
    qed (use Cons Tasklet in auto)
  next
    case Handler
    then show ?thesis using Cons.prems handler_done by simp
  qed
qed

lemma handler_gone:
  assumes "smp_turns es (p, q, s) = Ok (Done, Handled, t)" "q = Scheduling \<or> q = Handled" "p \<noteq> Starting"
  shows "\<exists>v. handler_rest q s = Ok v \<and> remaining p v = Ok t"
  using assms handler_done handler_scheduling by auto

lemma handler_first:
  assumes "smp_turns es (Locking, q, s) = Ok (Done, Handled, t)" "lock_held s" "q = Releasing \<or> (\<exists>ce se. q = Inserting ce se)"
  shows "\<exists>v. handler_rest q s = Ok v \<and> remaining Locking v = Ok t"
  using assms
proof (induction es arbitrary: q s)
  case Nil
  then show ?case by simp
next
  case (Cons e es)
  show ?case
  proof (cases e)
    case Tasklet
    then have "smp_turns es (Locking, q, s) = Ok (Done, Handled, t)" using Cons.prems(1,2) by simp
    from Cons.IH [OF this Cons.prems(2,3)] show ?thesis .
  next
    case Handler
    show ?thesis
    proof (cases "handler_step q s")
      case (Ok c)
      then obtain q' u where u: "handler_step q s = Ok (q', u)" "smp_turns es (Locking, q', u) = Ok (Done, Handled, t)"
        using Cons.prems(1) Handler by (cases c) auto
      have "q' = Releasing \<and> lock_held u \<or> q' = Scheduling \<or> q' = Handled"
        using u(1) Cons.prems(2,3) by (auto split: if_splits option.splits)
      then have "\<exists>v. handler_rest q' u = Ok v \<and> remaining Locking v = Ok t"
        using Cons.IH [OF u(2)] handler_gone [OF u(2)] by blast
      then show ?thesis using handler_step_rest [OF u(1)] by simp
    next
      case Spins
      then show ?thesis using Cons.prems(3) by (auto split: if_splits option.splits)
    next
      case Fault
      then show ?thesis using Cons.prems(1) Handler by simp
    qed
  qed
qed
subsection \<open>Either may have it first\<close>

lemma both_waiting:
  assumes "smp_turns es (Locking, q, s) = Ok (Done, Handled, t)" "cbuf_ok (cbuf s)"
    and "(\<exists>ce se. q = Awaiting ce se) \<or> (\<exists>h ce se. q = Indexed h ce se)"
  shows "(\<exists>v. handler_rest q s = Ok v \<and> remaining Locking v = Ok t) \<or> after_tasklet Locking q s t"
  using assms
proof (induction es arbitrary: q s)
  case Nil
  then show ?case by simp
next
  case (Cons e es)
  show ?case
  proof (cases "lock_held s \<and> (e = Tasklet \<or> (\<exists>ce se. q = Awaiting ce se))")
    case True
    then have "smp_turns es (Locking, q, s) = Ok (Done, Handled, t)" using Cons.prems(1) by (cases e) auto
    from Cons.IH [OF this Cons.prems(2,3)] show ?thesis .
  next
    case False
    show ?thesis
    proof (cases e)
      case Tasklet
      then have l: "\<not> lock_held s" "smp_turns es (Testing, q, s\<lparr>lock_held := True\<rparr>) = Ok (Done, Handled, t)"
        using False Cons.prems(1) by (simp_all split: if_splits)
      from tasklet_first [OF l(2)] Cons.prems(2,3) have "after_tasklet Testing q (s\<lparr>lock_held := True\<rparr>) t"
        by (auto simp: critical_def)
      then show ?thesis using l(1) by (simp add: after_tasklet_def right_end_def)
    next
      case Handler
      then obtain q' u where u: "handler_step q s = Ok (q', u)" "smp_turns es (Locking, q', u) = Ok (Done, Handled, t)"
        using False Cons.prems(1,3) by (auto split: if_splits)
      show ?thesis
      proof (cases "\<exists>h ce se. q = Indexed h ce se \<and> q' = Awaiting ce se")
        case False
        then have "q' = Handled \<or> lock_held u \<and> (\<exists>ce se. q' = Inserting ce se)"
          using u(1) Cons.prems(3) by (auto split: if_splits)
        then have "\<exists>v. handler_rest q' u = Ok v \<and> remaining Locking v = Ok t"
          using handler_gone [OF u(2)] handler_first [OF u(2)] by blast
        then show ?thesis using handler_step_rest [OF u(1)] by simp
      next
        case True
        then obtain h ce se where q: "q = Indexed h ce se" "q' = Awaiting ce se" by blast
        have "cbuf_ok (cbuf u)" using indexed_step [OF u(1) [unfolded q(1)]] Cons.prems(2) by simp
        with Cons.IH [OF u(2)] q(2) have
          "(\<exists>v. handler_rest q' u = Ok v \<and> remaining Locking v = Ok t) \<or> after_tasklet Locking q' u t" by blast
        then show ?thesis
          using after_tasklet_indexed [OF u(1) [unfolded q(1)], of Locking t] tasklet_at.distinct(1)
          unfolding handler_step_rest [OF u(1)] q(1) by blast
      qed
    qed
  qed
qed

lemma tasklet_alone:
  assumes "smp_turns (replicate n Tasklet) (p, q, s) = Ok (p', q', u)" "place_ok p s"
    and "p = Locking \<or> p = Done \<or> critical p \<and> lock_held s"
  shows "q' = q \<and> remaining p' u = remaining p s \<and> place_ok p' u \<and> right_end p' (cbuf u) = right_end p (cbuf s) \<and>
    session_end (sess u) = session_end (sess s) \<and>
    (p' = Locking \<and> p = Locking \<and> u = s \<or> p' = Done \<or> critical p' \<and> lock_held u)"
  using assms
proof (induction n arbitrary: p s)
  case 0
  then show ?case by auto
next
  case (Suc n)
  show ?case
  proof (cases "tasklet_step True p s")
    case (Ok c)
    obtain p1 s1 where c: "c = (p1, s1)" by fastforce
    have s1: "tasklet_step True p s = Ok (p1, s1)" "smp_turns (replicate n Tasklet) (p1, q, s1) = Ok (p', q', u)"
      using Ok c Suc.prems(1) by simp_all
    have "p1 = Done \<or> critical p1 \<and> lock_held s1"
      using Suc.prems(3) step_critical [OF s1(1)] s1(1) by (auto simp: critical_def split: if_splits)
    moreover have "place_ok p1 s1 \<and> right_end p1 (cbuf s1) = right_end p (cbuf s) \<and>
        session_end (sess s1) = session_end (sess s)"
      using Suc.prems(2,3) step_place [OF s1(1)] s1(1) by (auto simp: right_end_def split: if_splits)
    ultimately show ?thesis using Suc.IH [OF s1(2)] step_rest [OF s1(1)] by (auto simp: critical_def)
  next
    case Spins
    then have "smp_turns (replicate n Tasklet) (p, q, s) = Ok (p', q', u)" using Suc.prems(1) by simp
    from Suc.IH [OF this Suc.prems(2,3)] show ?thesis .
  next
    case Fault
    then show ?thesis using Suc.prems(1) by simp
  qed
qed
lemma tasklet_copy_locking:
  assumes "remaining Locking s = Ok v"
  shows "\<exists>v'. tasklet_copy s = Ok v' \<and> unscheduled v' = unscheduled v"
proof -
  have "unscheduled s = port_flags (toggle s) (top_full_byte s) False s" by (simp add: port_flags_def)
  then have "tasklet_copy s = Ok (port_flags (toggle s) (top_full_byte s) False v)"
    using rest_flags [of Locking] assms by (simp add: tasklet_copy_rest del: remaining.simps)
  then show ?thesis using rest_keeps [OF assms] by (simp add: port_flags_def)
qed

text \<open>The handler's way from where it looked up the indices, for a tasklet that is somewhere on its way.\<close>

lemma indices_found:
  assumes "cbuf_ok (cbuf s)" "smp_turns (replicate n Tasklet) (Locking, Entering h, s) = Ok (p, Entering h, u)"
    and "smp_turns (Handler # es) (p, Entering h, u) = Ok (Done, Handled, t)" "p \<noteq> Locking"
  shows "\<exists>v. remaining Locking s = Ok v \<and> place_ok Done v \<and> toggle v = toggle s \<and> top_full_byte v = top_full_byte s \<and>
    byte_rest h ((cbuf_end (cbuf v) + (if between p then 1 else 0)) mod 64) (session_end (sess v)) v = Ok t"
proof -
  have a: "remaining p u = remaining Locking s" "place_ok p u" "session_end (sess u) = session_end (sess s)"
    "p = Done \<or> critical p \<and> lock_held u"
    using tasklet_alone [OF assms(2)] assms(1,4) by auto
  have "cbuf_ok (cbuf u)" using a(2) by (cases p) auto
  then have ends: "cbuf_end (cbuf u) = (right_end p (cbuf u) + (if between p then 1 else 0)) mod 64" by (rule cbuf_end_right)
  have "smp_turns es (p, Indexed h (cbuf_end (cbuf u)) (session_end (sess u)), u) = Ok (Done, Handled, t)"
    using assms(3) by simp
  from tasklet_first [OF this a(4,2)] a(1) obtain v where
    v: "remaining Locking s = Ok v" "byte_rest h (cbuf_end (cbuf u)) (session_end (sess u)) v = Ok t" "place_ok Done v"
    "cbuf_end (cbuf v) = right_end p (cbuf u)" "session_end (sess v) = session_end (sess u)" by (auto simp: after_tasklet_def)
  then show ?thesis using ends rest_keeps [OF v(1)] by auto
qed



text \<open>
  C32: if the handler looks up the end of the buffer between the two updates, then in spite of the lock its
  byte goes one slot too far: after both have ended the buffer holds, as the next byte to be
  copied, what was in the slot before, and the byte lies behind it where nobody counts it.
\<close>

theorem asgn2_stale_index:
  assumes "cbuf_ok (cbuf s)" "smp_turns (replicate n Tasklet) (Locking, Entering h, s) = Ok (p, Entering h, u)"
    and "smp_turns (Handler # es) (p, Entering h, u) = Ok (Done, Handled, t)" "between p"
    and "\<not> toggle s" "b = top_full_byte s OR h" "b \<noteq> 0"
  shows "\<exists>v. tasklet_copy s = Ok v \<and> cbuf_contents (cbuf v) = [] \<and> count_byte (sess v) = Some (sess t) \<and>
    (let i = nat (cb_head (cbuf v))
     in cbuf_contents (cbuf t) = [cb_buffer (cbuf v) ! i] \<and> cb_buffer (cbuf t) = (cb_buffer (cbuf v))[(i + 1) mod 64 := b])"
proof -
  have "p \<noteq> Locking" using assms(4) by auto
  from indices_found [OF assms(1-3) this] assms(4) obtain v where
    v: "remaining Locking s = Ok v" "place_ok Done v" "toggle v = toggle s" "top_full_byte v = top_full_byte s"
    and r: "byte_rest h ((cbuf_end (cbuf v) + 1) mod 64) (session_end (sess v)) v = Ok t" by auto
  have l: "\<not> lock_held v" using r v(3) assms(5) by (auto simp: byte_rest_def insert_rest_def)
  then have c: "cbuf_ok (cbuf v)" "cb_count (cbuf v) = 0" using v(2) by simp_all
  let ?i = "nat (cb_head (cbuf v))"
  have h: "0 \<le> cb_head (cbuf v)" "cb_head (cbuf v) < 64" "length (cb_buffer (cbuf v)) = 64"
    using c(1) by (simp_all add: cbuf_ok_def)
  have e: "cbuf_end (cbuf v) = cb_head (cbuf v)" using c(2) h by (simp add: cbuf_end_def)
  have i: "(cb_head (cbuf v) + 1) mod 64 = int ((?i + 1) mod 64)" using h(1) by (simp add: of_nat_mod add.commute)
  have put: "put_at ((cb_head (cbuf v) + 1) mod 64) b (cbuf v) =
      Some ((cbuf v)\<lparr>cb_buffer := (cb_buffer (cbuf v))[(?i + 1) mod 64 := b], cb_count := 1\<rparr>)"
    unfolding i using h(3) c(2) by (simp add: put_at_def array_set_def del: of_nat_mod)
  then obtain ss where t: "count_byte (sess v) = Some ss" "sess t = ss"
    "cbuf t = (cbuf v)\<lparr>cb_buffer := (cb_buffer (cbuf v))[(?i + 1) mod 64 := b], cb_count := 1\<rparr>"
    using r l v(3,4) assms(5-7) c(2)
    by (auto simp: byte_rest_def insert_rest_def released_def e count_at_end split: option.splits)
  have "?i mod 64 = ?i" "(?i + 1) mod 64 \<noteq> ?i" using h by (auto simp: mod_Suc)
  then have "cbuf_contents (cbuf t) = [cb_buffer (cbuf v) ! ?i]" by (simp add: t(3) cbuf_contents_def)
  moreover obtain v' where "tasklet_copy s = Ok v'" "unscheduled v' = unscheduled v"
    using tasklet_copy_locking [OF v(1)] by blast
  moreover from this(2) have "cbuf v' = cbuf v" "sess v' = sess v"
    by (metis asgn2_state.select_convs(3,4) asgn2_state.surjective asgn2_state.update_convs(9))+
  ultimately show ?thesis using t c(2) by (simp add: Let_def cbuf_contents_def)
qed

text \<open>The buffer held an A in every slot; the B that arrives is replaced by one of them.\<close>

theorem asgn2_stale_index_witness:
  "let s = (asgn2_initial (clean_kmem 1))\<lparr>toggle := False, top_full_byte := 64,
       cbuf := \<lparr>cb_head = 0, cb_count = 1, cb_buffer = replicate 64 65\<rparr>\<rparr>
   in \<exists>t v. smp_turns (replicate 4 Tasklet @ Handler # replicate 5 Tasklet @ replicate 5 Handler)
          (Locking, Entering 2, s) = Ok (Done, Handled, t) \<and>
        tasklet_copy s = Ok v \<and> cbuf_contents (cbuf t) = [cb_buffer (cbuf v) ! nat (cb_head (cbuf v))]"
proof -
  let ?s = "(asgn2_initial (clean_kmem 1))\<lparr>toggle := False, top_full_byte := 64,
    cbuf := \<lparr>cb_head = 0, cb_count = 1, cb_buffer = replicate 64 65\<rparr>\<rparr>"
  let ?es = "replicate 5 Tasklet @ replicate 5 Handler"
  have reps: "replicate 4 Tasklet = [Tasklet, Tasklet, Tasklet, Tasklet]"
    "replicate 5 Tasklet = [Tasklet, Tasklet, Tasklet, Tasklet, Tasklet]"
    "replicate 5 Handler = [Handler, Handler, Handler, Handler, Handler]"
    by (simp_all add: numeral_eq_Suc)
  have first: "replicate 64 (65 :: byte) ! 0 = 65" "[0..<1] = [0 :: nat]" by simp_all
  have "\<exists>u t. smp_turns (replicate 4 Tasklet) (Locking, Entering 2, ?s) = Ok (Counting 65, Entering 2, u) \<and>
      smp_turns (Handler # ?es) (Counting 65, Entering 2, u) = Ok (Done, Handled, t) \<and>
      smp_turns (replicate 4 Tasklet @ Handler # ?es) (Locking, Entering 2, ?s) = Ok (Done, Handled, t)"
    unfolding reps by (simp add: first asgn2_initial_def cbuf_end_def session_end_def put_at_def count_at_def array_set_def
        array_get_def store_byte_def kmalloc_def alloc_page_def clean_kmem_def list_add_tail_def store_last_def
        page_store_def stored_def)
  then obtain u t where t: "smp_turns (replicate 4 Tasklet) (Locking, Entering 2, ?s) = Ok (Counting 65, Entering 2, u)"
    "smp_turns (Handler # ?es) (Counting 65, Entering 2, u) = Ok (Done, Handled, t)"
    "smp_turns (replicate 4 Tasklet @ Handler # ?es) (Locking, Entering 2, ?s) = Ok (Done, Handled, t)" by blast
  have "cbuf_ok (cbuf ?s)" by (simp add: cbuf_ok_def)
  from asgn2_stale_index [OF this t(1,2), of 66] obtain v where
    "tasklet_copy ?s = Ok v" "cbuf_contents (cbuf t) = [cb_buffer (cbuf v) ! nat (cb_head (cbuf v))]"
    by (auto simp: Let_def)
  then show ?thesis unfolding Let_def using t(3) by blast
qed

end
