(* ===== verification/Lab_Proc.thy ===== *)
theory Lab_Proc
  imports Kernel
begin

section \<open>Status files that can be written: lab04\<close>

text \<open>
  \<^verbatim>\<open>lab04/proc/proc.c\<close> has a file with one number, \<^verbatim>\<open>lab04/my_proc/my_proc.c\<close> a file with three and
  the value of an expression. A write copies the user's text into memory that it does not
  terminate, and scans it. The scanning is that of the kernel: white space is skipped, a minus
  sign is taken, and the value is that of the digits that follow, in 32 bits.
\<close>

subsection \<open>Scanning numbers\<close>

text \<open>One \<open>%d\<close>: the number and the text behind it.\<close>

definition scan_int :: "string \<Rightarrow> (int \<times> string) option" where
  "scan_int s =
     (let s = dropWhile is_space s;
          (neg, t) = (case s of c # t \<Rightarrow> if c = CHR ''-'' then (True, t) else (False, s) | [] \<Rightarrow> (False, []));
          ds = takeWhile is_digit t
      in if ds = [] then None
         else Some (s32 (if neg then - int (digits_val ds) else int (digits_val ds)), dropWhile is_digit t))"

text \<open>\<open>n\<close> conversions in a row: the numbers up to the first that fails.\<close>

fun scan_ints :: "nat \<Rightarrow> string \<Rightarrow> int list" where
  "scan_ints 0 s = []"
| "scan_ints (Suc n) s =
     (case scan_int s of None \<Rightarrow> [] | Some (v, rest) \<Rightarrow> v # scan_ints n rest)"

lemma show_nat_digits: "(\<forall>c \<in> set (show_nat n). is_digit c) \<and> digits_val (show_nat n) = n"
proof (induction n rule: show_nat.induct)
  case (1 n)
  show ?case
  proof (cases "n < 10")
    case True
    then have "show_nat n = [digit_char n]" by (simp add: show_nat.simps [of n])
    then show ?thesis using True by (simp add: digits_val_def)
  next
    case False
    then have "show_nat n = show_nat (n div 10) @ [digit_char (n mod 10)]" by (simp add: show_nat.simps [of n])
    then show ?thesis using 1 [OF False] by simp
  qed
qed

lemma digit_not_special:
  "is_digit c \<Longrightarrow> \<not> is_space c" "is_digit c \<Longrightarrow> c \<noteq> CHR ''-''" "is_space c \<Longrightarrow> \<not> is_digit c"
  by (auto simp: is_digit_def is_space_def)

lemma dropWhile_space: "\<forall>c \<in> set ws. is_space c \<Longrightarrow> dropWhile is_space (ws @ s) = dropWhile is_space s"
  by (induction ws) auto

lemma takeWhile_digits:
  assumes "\<forall>c \<in> set ds. is_digit c" "rest = [] \<or> \<not> is_digit (hd rest)"
  shows "takeWhile is_digit (ds @ rest) = ds" "dropWhile is_digit (ds @ rest) = rest"
  using assms by (cases rest; auto simp: takeWhile_append dropWhile_append)+

text \<open>A printed number in front of something that is not a digit is scanned back.\<close>

lemma scan_show_int:
  assumes "- 2147483648 \<le> i" "i < 2147483648" "\<forall>c \<in> set ws. is_space c" "rest = [] \<or> \<not> is_digit (hd rest)"
  shows "scan_int (ws @ show_int i @ rest) = Some (i, rest)"
proof -
  obtain c cs where n: "show_nat (nat \<bar>i\<bar>) = c # cs" using show_nat_nonempty by (meson neq_Nil_conv)
  have d: "\<forall>c \<in> set (show_nat (nat \<bar>i\<bar>)). is_digit c" "digits_val (show_nat (nat \<bar>i\<bar>)) = nat \<bar>i\<bar>"
    using show_nat_digits by blast+
  have c: "is_digit c" using d(1) n by simp
  note tw = takeWhile_digits [OF d(1) assms(4)]
  show ?thesis
  proof (cases "i < 0")
    case True
    then have s: "show_int i = CHR ''-'' # show_nat (nat \<bar>i\<bar>)" by (simp add: show_int_def)
    have "dropWhile is_space (ws @ show_int i @ rest) = CHR ''-'' # show_nat (nat \<bar>i\<bar>) @ rest"
      using dropWhile_space [OF assms(3)] s by (simp add: is_space_def)
    then show ?thesis
      using True tw d(2) n assms(1,2) by (simp add: scan_int_def)
  next
    case False
    then have s: "show_int i = show_nat (nat \<bar>i\<bar>)" by (simp add: show_int_def)
    have "dropWhile is_space (ws @ show_int i @ rest) = show_nat (nat \<bar>i\<bar>) @ rest"
      using dropWhile_space [OF assms(3)] s n c digit_not_special(1) by simp
    then show ?thesis
      using False tw d(2) n c digit_not_special(2) [OF c] assms(1,2) by (simp add: scan_int_def)
  qed
qed

subsection \<open>One number\<close>

definition proc_read :: "int \<Rightarrow> string" where
  "proc_read param = show_int param @ [CHR 0x0A]"

text \<open>
  \<open>got\<close> is the answer of \<open>kmalloc\<close>, which the function does not look at: where there is no memory it
  follows a null pointer, and where the user writes nothing the pointer that \<open>kmalloc\<close> gives for no
  bytes, which must not be followed either. Then it has no result. \<open>fault\<close> says that the user's text cannot
  be copied; \<open>behind\<close> is what lies in memory behind the copy, up to a zero byte, which \<open>sscanf\<close> runs into.
  The result, the new value and the balance of \<open>kmalloc\<close>.
\<close>

definition proc_write :: "bool \<Rightarrow> bool \<Rightarrow> string \<Rightarrow> string \<Rightarrow> int \<Rightarrow> (int \<times> int \<times> int) option" where
  "proc_write got fault behind text param =
     (if \<not> got \<or> text = [] then None
      else if fault then Some (- EFAULT, param, 0)
      else Some (int (length text),
                 (case scan_ints 1 (text @ behind) of [v] \<Rightarrow> v | _ \<Rightarrow> param),
                 0))"

lemma show_int_nonempty [simp]: "show_int i \<noteq> []"
  by (simp add: show_int_def show_nat_nonempty)

lemma digit_chars: "digit_char 0 = CHR ''0''" "digit_char 7 = CHR ''7''"
  by code_simp+

text \<open>
  A number written with a line end is what a read prints afterwards, whatever lies behind
  the copy; a number written without one is continued by the digits that lie there.
\<close>

lemma proc_write_read:
  assumes "- 2147483648 \<le> i" "i < 2147483648"
  shows "proc_write True False behind (proc_read i) param = Some (int (length (proc_read i)), i, 0) \<and>
    (0 \<le> i \<and> 10 * i + 7 < 2147483648 \<longrightarrow>
      proc_write True False ''7'' (show_int i) param = Some (int (length (show_int i)), 10 * i + 7, 0))"
proof
  have "scan_int ([] @ show_int i @ [CHR 0x0A] @ behind) = Some (i, [CHR 0x0A] @ behind)"
    using assms by (intro scan_show_int) (simp_all add: is_digit_def)
  then show "proc_write True False behind (proc_read i) param = Some (int (length (proc_read i)), i, 0)"
    by (simp add: proc_write_def proc_read_def)
  show "0 \<le> i \<and> 10 * i + 7 < 2147483648 \<longrightarrow> proc_write True False ''7'' (show_int i) param = Some (int (length (show_int i)), 10 * i + 7, 0)"
  proof
    assume i: "0 \<le> i \<and> 10 * i + 7 < 2147483648"
    have cat: "i \<noteq> 0 \<Longrightarrow> show_int (10 * i + 7) = show_int i @ ''7''"
    proof -
      assume "i \<noteq> 0"
      have "nat (10 * i + 7) = 10 * nat i + 7" using i by (simp add: nat_add_distrib nat_mult_distrib)
      moreover have "1 \<le> nat i" using i \<open>i \<noteq> 0\<close> by linarith
      ultimately have "show_nat (nat (10 * i + 7)) = show_nat (nat i) @ [digit_char 7]"
        by (simp add: show_nat.simps [of "10 * nat i + 7"])
      then show "show_int (10 * i + 7) = show_int i @ ''7''"
        using i by (simp add: show_int_def digit_chars)
    qed
    show "proc_write True False ''7'' (show_int i) param = Some (int (length (show_int i)), 10 * i + 7, 0)"
    proof (cases "i = 0")
      case True
      then show ?thesis
        by (simp add: proc_write_def show_int_def show_nat.simps [of 0] digit_chars scan_int_def
            is_space_def is_digit_def digits_val_def digit_val_def)
    next
      case False
      have "scan_int ([] @ show_int (10 * i + 7) @ []) = Some (10 * i + 7, [])"
        using i by (intro scan_show_int) simp_all
      then show ?thesis using cat [OF False] by (simp add: proc_write_def)
    qed
  qed
qed

subsection \<open>Three numbers\<close>

record my_proc =
  a :: int
  b :: int
  c :: int

definition my_proc_read :: "my_proc \<Rightarrow> string" where
  "my_proc_read p =
     (let res = s32 (a p + b p * c p)
      in ''[a+b*c] '' @ show_int (a p) @ '' + '' @ show_int (b p) @ '' * '' @ show_int (c p) @ '' = '' @
         show_int res @ [CHR 0x0A])"

definition my_proc_write :: "bool \<Rightarrow> bool \<Rightarrow> string \<Rightarrow> string \<Rightarrow> my_proc \<Rightarrow> (int \<times> my_proc \<times> int) option" where
  "my_proc_write got fault behind text p =
     (if \<not> got \<or> text = [] then None
      else if fault then Some (- EFAULT, p, 0)
      else
       (let vs = scan_ints 3 (text @ behind);
            p = (case vs of
                   [] \<Rightarrow> p
                 | [x] \<Rightarrow> p\<lparr>a := x\<rparr>
                 | [x, y] \<Rightarrow> p\<lparr>a := x, b := y\<rparr>
                 | x # y # z # _ \<Rightarrow> p\<lparr>a := x, b := y, c := z\<rparr>)
        in if length vs \<noteq> 3 then Some (- 1, p, 1)
           else Some (int (length text), p, 0)))"



end
