(* ===== verification/Asgn_Status.thy ===== *)
theory Asgn_Status
  imports Asgn1 Asgn2 Lab_Proc
begin

section \<open>The status files of the two drivers\<close>

text \<open>
  \<^verbatim>\<open>asgn1_read_procmem\<close> and \<^verbatim>\<open>asgn2_read_procmem\<close> print the counters of the device with one format.
  The theory reads them back with the scanner of the lab's status file.
\<close>

text \<open>The numbers of a text, each behind a word of a given length.\<close>

fun fields :: "nat list \<Rightarrow> string \<Rightarrow> int list option" where
  "fields [] s = Some []"
| "fields (w # ws) s =
     (case scan_int (drop w s) of None \<Rightarrow> None | Some (v, s) \<Rightarrow> map_option ((#) v) (fields ws s))"

definition status_numbers :: "string \<Rightarrow> int list option" where
  "status_numbers s = fields [length ''nprocs '', length '', max_nprocs '', Suc (length ''num_pages ''),
     length '', data_size ''] s"

lemma fields_show:
  assumes "length w = n" "- 2147483648 \<le> i" "i < 2147483648" "s = [] \<or> \<not> is_digit (hd s)"
  shows "fields (n # ns) (w @ show_int i @ s) = map_option ((#) i) (fields ns s)"
  using scan_show_int [OF assms(2,3) _ assms(4), of "[]"] assms(1) by simp

lemma length_show_nat: "n < 10 ^ k \<Longrightarrow> 0 < k \<Longrightarrow> length (show_nat n) \<le> k"
proof (induction n arbitrary: k rule: show_nat.induct)
  case (1 n)
  show ?case
  proof (cases "n < 10")
    case True
    then show ?thesis using 1 by (simp add: show_nat.simps [of n])
  next
    case False
    then obtain j where j: "k = Suc j" "0 < j" using 1(2,3) by (cases k; cases "k - 1") auto
    then have "n div 10 < 10 ^ j" using 1(2) by (simp add: less_mult_imp_div_less mult.commute)
    then show ?thesis using 1(1) False j by (simp add: show_nat.simps [of n])
  qed
qed

lemma length_show_int:
  assumes "- 2147483648 \<le> i" "i < 2147483648"
  shows "length (show_int i) \<le> 11"
proof -
  have "nat \<bar>i\<bar> < 10 ^ 10" using assms by (simp add: nat_less_iff)
  then show ?thesis using length_show_nat [of "nat \<bar>i\<bar>" 10] by (auto simp: show_int_def)
qed

lemma show_int_bounds:
  assumes "- 2147483648 \<le> i" "i < 2147483648"
  shows "1 \<le> length (show_int i) \<and> length (show_int i) \<le> 11"
  using length_show_int [OF assms] show_nat_nonempty by (auto simp: show_int_def Suc_le_eq)

definition status_text :: "asgn_dev \<Rightarrow> string" where
  "status_text d =
     ''nprocs '' @ show_int (nprocs d) @ '', max_nprocs '' @ show_int (max_nprocs d) @ (CHR 0x0A # ''num_pages '') @
     show_int (num_pages d) @ '', data_size '' @ show_int (s32 (data_size d)) @ [CHR 0x0A]"

lemma read_procmem_text:
  "asgn1_read_procmem d count = snprintf (u32 count) (status_text d)"
  "asgn2_read_procmem d count = snprintf (u32 count) (status_text d)"
  by (simp_all add: asgn1_read_procmem_def asgn2_read_procmem_def status_text_def)

text \<open>
  C27: with room for more than 88 characters the status file of either driver holds the four counters
  and they can be read back from it, the size of the data as a signed number; with less room the
  text is cut and a zero put behind it, and the result is still the length of the whole text,
  beyond what was stored.
\<close>

theorem status_numbers_read:
  assumes "- 2147483648 \<le> nprocs d" "nprocs d < 2147483648" "- 2147483648 \<le> max_nprocs d" "max_nprocs d < 2147483648"
    and "- 2147483648 \<le> num_pages d" "num_pages d < 2147483648" "0 < count" "count < 2147483648"
    and "asgn1_read_procmem d count = (r, text)"
  shows "asgn2_read_procmem d count = (r, text) \<and> 48 \<le> r \<and> r \<le> 88 \<and> int (length text) = min r (count - 1) + 1 \<and>
    (88 < count \<longrightarrow> status_numbers text = Some [nprocs d, max_nprocs d, num_pages d, s32 (data_size d)])"
proof -
  have size: "- 2147483648 \<le> s32 (data_size d)" "s32 (data_size d) < 2147483648" by simp_all
  note b = show_int_bounds [OF assms(1,2)] show_int_bounds [OF assms(3,4)] show_int_bounds [OF assms(5,6)]
    show_int_bounds [OF size]
  have r: "r = int (length (status_text d))"
    and cut: "text = take (nat (count - 1)) (status_text d) @ [CHR 0x00]"
    using assms(7-9) by (simp_all add: read_procmem_text snprintf_def)
  have len: "48 \<le> length (status_text d)" "length (status_text d) \<le> 88" using b by (simp_all add: status_text_def)
  have "status_numbers (status_text d @ [CHR 0x00]) = Some [nprocs d, max_nprocs d, num_pages d, s32 (data_size d)]"
    using assms(1-6) size
    by (simp add: status_numbers_def status_text_def fields_show is_digit_def del: fields.simps(2) append_Cons)
  then have "88 < count \<longrightarrow> status_numbers text = Some [nprocs d, max_nprocs d, num_pages d, s32 (data_size d)]"
    using len(2) by (simp add: cut)
  moreover have "int (length text) = min r (count - 1) + 1" using assms(7) unfolding cut r by (simp add: min_def) linarith
  ultimately show ?thesis using len r assms(9) by (simp add: read_procmem_text)
qed

theorem status_numbers_read_witness:
  "let d = \<lparr>mem_list = [], num_pages = 2, data_size = 5000, nprocs = 1, max_nprocs = 3\<rparr>
   in \<exists>r text. asgn2_read_procmem d 100 = (r, text) \<and> status_numbers text = Some [1, 3, 2, 5000]"
proof -
  let ?d = "\<lparr>mem_list = [], num_pages = 2, data_size = 5000, nprocs = 1, max_nprocs = 3\<rparr>"
  obtain r out where t: "asgn1_read_procmem ?d 100 = (r, out)" by fastforce
  have "asgn2_read_procmem ?d 100 = (r, out) \<and> status_numbers out = Some [1, 3, 2, 5000]"
    using status_numbers_read [OF _ _ _ _ _ _ _ _ t] by simp
  then show ?thesis unfolding Let_def by blast
qed

end
