(* ===== verification/Asgn2_Queue.thy ===== *)
theory Asgn2_Queue
  imports Asgn2_Serve Asgn2_Sim
begin

section \<open>The driver is a queue of sessions\<close>

text \<open>
  The specification of the driver: a queue of closed sessions and one session that is still
  arriving; a reader takes the oldest. The theory shows that the tracker, the buffer and the
  page implement it for any order of arrivals and readers, as long as what is unread fits the
  page (\<open>queue_admits\<close>), and while slots of \<open>sizes\<close> are left that were not used before.
\<close>

subsection \<open>The specification\<close>

datatype queue_event = Arrive "byte list" | End_session | Serve

record session_queue =
  closed :: "byte list list"
  arriving :: "byte list"

definition unread :: "session_queue \<Rightarrow> byte list" where
  "unread Q = concat (closed Q) @ arriving Q"

fun queue_step :: "queue_event \<Rightarrow> session_queue \<Rightarrow> byte list list \<times> session_queue" where
  "queue_step (Arrive bs) Q = ([], Q\<lparr>arriving := arriving Q @ bs\<rparr>)"
| "queue_step End_session Q = ([], \<lparr>closed = closed Q @ [arriving Q], arriving = []\<rparr>)"
| "queue_step Serve Q = (take 1 (closed Q), Q\<lparr>closed := drop 1 (closed Q)\<rparr>)"

fun queue_run :: "queue_event list \<Rightarrow> session_queue \<Rightarrow> byte list list \<times> session_queue" where
  "queue_run [] Q = ([], Q)"
| "queue_run (e # es) Q =
     (let (out, Q) = queue_step e Q; (outs, Q) = queue_run es Q in (out @ outs, Q))"

text \<open>
  Where the unread bytes begin in the page, and how many slots are left after an event. A page
  is given back when it has been read to its end.
\<close>

fun place_step :: "queue_event \<Rightarrow> session_queue \<Rightarrow> nat \<times> nat \<Rightarrow> nat \<times> nat" where
  "place_step Serve Q (off, m) = ((off + length (hd (closed Q))) mod 4096, m - 1)"
| "place_step e Q p = p"

text \<open>
  What the driver can cope with: chunks that fit the buffer and the rest of the page, a slot for
  the session that arrives, a reader only when there is a closed session, and no reader of an
  empty session at the beginning of a page that holds other bytes.
\<close>

fun admits :: "queue_event \<Rightarrow> session_queue \<Rightarrow> nat \<times> nat \<Rightarrow> bool" where
  "admits (Arrive bs) Q (off, m) \<longleftrightarrow>
     0 \<notin> set bs \<and> length bs \<le> 64 \<and> off + length (unread Q) + length bs \<le> 4096 \<and> length (closed Q) < m"
| "admits End_session Q (off, m) \<longleftrightarrow> length (closed Q) < m"
| "admits Serve Q (off, m) \<longleftrightarrow>
     closed Q \<noteq> [] \<and> (hd (closed Q) = [] \<and> off = 0 \<longrightarrow> unread Q = [])"

fun queue_admits :: "queue_event list \<Rightarrow> session_queue \<Rightarrow> nat \<times> nat \<Rightarrow> bool" where
  "queue_admits [] Q p = True"
| "queue_admits (e # es) Q p =
     (admits e Q p \<and> queue_admits es (snd (queue_step e Q)) (place_step e Q p))"

subsection \<open>The driver\<close>

text \<open>A chunk and the end of a session are followed by the tasklet; a reader opens, reads and closes.\<close>

fun port_event_run :: "uaccess \<Rightarrow> int \<Rightarrow> queue_event \<Rightarrow> asgn2_state \<Rightarrow> ((int \<times> byte list) list \<times> asgn2_state) exec" where
  "port_event_run ua count (Arrive bs) s = map_exec (\<lambda>t. ([], t)) (port_run (send_chunk bs) s)"
| "port_event_run ua count End_session s = map_exec (\<lambda>t. ([], t)) (port_run (send [0] @ [Softirq]) s)"
| "port_event_run ua count Serve s = map_exec (\<lambda>(n, out, t). ([(n, out)], t)) (open_read_release ua count s)"

fun port_serve :: "uaccess \<Rightarrow> int \<Rightarrow> queue_event list \<Rightarrow> asgn2_state \<Rightarrow> ((int \<times> byte list) list \<times> asgn2_state) exec" where
  "port_serve ua count [] s = Ok ([], s)"
| "port_serve ua count (e # es) s =
     (case port_event_run ua count e s of
        Ok (out, t) \<Rightarrow> map_exec (\<lambda>(outs, u). (out @ outs, u)) (port_serve ua count es t)
      | Spins \<Rightarrow> Spins
      | Fault \<Rightarrow> Fault)"

subsection \<open>The relation\<close>

text \<open>
  The tracker: the slots from \<open>head\<close> on hold the sizes of the closed sessions and of the one that
  arrives; the others of the \<open>m\<close> slots are zero.
\<close>

definition queue_slots :: "nat \<Rightarrow> nat list \<Rightarrow> sessions_tracker \<Rightarrow> bool" where
  "queue_slots m ns ss \<longleftrightarrow>
     0 \<le> ss_head ss \<and> ss_head ss < 100 \<and> length (sizes ss) = 100 \<and> m \<le> 100 \<and>
     (\<forall>i < m. sizes ss ! ((nat (ss_head ss) + i) mod 100) = (if i < length ns then int (ns ! i) else 0))"

text \<open>\<open>q\<close> are bytes of the session that arrives which are still in the buffer.\<close>

definition in_queue :: "nat \<Rightarrow> nat \<Rightarrow> session_queue \<Rightarrow> byte list \<Rightarrow> asgn2_state \<Rightarrow> bool" where
  "in_queue m off Q q s \<longleftrightarrow>
     cbuf_ok (cbuf s) \<and> cbuf_contents (cbuf s) = q \<and>
     queue_slots m (map length (closed Q) @ [length (arriving Q) + length q]) (sess s) \<and>
     (length (closed Q) < m \<or> length (closed Q) = m \<and> arriving Q = [] \<and> q = []) \<and>
     ss_count (sess s) = int (length (closed Q)) \<and>
     read_offset (sess s) = int off \<and> off < 4096 \<and>
     write_offset (sess s) = int ((off + length (unread Q)) mod 4096) \<and>
     off + length (unread Q) + length q \<le> 4096 \<and>
     pages_hold off (unread Q) (mem_list (a2_dev s)) \<and> frames_ok (a2_kmem s)"

lemma in_queue_flags [simp]:
  "in_queue m off Q q (s\<lparr>toggle := a\<rparr>) = in_queue m off Q q s"
  "in_queue m off Q q (s\<lparr>top_full_byte := b\<rparr>) = in_queue m off Q q s"
  "in_queue m off Q q (s\<lparr>lock_held := c\<rparr>) = in_queue m off Q q s"
  "in_queue m off Q q (s\<lparr>scheduled := d\<rparr>) = in_queue m off Q q s"
  "in_queue m off Q q (s\<lparr>fin_reading := e\<rparr>) = in_queue m off Q q s"
  "in_queue m off Q q (s\<lparr>a2_dev := (a2_dev s)\<lparr>nprocs := f\<rparr>\<rparr>) = in_queue m off Q q s"
  by (simp_all add: in_queue_def)

subsection \<open>Bytes arrive\<close>

lemma count_byte_queue:
  assumes "queue_slots m (ns @ [k]) ss" "ss_count ss = int (length ns)" "length ns < m" "k < 4096"
  shows "\<exists>ss'. count_byte ss = Some ss' \<and> queue_slots m (ns @ [Suc k]) ss' \<and>
    (\<exists>xs. ss' = ss\<lparr>sizes := xs\<rparr>)"
proof -
  let ?h = "nat (ss_head ss)"
  let ?e = "(?h + length ns) mod 100"
  have h: "0 \<le> ss_head ss" "ss_head ss < 100" "length (sizes ss) = 100" "m \<le> 100"
    and z: "\<And>i. i < m \<Longrightarrow> sizes ss ! ((?h + i) mod 100) = (if i < Suc (length ns) then int ((ns @ [k]) ! i) else 0)"
    using assms(1) by (auto simp: queue_slots_def)
  have "session_end ss = (ss_head ss + int (length ns)) mod 100"
    using h(1,2,4) assms(2,3) by (simp add: session_end_def)
  also have "\<dots> = int ?e" using h(1) by (simp add: of_nat_mod)
  finally have e: "session_end ss = int ?e" .
  have k: "sizes ss ! ?e = int k" using z [OF assms(3)] by simp
  let ?ss = "ss\<lparr>sizes := (sizes ss)[?e := int (Suc k)]\<rparr>"
  have c: "count_byte ss = Some ?ss"
    using h(3) k assms(4) by (simp add: count_byte_def e array_get_def array_set_def add.commute del: of_nat_mod)
  have "(sizes ss)[?e := int (Suc k)] ! ((?h + i) mod 100) = (if i < Suc (length ns) then int ((ns @ [Suc k]) ! i) else 0)"
    if "i < m" for i
  proof (cases "i = length ns")
    case True
    then show ?thesis using h(3) by simp
  next
    case False
    then have "(?h + i) mod 100 \<noteq> ?e" using mod_shift_inj [of i 100 "length ns" ?h] that assms(3) h(4) by simp
    then show ?thesis using z [OF that] False by (simp add: nth_append)
  qed
  then have "queue_slots m (ns @ [Suc k]) ?ss" using h by (simp add: queue_slots_def)
  with c show ?thesis by blast
qed

lemma queue_arrive_one:
  assumes "in_queue m off Q q s" "length (closed Q) < m" "toggle s" "\<not> lock_held s" "b \<noteq> 0"
    and "length q < 64" "off + length (unread Q) + length q < 4096"
  shows "\<exists>t. (\<forall>es. port_run (send [b] @ es) s = port_run es t) \<and> in_queue m off Q (q @ [b]) t \<and>
    toggle t \<and> \<not> lock_held t \<and> scheduled t \<and> a2_kmem t = a2_kmem s \<and> a2_dev t = a2_dev s"
proof -
  have v: "cbuf_ok (cbuf s)" "cbuf_contents (cbuf s) = q"
    "queue_slots m (map length (closed Q) @ [length (arriving Q) + length q]) (sess s)"
    "ss_count (sess s) = int (length (closed Q))"
    using assms(1) by (simp_all add: in_queue_def)
  have room: "cb_count (cbuf s) < 64" using cbuf_count [OF v(1)] v(2) assms(6) by simp
  obtain c where c: "cbuf_put b (cbuf s) = Some c" "cbuf_ok c" "cbuf_contents c = q @ [b]"
    using cbuf_put_contents [OF v(1) room, of b] v(2) by auto
  have "length (arriving Q) + length q < 4096" using assms(7) by (simp add: unread_def)
  then obtain ss xs where ss: "count_byte (sess s) = Some ss" "ss = (sess s)\<lparr>sizes := xs\<rparr>"
    "queue_slots m (map length (closed Q) @ [length (arriving Q) + length (q @ [b])]) ss"
    using count_byte_queue [OF v(3)] v(4) assms(2) by auto
  let ?t = "s\<lparr>top_full_byte := b, cbuf := c, sess := ss, scheduled := True\<rparr>"
  have "\<forall>es. port_run (send [b] @ es) s = port_run es ?t"
    using byte_arrives [OF assms(3), of b] assms(4,5) room c(1) ss(1) by (simp add: Let_def)
  moreover have "in_queue m off Q (q @ [b]) ?t"
    using assms(1,2,7) c(2,3) ss(2,3) by (simp add: in_queue_def)
  ultimately show ?thesis using assms(3,4) by (intro exI [of _ ?t]) simp
qed

lemma queue_arrive_all:
  assumes "in_queue m off Q q s" "length (closed Q) < m" "toggle s" "\<not> lock_held s" "0 \<notin> set bs"
    and "length q + length bs \<le> 64" "off + length (unread Q) + length q + length bs \<le> 4096"
  shows "\<exists>t. (\<forall>es. port_run (send bs @ es) s = port_run es t) \<and> in_queue m off Q (q @ bs) t \<and>
    toggle t \<and> \<not> lock_held t \<and> (bs \<noteq> [] \<longrightarrow> scheduled t) \<and> (scheduled s \<longrightarrow> scheduled t) \<and>
    a2_kmem t = a2_kmem s \<and> a2_dev t = a2_dev s"
  using assms
proof (induction bs arbitrary: q s)
  case Nil
  then show ?case by (intro exI [of _ s]) simp
next
  case (Cons b bs)
  obtain u where u: "\<forall>es. port_run (send [b] @ es) s = port_run es u" "in_queue m off Q (q @ [b]) u"
    "toggle u" "\<not> lock_held u" "scheduled u" "a2_kmem u = a2_kmem s" "a2_dev u = a2_dev s"
    using queue_arrive_one [OF Cons.prems(1-4), of b] Cons.prems(5-7) by auto
  obtain t where t: "\<forall>es. port_run (send bs @ es) u = port_run es t" "in_queue m off Q ((q @ [b]) @ bs) t"
    "toggle t" "\<not> lock_held t" "scheduled u \<longrightarrow> scheduled t" "a2_kmem t = a2_kmem u" "a2_dev t = a2_dev u"
    using Cons.IH [OF u(2) Cons.prems(2) u(3,4)] Cons.prems(5-7) by auto
  have "port_run (send (b # bs) @ es) s = port_run es t" for es
    using u(1) [rule_format, of "send bs @ es"] t(1) by simp
  then show ?case using u(5-7) t(2-) by (intro exI [of _ t]) simp
qed

subsection \<open>The tasklet\<close>

text \<open>
  For the tasklet the unread bytes are one session: it runs as from the tracker of a single
  session with all of them.
\<close>

abbreviation single_tracker :: "int \<Rightarrow> sessions_tracker \<Rightarrow> sessions_tracker" where
  "single_tracker z ss \<equiv> ss\<lparr>ss_head := 0, ss_count := 0, sizes := (replicate 100 0)[0 := z]\<rparr>"

interpretation single: tracker_view "single_tracker z" id for z
  by unfold_locales auto

lemma queue_softirq:
  assumes "in_queue m off Q q s" "stock j off (unread Q) s" "\<not> lock_held s" "q \<noteq> [] \<longrightarrow> scheduled s"
  shows "\<exists>t. softirq s = Ok t \<and> in_queue m off (Q\<lparr>arriving := arriving Q @ q\<rparr>) [] t \<and>
    stock j off (unread Q @ q) t \<and> toggle t = toggle s \<and> \<not> lock_held t \<and>
    nprocs (a2_dev t) = nprocs (a2_dev s) \<and> max_nprocs (a2_dev t) = max_nprocs (a2_dev s)"
proof -
  let ?v = "retrack (single_tracker (int (length (unread Q) + length q))) id"
  have "in_session 0 1 off (unread Q) q (?v s)" "stock j off (unread Q) (?v s)"
    using assms(1,2) by (simp_all add: in_queue_def in_session_def slots_ok_def stock_def)
  from softirq_session [OF this] obtain t' where t': "softirq (?v s) = Ok t'"
    "in_session 0 1 off (unread Q @ q) [] t'" "stock j off (unread Q @ q) t'" "toggle t' = toggle s"
    "\<not> lock_held t'" "nprocs (a2_dev t') = nprocs (a2_dev s)" "max_nprocs (a2_dev t') = max_nprocs (a2_dev s)"
    using assms(3,4) by auto
  then obtain t where t: "softirq s = Ok t" "t' = ?v t"
    unfolding single.softirq_retrack by (cases "softirq s") auto
  have ss: "sess t = (sess s)\<lparr>write_offset := write_offset (sess t)\<rparr>" using softirq_sess [OF t(1)] .
  have f: "ss_head (sess t) = ss_head (sess s)" "ss_count (sess t) = ss_count (sess s)"
    "sizes (sess t) = sizes (sess s)" "read_offset (sess t) = read_offset (sess s)"
    using arg_cong [OF ss, of ss_head] arg_cong [OF ss, of ss_count] arg_cong [OF ss, of sizes]
      arg_cong [OF ss, of read_offset] by simp_all
  have u: "unread (Q\<lparr>arriving := arriving Q @ q\<rparr>) = unread Q @ q" by (simp add: unread_def)
  have "in_queue m off (Q\<lparr>arriving := arriving Q @ q\<rparr>) [] t"
    using assms(1) t'(2) unfolding in_queue_def u
    by (auto simp: in_session_def t(2) queue_slots_def f)
  then show ?thesis using t(1) t'(3-) by (auto simp: t(2) stock_def)
qed

lemma queue_chunk:
  assumes "in_queue m off Q [] s" "stock j off (unread Q) s" "toggle s" "\<not> lock_held s"
    and "admits (Arrive bs) Q (off, m)"
  shows "\<exists>t. port_run (send_chunk bs) s = Ok t \<and> in_queue m off (Q\<lparr>arriving := arriving Q @ bs\<rparr>) [] t \<and>
    stock j off (unread Q @ bs) t \<and> toggle t \<and> \<not> lock_held t \<and>
    nprocs (a2_dev t) = nprocs (a2_dev s) \<and> max_nprocs (a2_dev t) = max_nprocs (a2_dev s)"
proof -
  obtain u where u: "\<forall>es. port_run (send bs @ es) s = port_run es u" "in_queue m off Q ([] @ bs) u"
    "toggle u" "\<not> lock_held u" "bs \<noteq> [] \<longrightarrow> scheduled u" "a2_kmem u = a2_kmem s" "a2_dev u = a2_dev s"
    using queue_arrive_all [OF assms(1) _ assms(3,4)] assms(5) by auto
  have "in_queue m off Q bs u" "stock j off (unread Q) u" using u(2,6) assms(2) by (simp_all add: stock_def)
  from queue_softirq [OF this u(4,5)] show ?thesis using u by (auto simp: send_chunk_def)
qed

lemma slot_value_0:
  "(if i < length (ns @ [k, 0]) then int ((ns @ [k, 0]) ! i) else 0) =
   (if i < length (ns @ [k]) then int ((ns @ [k]) ! i) else 0)"
proof (cases i "length ns" rule: linorder_cases)
  case greater
  then obtain d where "i = length ns + Suc d" using less_imp_Suc_add by (metis add_Suc_right)
  then show ?thesis by (cases d) (simp_all add: nth_append)
qed (simp_all add: nth_append)

lemma queue_end:
  assumes "in_queue m off Q [] s" "stock j off (unread Q) s" "toggle s" "\<not> lock_held s"
    and "admits End_session Q (off, m)"
  shows "\<exists>t. port_run (send [0] @ [Softirq]) s = Ok t \<and>
    in_queue m off \<lparr>closed = closed Q @ [arriving Q], arriving = []\<rparr> [] t \<and>
    stock j off (unread Q) t \<and> toggle t \<and> \<not> lock_held t \<and>
    nprocs (a2_dev t) = nprocs (a2_dev s) \<and> max_nprocs (a2_dev t) = max_nprocs (a2_dev s)"
proof -
  let ?Q = "\<lparr>closed = closed Q @ [arriving Q], arriving = []\<rparr>"
  let ?v = "s\<lparr>top_full_byte := 0, sess := (sess s)\<lparr>ss_count := s32 (ss_count (sess s) + 1)\<rparr>, scheduled := True\<rparr>"
  have run: "port_run (send [0] @ [Softirq]) s = port_run [Softirq] ?v"
    using byte_arrives [OF assms(3), of 0] assms(4) by (simp add: Let_def)
  have u: "unread ?Q = unread Q" by (simp add: unread_def)
  have m: "length (closed Q) < m" using assms(5) by simp
  have "m \<le> 100" using assms(1) by (simp add: in_queue_def queue_slots_def)
  moreover have "queue_slots m (ns @ [k, 0]) (ss\<lparr>ss_count := c\<rparr>) = queue_slots m (ns @ [k]) ss" for ns k ss c
    unfolding queue_slots_def slot_value_0 by simp
  ultimately have v: "in_queue m off ?Q [] ?v" "stock j off (unread ?Q) ?v"
    using assms(1,2) m unfolding in_queue_def u by (auto simp: stock_def)
  from queue_softirq [OF this] assms(4) obtain t where "softirq ?v = Ok t" "in_queue m off ?Q [] t"
    "stock j off (unread ?Q) t" "toggle t = toggle ?v" "\<not> lock_held t"
    "nprocs (a2_dev t) = nprocs (a2_dev ?v)" "max_nprocs (a2_dev t) = max_nprocs (a2_dev ?v)"
    by auto
  then show ?thesis using run u assms(3) by simp
qed

subsection \<open>A reader takes the oldest session\<close>

lemma queue_slots_tl:
  assumes "queue_slots m (n # ns) ss" "ss' = ss\<lparr>ss_head := (ss_head ss + 1) mod 100, ss_count := c, read_offset := r\<rparr>"
  shows "queue_slots (m - 1) ns ss'"
proof -
  have h: "0 \<le> ss_head ss" using assms(1) by (simp add: queue_slots_def)
  have "nat ((ss_head ss + 1) mod 100) = (nat (ss_head ss) + 1) mod 100"
    using h by (simp add: nat_mod_distrib nat_add_distrib)
  then have shift: "(nat ((ss_head ss + 1) mod 100) + i) mod 100 = (nat (ss_head ss) + Suc i) mod 100" for i
    by (simp add: mod_add_left_eq mod_Suc_eq)
  have "sizes ss ! ((nat (ss_head ss) + Suc i) mod 100) = (if i < length ns then int (ns ! i) else 0)" if "i < m - 1" for i
    using assms(1) that unfolding queue_slots_def by (auto dest!: spec [of _ "Suc i"])
  then show ?thesis using assms by (auto simp: queue_slots_def shift simp del: add_Suc_right)
qed

lemma after_read_fields:
  "sess (after_read w s) = (sess s)\<lparr>ss_head := (ss_head (sess s) + 1) mod 100, ss_count := ss_count (sess s) - 1,
     read_offset := (read_offset (sess s) + int (length w)) mod 4096\<rparr>"
  "cbuf (after_read w s) = cbuf s" "frames_ok (a2_kmem (after_read w s)) = frames_ok (a2_kmem s)"
  "mem_list (a2_dev (after_read w s)) =
     (case mem_list (a2_dev s) of [] \<Rightarrow> []
      | p # ps \<Rightarrow> if (read_offset (sess s) + int (length w)) mod 4096 = 0 then list_del p (p # ps) else p # ps)"
  by (simp_all add: after_read_def Let_def drop_page_def split: list.split)

lemma in_queue_served:
  assumes "in_queue m off Q [] s" "closed Q = w # ws" "w = [] \<and> off = 0 \<longrightarrow> unread Q = []"
  shows "in_queue (m - 1) ((off + length w) mod 4096) (Q\<lparr>closed := ws\<rparr>) [] (after_read w s)"
proof -
  let ?Q = "Q\<lparr>closed := ws\<rparr>" and ?o = "(off + length w) mod 4096"
  have u: "unread Q = w @ unread ?Q" using assms(2) by (simp add: unread_def)
  have v: "cbuf_ok (cbuf s)" "cbuf_contents (cbuf s) = []"
    "queue_slots m (length w # map length ws @ [length (arriving Q)]) (sess s)"
    "length (closed Q) < m \<or> length (closed Q) = m \<and> arriving Q = []"
    "ss_count (sess s) = int (Suc (length ws))" "read_offset (sess s) = int off" "off < 4096"
    "write_offset (sess s) = int ((off + length w + length (unread ?Q)) mod 4096)"
    "off + length w + length (unread ?Q) \<le> 4096" "pages_hold off (unread Q) (mem_list (a2_dev s))" "frames_ok (a2_kmem s)"
    using assms(1) unfolding in_queue_def u by (simp_all add: assms(2) add.assoc)
  have o: "(read_offset (sess s) + int (length w)) mod 4096 = int ?o" using v(6) by (simp add: of_nat_mod)
  have "queue_slots (m - 1) (map length ws @ [length (arriving Q)]) (sess (after_read w s))"
    using queue_slots_tl [OF v(3)] after_read_fields(1) by blast
  moreover have "pages_hold ?o (unread ?Q) (mem_list (a2_dev (after_read w s)))"
  proof (cases "off + length w = 0")
    case True
    then have "unread Q = []" using assms(3) by simp
    then show ?thesis using True v(10) u by (simp add: pages_hold_def after_read_fields(4))
  next
    case False
    then obtain p where p: "mem_list (a2_dev s) = [p]" "length (frame p) = 4096"
      "take (length (w @ unread ?Q)) (drop off (frame p)) = w @ unread ?Q"
      using v(10) u by (auto simp: pages_hold_def split: if_splits)
    then have "drop (length w) (take (length (w @ unread ?Q)) (drop off (frame p))) = unread ?Q" by simp
    then have t: "take (length (unread ?Q)) (drop (off + length w) (frame p)) = unread ?Q"
      by (simp add: drop_take add.commute)
    show ?thesis
    proof (cases "off + length w = 4096")
      case True
      then show ?thesis using v(9) p(1) o by (simp add: pages_hold_def after_read_fields(4) list_del_def)
    next
      case less: False
      then have oo: "?o = off + length w" using v(9) by simp
      then have "int ?o \<noteq> 0" using False by (simp only: of_nat_eq_0_iff not_False_eq_True)
      then have "mem_list (a2_dev (after_read w s)) = [p]"
        by (simp only: after_read_fields(4) p(1) o list.case if_False)
      then show ?thesis using p(2) t oo False unfolding pages_hold_def by auto
    qed
  qed
  moreover have "(off + length w + length (unread ?Q)) mod 4096 = (?o + length (unread ?Q)) mod 4096"
    by (simp add: mod_add_left_eq)
  moreover have "?o + length (unread ?Q) \<le> 4096"
    using v(9) by (cases "off + length w = 4096") auto
  moreover have "length ws < m - 1 \<or> length ws = m - 1 \<and> arriving Q = []" using v(4) assms(2) by auto
  ultimately show ?thesis
    using v o unfolding in_queue_def by (simp add: after_read_fields)
qed

lemma queue_serve:
  assumes "in_queue m off Q [] s" "closed Q = w # ws" "admits Serve Q (off, m)" "no_fault ua" "4096 \<le> count"
    and "0 \<le> nprocs (a2_dev s)" "nprocs (a2_dev s) < max_nprocs (a2_dev s)" "max_nprocs (a2_dev s) < 2147483648"
  shows "\<exists>t. open_read_release ua count s = Ok (int (length w), w, t) \<and>
    in_queue (m - 1) ((off + length w) mod 4096) (Q\<lparr>closed := ws\<rparr>) [] t \<and>
    toggle t = toggle s \<and> lock_held t = lock_held s \<and>
    (\<forall>n. mem_available n (a2_kmem t) = mem_available n (a2_kmem s)) \<and>
    nprocs (a2_dev t) = nprocs (a2_dev s) \<and> max_nprocs (a2_dev t) = max_nprocs (a2_dev s)"
proof -
  define s2 where "s2 = s\<lparr>fin_reading := False, a2_dev := (a2_dev s)\<lparr>nprocs := nprocs (a2_dev s) + 1\<rparr>\<rparr>"
  have op: "asgn2_open s O_RDONLY = (0, s2)"
    using assms(6-8) by (simp add: asgn2_open_def s2_def)
  have s2: "in_queue m off Q [] s2" "\<not> fin_reading s2" using assms(1) by (simp_all add: s2_def in_queue_def)
  have u: "unread Q = w @ (concat ws @ arriving Q)" using assms(2) by (simp add: unread_def)
  have e: "w = [] \<and> off = 0 \<longrightarrow> unread Q = []" using assms(2,3) by simp
  have v: "queue_slots m (length w # map length ws @ [length (arriving Q)]) (sess s2)" "length (closed Q) \<le> m"
    "ss_count (sess s2) = int (Suc (length ws))" "read_offset (sess s2) = int off" "off < 4096"
    "off + length w \<le> 4096" "pages_hold off (unread Q) (mem_list (a2_dev s2))"
    using s2(1) unfolding in_queue_def u by (auto simp: assms(2))
  have m: "0 < m" "m \<le> 100" using v(1,2) assms(2) by (auto simp: queue_slots_def)
  have slot: "sizes (sess s2) ! nat (ss_head (sess s2)) = int (length w)" "0 \<le> ss_head (sess s2)"
    "ss_head (sess s2) < 100" "length (sizes (sess s2)) = 100"
    using v(1) m(1) by (auto simp: queue_slots_def dest!: spec [of _ 0])
  have mem: "mem_list (a2_dev s2) = [] \<and> off = 0 \<and> w = [] \<or>
      (\<exists>p. mem_list (a2_dev s2) = [p] \<and> length (frame p) = 4096 \<and> take (length w) (drop off (frame p)) = w)"
  proof (cases "off + length (unread Q) = 0")
    case True
    then show ?thesis using v(7) u by (simp add: pages_hold_def)
  next
    case False
    then obtain p where p: "mem_list (a2_dev s2) = [p]" "length (frame p) = 4096"
      "take (length (unread Q)) (drop off (frame p)) = unread Q"
      using v(7) by (auto simp: pages_hold_def)
    have "take (length w) (take (length (unread Q)) (drop off (frame p))) = take (length w) (unread Q)"
      using p(3) by simp
    then have "take (length w) (drop off (frame p)) = w" using u by (simp add: min_absorb1)
    then show ?thesis using p by blast
  qed
  have count: "0 < ss_count (sess s2)" "ss_count (sess s2) < 2147483648" using v(2,3) m(2) assms(2) by auto
  define t where "t = snd (asgn2_release (after_read w s2))"
  have "asgn2_read ua id s2 count 0 = Ok (int (length w), w, int (length w), after_read w s2)"
    using read_first [OF s2(2) count slot(2-4,1) v(4-6) assms(4) _ mem] assms(5) v(6) by simp
  then have "open_read_release ua count s = Ok (int (length w), w, t)"
    using op by (simp add: open_read_release_def t_def)
  moreover have "in_queue (m - 1) ((off + length w) mod 4096) (Q\<lparr>closed := ws\<rparr>) [] t"
    using in_queue_served [OF s2(1) assms(2) e] by (simp add: t_def asgn2_release_def)
  moreover have "toggle t = toggle s \<and> lock_held t = lock_held s \<and>
    (\<forall>n. mem_available n (a2_kmem t) = mem_available n (a2_kmem s)) \<and>
    nprocs (a2_dev t) = nprocs (a2_dev s) \<and> max_nprocs (a2_dev t) = max_nprocs (a2_dev s)"
    using after_read_frame [of w s2] assms(6-8) by (simp add: t_def s2_def asgn2_release_def)
  ultimately show ?thesis by blast
qed

subsection \<open>Any order of events\<close>

text \<open>How many pages the events can need: one for each chunk, and one in reserve.\<close>

fun chunks_of :: "queue_event list \<Rightarrow> nat" where
  "chunks_of [] = 0"
| "chunks_of (Arrive bs # es) = Suc (chunks_of es)"
| "chunks_of (e # es) = chunks_of es"

definition serving :: "nat \<Rightarrow> asgn2_state \<Rightarrow> bool" where
  "serving n s \<longleftrightarrow> toggle s \<and> \<not> lock_held s \<and> mem_available (Suc n) (a2_kmem s) \<and>
     0 \<le> nprocs (a2_dev s) \<and> nprocs (a2_dev s) < max_nprocs (a2_dev s) \<and> max_nprocs (a2_dev s) < 2147483648"

lemma stock_any: "mem_available (Suc n) (a2_kmem s) \<Longrightarrow> stock n off ws s"
  by (auto simp: stock_def intro: mem_available_mono)

lemma queue_event_step:
  assumes "in_queue m off Q [] s" "admits e Q (off, m)" "no_fault ua" "4096 \<le> count"
    and "serving (chunks_of (e # es)) s"
  shows "\<exists>t off' m'. port_event_run ua count e s = Ok (map (\<lambda>w. (int (length w), w)) (fst (queue_step e Q)), t) \<and>
    place_step e Q (off, m) = (off', m') \<and> in_queue m' off' (snd (queue_step e Q)) [] t \<and>
    serving (chunks_of es) t"
proof (cases e)
  case (Arrive bs)
  then have a: "toggle s" "\<not> lock_held s" "mem_available (Suc (Suc (chunks_of es))) (a2_kmem s)"
    using assms(5) by (simp_all add: serving_def)
  obtain t where "port_run (send_chunk bs) s = Ok t" "in_queue m off (Q\<lparr>arriving := arriving Q @ bs\<rparr>) [] t"
    "stock (Suc (chunks_of es)) off (unread Q @ bs) t" "toggle t" "\<not> lock_held t"
    "nprocs (a2_dev t) = nprocs (a2_dev s)" "max_nprocs (a2_dev t) = max_nprocs (a2_dev s)"
    using queue_chunk [OF assms(1) stock_any [OF a(3)] a(1,2)] assms(2) Arrive by auto
  then show ?thesis
    using Arrive assms(5) by (auto simp: serving_def stock_def intro: mem_available_mono split: if_splits)
next
  case End_session
  let ?j = "if off + length (unread Q) = 0 then chunks_of es else Suc (chunks_of es)"
  have a: "toggle s" "\<not> lock_held s" "stock ?j off (unread Q) s"
    using assms(5) End_session by (simp_all add: serving_def stock_def)
  obtain t where "port_run (send [0] @ [Softirq]) s = Ok t"
    "in_queue m off \<lparr>closed = closed Q @ [arriving Q], arriving = []\<rparr> [] t"
    "stock ?j off (unread Q) t" "toggle t" "\<not> lock_held t"
    "nprocs (a2_dev t) = nprocs (a2_dev s)" "max_nprocs (a2_dev t) = max_nprocs (a2_dev s)"
    using queue_end [OF assms(1) a(3,1,2)] assms(2) End_session by auto
  then show ?thesis
    using End_session assms(5) by (auto simp: serving_def stock_def simp del: send_simps split: if_splits)
next
  case Serve
  then obtain w ws where w: "closed Q = w # ws" using assms(2) by (cases "closed Q") auto
  obtain t where "open_read_release ua count s = Ok (int (length w), w, t)"
    "in_queue (m - 1) ((off + length w) mod 4096) (Q\<lparr>closed := ws\<rparr>) [] t" "toggle t = toggle s"
    "lock_held t = lock_held s" "\<forall>n. mem_available n (a2_kmem t) = mem_available n (a2_kmem s)"
    "nprocs (a2_dev t) = nprocs (a2_dev s)" "max_nprocs (a2_dev t) = max_nprocs (a2_dev s)"
    using queue_serve [OF assms(1) w _ assms(3,4)] assms(2,5) Serve by (auto simp: serving_def)
  then show ?thesis using Serve w assms(5) by (simp add: serving_def)
qed

text \<open>
  C4: the driver implements the queue of sessions: for any order of chunks, ends of sessions and
  readers that the queue admits, the readers get what the queue gives out, and afterwards the
  driver still represents the queue.
\<close>

theorem asgn2_refines_queue:
  assumes "in_queue m off Q [] s" "queue_admits es Q (off, m)" "no_fault ua" "4096 \<le> count"
    and "serving (chunks_of es) s"
  shows "\<exists>t off' m'. port_serve ua count es s = Ok (map (\<lambda>w. (int (length w), w)) (fst (queue_run es Q)), t) \<and>
    in_queue m' off' (snd (queue_run es Q)) [] t"
  using assms
proof (induction es arbitrary: s Q off m)
  case Nil
  then show ?case by auto
next
  case (Cons e es)
  obtain u off' m' where u: "port_event_run ua count e s = Ok (map (\<lambda>w. (int (length w), w)) (fst (queue_step e Q)), u)"
    "place_step e Q (off, m) = (off', m')" "in_queue m' off' (snd (queue_step e Q)) [] u" "serving (chunks_of es) u"
    using queue_event_step [OF Cons.prems(1) _ Cons.prems(3-5)] Cons.prems(2) by auto
  have "queue_admits es (snd (queue_step e Q)) (off', m')" using Cons.prems(2) u(2) by simp
  from Cons.IH [OF u(3) this Cons.prems(3,4) u(4)] show ?case
    using u(1) by (fastforce simp: case_prod_beta Let_def)
qed

lemma in_queue_initial: "frames_ok k \<Longrightarrow> in_queue 100 0 \<lparr>closed = [], arriving = []\<rparr> [] (asgn2_initial k)"
proof -
  have "queue_slots 100 [0] (sess (asgn2_initial k))"
    by (simp add: queue_slots_def asgn2_initial_def less_Suc_eq)
  then show "frames_ok k \<Longrightarrow> ?thesis"
    by (simp add: in_queue_def unread_def asgn2_initial_def cbuf_ok_def cbuf_contents_def pages_hold_def)
qed

theorem asgn2_refines_queue_witness:
  "\<exists>t. port_serve all_copied 4096
      [Arrive [65, 66], End_session, Arrive [67], End_session, Arrive [68], Serve, Arrive [69], End_session, Serve, Serve]
      (asgn2_initial (clean_kmem 5)) = Ok ([(2, [65, 66]), (1, [67]), (2, [68, 69])], t)"
proof -
  let ?es = "[Arrive [65, 66], End_session, Arrive [67], End_session, Arrive [68], Serve, Arrive [69], End_session, Serve, Serve]"
  have i: "in_queue 100 0 \<lparr>closed = [], arriving = []\<rparr> [] (asgn2_initial (clean_kmem 5))"
    by (rule in_queue_initial [OF frames_ok_clean])
  have a: "queue_admits ?es \<lparr>closed = [], arriving = []\<rparr> (0, 100)" by (simp add: unread_def)
  have "serving (chunks_of ?es) (asgn2_initial (clean_kmem 5))"
    using mem_available_clean [of 5] by (simp add: serving_def numeral_eq_Suc)
  from asgn2_refines_queue [OF i a _ _ this, of all_copied 4096] show ?thesis
    by (auto simp del: port_serve.simps)
qed

end
