(* ===== verification/Asgn2_Reuse.thy ===== *)
theory Asgn2_Reuse
  imports Asgn2_Wait
begin

section \<open>When the slots of the tracker come round again\<close>

text \<open>
  A slot of \<open>sizes\<close> is counted up while a session arrives and is never set back: after 100
  sessions the first slot still has the size of the first session, and the size of the session
  that comes then is added to it. The port with such a slot is simulated by the port with a
  clean one.
\<close>

abbreviation stale_tracker :: "nat \<Rightarrow> nat \<Rightarrow> sessions_tracker \<Rightarrow> sessions_tracker" where
  "stale_tracker i v ss \<equiv> ss\<lparr>sizes := (sizes ss)[i := sizes ss ! i + int v]\<rparr>"

definition room_in_slot :: "nat \<Rightarrow> nat \<Rightarrow> nat \<Rightarrow> sessions_tracker \<Rightarrow> bool" where
  "room_in_slot i v n ss \<longleftrightarrow>
     i < length (sizes ss) \<and> 0 \<le> sizes ss ! i \<and> sizes ss ! i + int v + int n < 4294967296"

lemma room_simps [simp]:
  "room_in_slot i v n (ss\<lparr>write_offset := w\<rparr>) = room_in_slot i v n ss"
  "room_in_slot i v n (ss\<lparr>ss_count := c\<rparr>) = room_in_slot i v n ss"
  by (simp_all add: room_in_slot_def)

lemma room_less: "room_in_slot i v (Suc n) ss \<Longrightarrow> room_in_slot i v n ss"
  by (simp add: room_in_slot_def)

lemma count_byte_stale:
  assumes "room_in_slot i v (Suc n) ss"
  shows "count_byte (stale_tracker i v ss) = map_option (stale_tracker i v) (count_byte ss)"
proof -
  have e: "session_end (stale_tracker i v ss) = session_end ss" by (simp add: session_end_def)
  show ?thesis
  proof (cases "0 \<le> session_end ss \<and> session_end ss < int (length (sizes ss))")
    case True
    show ?thesis
    proof (cases "nat (session_end ss) = i")
      case here: True
      have "u32 (sizes ss ! i + int v + 1) = u32 (sizes ss ! i + 1) + int v"
        using assms by (simp add: room_in_slot_def)
      then show ?thesis using True here e assms
        by (simp add: count_byte_def array_get_def array_set_def room_in_slot_def algebra_simps)
    next
      case False
      then show ?thesis using True e
        by (simp add: count_byte_def array_get_def array_set_def list_update_swap)
    qed
  next
    case False
    then show ?thesis using e by (auto simp: count_byte_def array_get_def)
  qed
qed

lemma count_byte_room:
  assumes "room_in_slot i v (Suc n) ss" "count_byte ss = Some ss'"
  shows "room_in_slot i v n ss'"
  using assms
  by (cases "nat (session_end ss) = i")
    (auto simp: count_byte_def array_get_def array_set_def room_in_slot_def split: option.splits if_splits)

interpretation stale: tracker_change "stale_tracker i v" id "room_in_slot i v" for i v
  by unfold_locales (auto simp: count_byte_stale dest: room_less count_byte_room)

text \<open>The session arrives as it does in a slot that was never used, with \<open>v\<close> more in the slot.\<close>

lemma stale_arrives:
  assumes "in_session 0 m off [] [] c" "c = s\<lparr>sess := (sess s)\<lparr>sizes := (sizes (sess s))[nat (ss_head (sess s)) := 0]\<rparr>\<rparr>"
    and "sizes (sess s) ! nat (ss_head (sess s)) = int v" "mem_available 1 (a2_kmem s)" "0 < m"
    and "toggle s" "\<not> lock_held s" "[] \<notin> set cs" "\<forall>c \<in> set cs. 0 \<notin> set c \<and> length c \<le> 64"
    and "off + length (concat cs) + v \<le> 4096"
  obtains u where "port_run (send_session cs) s = Ok (retrack (stale_tracker (nat (ss_head (sess s))) v) id u)"
    "in_session 1 m off (concat cs) [] u" "nprocs (a2_dev u) = nprocs (a2_dev s)"
    "max_nprocs (a2_dev u) = max_nprocs (a2_dev s)" "ss_head (sess u) = ss_head (sess s)"
proof -
  let ?h = "nat (ss_head (sess s))"
  let ?f = "retrack (stale_tracker ?h v) id"
  have len: "?h < length (sizes (sess s))" using assms(1,2) by (auto simp: in_session_def slots_ok_def)
  have "(sizes (sess s))[?h := int v] = sizes (sess s)" using assms(3) by (metis list_update_id)
  then have s: "s = ?f c" using len assms(2) by (simp add: retrack_def)
  have c: "toggle c" "\<not> lock_held c" "a2_dev c = a2_dev s" "a2_kmem c = a2_kmem s" "ss_head (sess c) = ss_head (sess s)"
    "sizes (sess c) ! ?h = 0" "?h < length (sizes (sess c))"
    using assms(2,6,7) len by simp_all
  have st: "stock 0 off [] c" using c(4) assms(4) mem_available_mono [OF assms(4), of 0] by (simp add: stock_def)
  obtain u where u: "port_run (send_session cs) c = Ok u" "in_session 1 m off (concat cs) [] u"
    "nprocs (a2_dev u) = nprocs (a2_dev s)" "max_nprocs (a2_dev u) = max_nprocs (a2_dev s)"
    using session_arrives [OF assms(1) st assms(5) c(1,2) assms(9)] c(3) assms(10) by auto
  have "length (send_session cs) \<le> 3 * 4096 + 3"
    using length_send_session [OF assms(8)] assms(10) by linarith
  then have "port_run (send_session cs) (?f c) = map_exec ?f (port_run (send_session cs) c)"
    using c(6,7) assms(10) by (intro stale.port_run_retrack) (simp add: room_in_slot_def)
  then have "port_run (send_session cs) s = Ok (?f u)" unfolding s [symmetric] u(1) by simp
  moreover have "ss_head (sess u) = ss_head (sess s)" using port_run_ss_head [OF u(1)] c(5) by simp
  ultimately show thesis using u(2-4) that by blast
qed

text \<open>
  C36: when a session arrives in a slot that still has the size \<open>v\<close> of an earlier one, the reader
  gets \<open>v\<close> bytes too many, which are whatever the page has behind the session, and the read
  position runs ahead of the write position by as much.
\<close>

theorem asgn2_slot_reuse:
  assumes "in_session 0 m off [] [] (s\<lparr>sess := (sess s)\<lparr>sizes := (sizes (sess s))[nat (ss_head (sess s)) := 0]\<rparr>\<rparr>)"
    and "sizes (sess s) ! nat (ss_head (sess s)) = int v" "mem_available 1 (a2_kmem s)" "0 < m"
    and "toggle s" "\<not> lock_held s" "no_fault ua" "4096 \<le> count"
    and "cs \<noteq> []" "[] \<notin> set cs" "\<forall>c \<in> set cs. 0 \<notin> set c \<and> length c \<le> 64"
    and "off + length (concat cs) + v \<le> 4096"
    and "0 \<le> nprocs (a2_dev s)" "nprocs (a2_dev s) < max_nprocs (a2_dev s)" "max_nprocs (a2_dev s) < 2147483648"
  shows "\<exists>u t extra. port_run (send_session cs) s = Ok u \<and> length extra = v \<and>
    open_read_release ua count u = Ok (int (length (concat cs) + v), concat cs @ extra, t) \<and>
    read_offset (sess t) = int ((off + length (concat cs) + v) mod 4096) \<and>
    write_offset (sess t) = int ((off + length (concat cs)) mod 4096)"
proof -
  let ?h = "nat (ss_head (sess s))" and ?ws = "concat cs"
  let ?f = "retrack (stale_tracker ?h v) id"
  have ws: "?ws \<noteq> []" using assms(9,10) by (cases cs) auto
  obtain u where run: "port_run (send_session cs) s = Ok (?f u)" and u: "in_session 1 m off ?ws [] u"
    "nprocs (a2_dev u) = nprocs (a2_dev s)" "max_nprocs (a2_dev u) = max_nprocs (a2_dev s)"
    and head: "ss_head (sess u) = ss_head (sess s)"
    by (rule stale_arrives [OF assms(1) refl assms(2-6,10-12)])
  have v: "0 \<le> ss_head (sess u)" "ss_head (sess u) < 100" "length (sizes (sess u)) = 100"
    "sizes (sess u) ! nat (ss_head (sess u)) = int (length ?ws)" "ss_count (sess u) = 1"
    "read_offset (sess u) = int off" "off < 4096" "write_offset (sess u) = int ((off + length ?ws) mod 4096)"
    using u(1) by (auto simp: in_session_def slots_ok_def)
  obtain p where p: "mem_list (a2_dev u) = [p]" "length (frame p) = 4096" "take (length ?ws) (drop off (frame p)) = ?ws"
    using u(1) ws by (auto simp: in_session_def pages_hold_def simp del: concat_eq_Nil_conv)
  define out where "out = take (length ?ws + v) (drop off (frame p))"
  define extra where "extra = drop (length ?ws) out"
  have l: "length out = length ?ws + v" using p(2) assms(12) by (simp add: out_def)
  have "take (length ?ws) out = ?ws" using p(3) by (simp add: out_def min_absorb1)
  then have out: "out = ?ws @ extra" unfolding extra_def by (metis append_take_drop_id)
  have ex: "length extra = v" using l by (simp add: extra_def)
  define s2 where "s2 = (?f u)\<lparr>fin_reading := False, a2_dev := (a2_dev u)\<lparr>nprocs := nprocs (a2_dev s) + 1\<rparr>\<rparr>"
  have op: "asgn2_open (?f u) O_RDONLY = (0, s2)"
    using assms(13-15) u(2,3) by (simp add: asgn2_open_def s2_def)
  have o: "take (length out) (drop off (frame p)) = out" unfolding l by (simp add: out_def)
  have "asgn2_read ua id s2 count 0 = Ok (int (length out), out, s64 (0 + int (length out)), after_read out s2)"
    using v p(1,2) l o head assms(7,8,12)
    by (intro read_first [where off = off]) (simp_all add: s2_def)
  then have "open_read_release ua count (?f u) = Ok (int (length out), out, snd (asgn2_release (after_read out s2)))"
    using op by (simp add: open_read_release_def)
  moreover have "sess (after_read out s2) = (sess s2)\<lparr>ss_head := (ss_head (sess s2) + 1) mod 100,
      ss_count := ss_count (sess s2) - 1, read_offset := (read_offset (sess s2) + int (length out)) mod 4096\<rparr>"
    by (simp add: after_read_def Let_def drop_page_def split: list.split)
  then have "read_offset (sess (snd (asgn2_release (after_read out s2)))) = int ((off + length ?ws + v) mod 4096) \<and>
    write_offset (sess (snd (asgn2_release (after_read out s2)))) = int ((off + length ?ws) mod 4096)"
    using v(6,8) l by (simp add: asgn2_release_def s2_def of_nat_mod add.assoc)
  ultimately show ?thesis using run out ex l by auto
qed

theorem asgn2_slot_reuse_witness:
  "\<exists>u t extra. port_run (send_session [[72, 105]]) (asgn2_initial (clean_kmem 1)
      \<lparr>sess := \<lparr>ss_head = 0, ss_count = 0, read_offset = 0, write_offset = 0, sizes = (replicate 100 0)[0 := 3]\<rparr>\<rparr>) = Ok u \<and>
    open_read_release all_copied 4096 u = Ok (5, [72, 105] @ extra, t) \<and> length extra = 3"
proof -
  let ?s = "asgn2_initial (clean_kmem 1)
      \<lparr>sess := \<lparr>ss_head = 0, ss_count = 0, read_offset = 0, write_offset = 0, sizes = (replicate 100 0)[0 := 3]\<rparr>\<rparr>"
  have c: "?s\<lparr>sess := (sess ?s)\<lparr>sizes := (sizes (sess ?s))[nat (ss_head (sess ?s)) := 0]\<rparr>\<rparr> = asgn2_initial (clean_kmem 1)"
    by (simp add: asgn2_initial_def list_update_same_conv)
  have "in_session 0 100 0 [] [] (asgn2_initial (clean_kmem 1))"
    by (rule in_session_initial [OF frames_ok_clean])
  then have i: "in_session 0 100 0 [] [] (?s\<lparr>sess := (sess ?s)\<lparr>sizes := (sizes (sess ?s))[nat (ss_head (sess ?s)) := 0]\<rparr>\<rparr>)"
    unfolding c .
  from asgn2_slot_reuse [OF i, of 3 all_copied 4096 "[[72, 105]]"] mem_available_clean [of 1] show ?thesis
    by (simp del: send_simps) blast
qed

end
