(* ===== verification/Lab_List.thy ===== *)
theory Lab_List
  imports Modules
begin

section \<open>A module that keeps a kernel list: lab03\<close>

text \<open>
  \<^verbatim>\<open>lab03/list/list.c\<close>: loading appends five entries to a list and prints it, unloading unlinks and
  frees them. An entry has the address that \<open>kmalloc\<close> gave; its answer in round \<open>k\<close> is an argument.
\<close>

record my_entry =
  addr :: nat
  val :: int

function build_loop :: "(int \<Rightarrow> nat option) \<Rightarrow> int \<Rightarrow> my_entry list \<Rightarrow> outcome \<times> my_entry list" where
  "build_loop answer k my_list =
     (if k < 5
      then (case answer k of
              None \<Rightarrow> (Oops, my_list)
            | Some p \<Rightarrow> build_loop answer (k + 1) (my_list @ [\<lparr>addr = p, val = k\<rparr>]))
      else (Returned 0, my_list))"
  by pat_completeness auto
termination by (relation "measure (\<lambda>(answer, k, l). nat (5 - k))") auto

declare build_loop.simps [simp del]

text \<open>The result, the list, and the numbers that are printed.\<close>

definition list_init :: "(int \<Rightarrow> nat option) \<Rightarrow> outcome \<times> my_entry list \<times> int list" where
  "list_init answer =
     (case build_loop answer 0 [] of
        (Oops, my_list) \<Rightarrow> (Oops, my_list, [])
      | (Returned r, my_list) \<Rightarrow> (Returned r, my_list, map val my_list))"

text \<open>
  The walk for deletion has taken the next entry before the body runs: it goes over the list
  as it was. The addresses that are freed, in order, and the list.
\<close>

fun del_loop :: "my_entry list \<Rightarrow> my_entry list \<Rightarrow> nat list \<Rightarrow> nat list \<times> my_entry list" where
  "del_loop [] my_list freed = (freed, my_list)"
| "del_loop (e # rest) my_list freed = del_loop rest (remove1 e my_list) (freed @ [addr e])"

text \<open>Also whether the message is printed that the list is not empty.\<close>

definition list_exit :: "my_entry list \<Rightarrow> nat list \<times> my_entry list \<times> bool" where
  "list_exit my_list = (let (freed, l) = del_loop my_list my_list [] in (freed, l, l \<noteq> []))"

lemma del_loop_all: "del_loop es es freed = (freed @ map addr es, [])"
  by (induction es arbitrary: freed) simp_all

text \<open>The loop goes on from \<open>k\<close> to the first answer that is null, or to the end.\<close>

lemma build_loop_from:
  assumes "k + int n \<le> 5" "\<forall>i. k \<le> i \<and> i < k + int n \<longrightarrow> answer i \<noteq> None"
  shows "build_loop answer k l =
    build_loop answer (k + int n) (l @ map (\<lambda>i. \<lparr>addr = the (answer i), val = i\<rparr>) [k..k + int n - 1])"
  using assms
proof (induction n arbitrary: k l)
  case 0
  then show ?case by simp
next
  case (Suc n)
  have "answer k \<noteq> None" using Suc.prems(2) by simp
  then obtain p where p: "answer k = Some p" by blast
  have "[k..k + int (Suc n) - 1] = k # [k + 1..k + int (Suc n) - 1]"
    by (simp add: upto_rec1)
  moreover have "build_loop answer k l = build_loop answer (k + 1) (l @ [\<lparr>addr = p, val = k\<rparr>])"
    using Suc.prems(1) p by (simp add: build_loop.simps [of answer k])
  moreover have "build_loop answer (k + 1) (l @ [\<lparr>addr = p, val = k\<rparr>]) =
    build_loop answer (k + 1 + int n) ((l @ [\<lparr>addr = p, val = k\<rparr>]) @
      map (\<lambda>i. \<lparr>addr = the (answer i), val = i\<rparr>) [k + 1..k + 1 + int n - 1])"
    using Suc.prems by (intro Suc.IH) auto
  ultimately show ?case using p by (simp add: algebra_simps)
qed

text \<open>With memory, five entries in order, and unloading frees each of them once and empties the list.\<close>

lemma list_load_unload:
  assumes "\<forall>k. 0 \<le> k \<and> k < 5 \<longrightarrow> answer k \<noteq> None"
  shows "\<exists>l. list_init answer = (Returned 0, l, [0, 1, 2, 3, 4]) \<and>
    list_exit l = (map (\<lambda>k. the (answer k)) [0, 1, 2, 3, 4], [], False)"
proof -
  have u: "[0..4] = [0, 1, 2, 3, 4 :: int]" by (simp add: upto_rec1)
  let ?l = "map (\<lambda>i. \<lparr>addr = the (answer i), val = i\<rparr>) [0, 1, 2, 3, 4]"
  have "build_loop answer 0 [] = (Returned 0, ?l)"
    using build_loop_from [of 0 5 answer "[]"] assms by (simp add: u build_loop.simps [of answer 5])
  then have "list_init answer = (Returned 0, ?l, [0, 1, 2, 3, 4])" by (simp add: list_init_def)
  moreover have "list_exit ?l = (map (\<lambda>k. the (answer k)) [0, 1, 2, 3, 4], [], False)"
    unfolding list_exit_def del_loop_all by simp
  ultimately show ?thesis by blast
qed

text \<open>Without, the module ends on a null pointer, and the entries made so far stay.\<close>

lemma list_init_null:
  assumes "0 \<le> j" "j < 5" "answer j = None" "\<forall>k. 0 \<le> k \<and> k < j \<longrightarrow> answer k \<noteq> None"
  shows "list_init answer =
    (Oops, map (\<lambda>i. \<lparr>addr = the (answer i), val = i\<rparr>) [0..j - 1], [])"
proof -
  have "build_loop answer 0 [] = (Oops, map (\<lambda>i. \<lparr>addr = the (answer i), val = i\<rparr>) [0..j - 1])"
    using build_loop_from [of 0 "nat j" answer "[]"] assms
    by (simp add: build_loop.simps [of answer j])
  then show ?thesis by (simp add: list_init_def)
qed

end
