(* ===== verification/Lab_Locks.thy ===== *)
theory Lab_Locks
  imports Kernel
begin

section \<open>Modules that contend for a lock: lab04\<close>

text \<open>
  \<^verbatim>\<open>lab04/mutex\<close> and \<^verbatim>\<open>lab04/semaphore\<close>: a first module defines a mutex, or a semaphore of count one,
  and two more take it when they are loaded and give it back when they are unloaded. The lock is
  its count; taking it gives zero, or an error where a signal ends the wait, or waits (\<open>None\<close>).
\<close>

definition lock_interruptible :: "int \<Rightarrow> bool \<Rightarrow> int option \<times> int" where
  "lock_interruptible count signal =
     (if count > 0 then (Some 0, count - 1)
      else if signal then (Some (- EINTR), count)
      else (None, count))"

text \<open>The count that \<open>DEFINE_MUTEX\<close> and \<open>DEFINE_SEMAPHORE\<close> give.\<close>

definition defined_count :: int where
  "defined_count = 1"

definition mutex2_init :: "int \<Rightarrow> bool \<Rightarrow> int option \<times> int" where
  "mutex2_init count signal =
     (case lock_interruptible count signal of
        (None, count) \<Rightarrow> (None, count)
      | (Some r, count) \<Rightarrow> if r \<noteq> 0 then (Some (- 1), count) else (Some 0, count))"

definition mutex2_exit :: "int \<Rightarrow> int" where
  "mutex2_exit count = count + 1"

definition mutex3_init :: "int \<Rightarrow> bool \<Rightarrow> int option \<times> int" where
  "mutex3_init count signal =
     (case lock_interruptible count signal of
        (None, count) \<Rightarrow> (None, count)
      | (Some r, count) \<Rightarrow> if r \<noteq> 0 then (Some (- 1), count) else (Some 0, count))"

definition mutex3_exit :: "int \<Rightarrow> int" where
  "mutex3_exit count = count + 1"

definition semaphore2_init :: "int \<Rightarrow> bool \<Rightarrow> int option \<times> int" where
  "semaphore2_init count signal =
     (case lock_interruptible count signal of
        (None, count) \<Rightarrow> (None, count)
      | (Some r, count) \<Rightarrow> if r \<noteq> 0 then (Some (- ERESTARTSYS), count) else (Some 0, count))"

definition semaphore2_exit :: "int \<Rightarrow> int" where
  "semaphore2_exit count = count + 1"

definition semaphore3_init :: "int \<Rightarrow> bool \<Rightarrow> int option \<times> int" where
  "semaphore3_init count signal =
     (case lock_interruptible count signal of
        (None, count) \<Rightarrow> (None, count)
      | (Some r, count) \<Rightarrow> if r \<noteq> 0 then (Some (- ERESTARTSYS), count) else (Some 0, count))"

definition semaphore3_exit :: "int \<Rightarrow> int" where
  "semaphore3_exit count = count + 1"

subsection \<open>Loading and unloading in any order\<close>

datatype module_place = Out | Waiting | In

text \<open>
  \<open>Insmod\<close> is an attempt to load, or the attempt of a module that waits to go on; \<open>Rmmod\<close>
  unloads a module that is loaded. The modules are numbered; each has its own \<open>init\<close> and \<open>exit\<close>.
\<close>

datatype module_event = Insmod nat bool | Rmmod nat

fun module_step :: "(nat \<Rightarrow> int \<Rightarrow> bool \<Rightarrow> int option \<times> int) \<Rightarrow> (nat \<Rightarrow> int \<Rightarrow> int) \<Rightarrow>
    int \<times> module_place list \<Rightarrow> module_event \<Rightarrow> int \<times> module_place list" where
  "module_step init leave (count, mods) (Insmod i signal) =
     (if i < length mods \<and> mods ! i \<noteq> In
      then (case init i count signal of
              (None, count') \<Rightarrow> (count', mods[i := Waiting])
            | (Some r, count') \<Rightarrow> (count', mods[i := (if r = 0 then In else Out)]))
      else (count, mods))"
| "module_step init leave (count, mods) (Rmmod i) =
     (if i < length mods \<and> mods ! i = In then (leave i count, mods[i := Out]) else (count, mods))"

definition module_run :: "(nat \<Rightarrow> int \<Rightarrow> bool \<Rightarrow> int option \<times> int) \<Rightarrow> (nat \<Rightarrow> int \<Rightarrow> int) \<Rightarrow>
    module_event list \<Rightarrow> int \<times> module_place list \<Rightarrow> int \<times> module_place list" where
  "module_run init leave es s = foldl (module_step init leave) s es"

text \<open>The count of the lock and the modules that hold it add up.\<close>

definition places_ok :: "int \<times> module_place list \<Rightarrow> bool" where
  "places_ok s \<longleftrightarrow> 0 \<le> fst s \<and> fst s + int (count_list (snd s) In) = 1"

lemma count_list_update:
  "i < length xs \<Longrightarrow> int (count_list (xs[i := y]) x) =
    int (count_list xs x) - (if xs ! i = x then 1 else 0) + (if y = x then 1 else 0)"
proof (induction xs arbitrary: i)
  case Nil
  then show ?case by simp
next
  case (Cons a xs)
  show ?case
  proof (cases i)
    case 0
    then show ?thesis by simp
  next
    case (Suc j)
    then have "int (count_list (xs[j := y]) x) =
        int (count_list xs x) - (if xs ! j = x then 1 else 0) + (if y = x then 1 else 0)"
      using Cons.prems by (intro Cons.IH) simp
    then show ?thesis using Suc by (auto split: if_splits)
  qed
qed

text \<open>The contract of the \<open>init\<close> and \<open>exit\<close> functions, and what follows from it.\<close>

locale contention =
  fixes init :: "nat \<Rightarrow> int \<Rightarrow> bool \<Rightarrow> int option \<times> int"
    and leave :: "nat \<Rightarrow> int \<Rightarrow> int"
  assumes init_free: "0 < count \<Longrightarrow> init i count signal = (Some 0, count - 1)"
    and init_held: "count \<le> 0 \<Longrightarrow> snd (init i count signal) = count \<and> fst (init i count signal) \<noteq> Some 0"
    and leave_count: "leave i count = count + 1"
begin

lemma step_ok:
  assumes "places_ok (count, mods)"
  shows "places_ok (module_step init leave (count, mods) e)"
proof (cases e)
  case (Rmmod i)
  then show ?thesis using assms by (simp add: places_ok_def leave_count count_list_update)
next
  case (Insmod i signal)
  show ?thesis
  proof (cases "i < length mods \<and> mods ! i \<noteq> In")
    case False
    then show ?thesis using Insmod assms by auto
  next
    case True
    show ?thesis
    proof (cases "0 < count")
      case True
      then show ?thesis
        using Insmod \<open>i < length mods \<and> mods ! i \<noteq> In\<close> assms by (simp add: places_ok_def init_free count_list_update)
    next
      case False
      then show ?thesis
        using Insmod True assms init_held [of count i signal]
        by (auto simp: places_ok_def count_list_update split: option.split prod.split)
    qed
  qed
qed

lemma run_ok: "places_ok s \<Longrightarrow> places_ok (module_run init leave es s)"
proof (induction es arbitrary: s)
  case Nil
  then show ?case by (simp add: module_run_def)
next
  case (Cons e es)
  then have "places_ok (module_step init leave s e)" using step_ok [of "fst s" "snd s" e] by simp
  from Cons.IH [OF this] show ?case by (simp add: module_run_def)
qed

lemma one_holder:
  assumes "module_run init leave es (1, replicate n Out) = (count, mods)"
  shows "count + int (count_list mods In) = 1 \<and> 0 \<le> count"
proof -
  have "count_list (replicate n Out) In = 0" by (induction n) simp_all
  then have "places_ok (1, replicate n Out)" by (simp add: places_ok_def)
  from run_ok [OF this, of es] show ?thesis using assms by (simp add: places_ok_def)
qed

text \<open>When the holder is unloaded, a module that waits goes in with its next attempt.\<close>

lemma next_goes_in:
  assumes "places_ok (count, mods)" "i < length mods" "mods ! i = In" "j < length mods" "mods ! j = Waiting"
  shows "module_run init leave [Rmmod i, Insmod j signal] (count, mods) = (count, mods[i := Out, j := In])"
proof -
  have "i \<noteq> j" using assms by auto
  then show ?thesis using assms by (simp add: module_run_def places_ok_def leave_count init_free)
qed

end

subsection \<open>The modules of the lab\<close>

text \<open>The second and the third module, as numbers 0 and 1.\<close>

definition mutex_init :: "nat \<Rightarrow> int \<Rightarrow> bool \<Rightarrow> int option \<times> int" where
  "mutex_init i = (if i = 0 then mutex2_init else mutex3_init)"

definition mutex_leave :: "nat \<Rightarrow> int \<Rightarrow> int" where
  "mutex_leave i = (if i = 0 then mutex2_exit else mutex3_exit)"

definition semaphore_init :: "nat \<Rightarrow> int \<Rightarrow> bool \<Rightarrow> int option \<times> int" where
  "semaphore_init i = (if i = 0 then semaphore2_init else semaphore3_init)"

definition semaphore_leave :: "nat \<Rightarrow> int \<Rightarrow> int" where
  "semaphore_leave i = (if i = 0 then semaphore2_exit else semaphore3_exit)"

interpretation mutexes: contention mutex_init mutex_leave
  by unfold_locales
    (auto simp: mutex_init_def mutex_leave_def mutex2_init_def mutex3_init_def mutex2_exit_def mutex3_exit_def
      lock_interruptible_def)

interpretation semaphores: contention semaphore_init semaphore_leave
  by unfold_locales
    (auto simp: semaphore_init_def semaphore_leave_def semaphore2_init_def semaphore3_init_def
      semaphore2_exit_def semaphore3_exit_def lock_interruptible_def)

text \<open>
  C22: in whatever order the modules of the mutex lab, or those of the semaphore lab, are loaded,
  unloaded and interrupted, at most one of them is loaded at a time, and the lock is free
  exactly when none is.
\<close>

theorem one_module_loaded:
  assumes "module_run mutex_init mutex_leave es (defined_count, [Out, Out]) = (count, mods)"
    and "module_run semaphore_init semaphore_leave es' (defined_count, [Out, Out]) = (count', mods')"
  shows "count_list mods In \<le> 1 \<and> (count = 1 \<longleftrightarrow> In \<notin> set mods) \<and>
    count_list mods' In \<le> 1 \<and> (count' = 1 \<longleftrightarrow> In \<notin> set mods')"
proof -
  have two: "[Out, Out] = replicate 2 Out" by (simp add: numeral_2_eq_2)
  have "count + int (count_list mods In) = 1 \<and> 0 \<le> count"
    using mutexes.one_holder [of es 2] assms(1) unfolding two defined_count_def by blast
  moreover have "count' + int (count_list mods' In) = 1 \<and> 0 \<le> count'"
    using semaphores.one_holder [of es' 2] assms(2) unfolding two defined_count_def by blast
  ultimately show ?thesis using count_list_0_iff [of mods In] count_list_0_iff [of mods' In] by linarith
qed

theorem one_module_loaded_witness:
  "\<exists>count mods. module_run mutex_init mutex_leave [Insmod 0 False, Insmod 1 False, Rmmod 0, Insmod 1 False]
      (defined_count, [Out, Out]) = (count, mods) \<and> count_list mods In \<le> 1"
proof -
  obtain count mods where "module_run mutex_init mutex_leave
      [Insmod 0 False, Insmod 1 False, Rmmod 0, Insmod 1 False] (defined_count, [Out, Out]) = (count, mods)" by fastforce
  moreover obtain count' mods' where "module_run semaphore_init semaphore_leave [] (defined_count, [Out, Out]) =
      (count', mods')" by fastforce
  ultimately show ?thesis using one_module_loaded by blast
qed

subsection \<open>The modules that define the locks\<close>

text \<open>
  The first module of each lab holds the lock as a static variable and only prints, when it is
  loaded and when it is unloaded. The printed line is part of the result.
\<close>

definition mutex1_init :: "int \<Rightarrow> int \<times> string" where
  "mutex1_init count =
     (0, CHR 0x0A # ''Init mutex in unlocked state, count='' @ show_int count @ '':'' @ [CHR 0x0A])"

definition mutex1_exit :: "int \<Rightarrow> string" where
  "mutex1_exit count = CHR 0x0A # ''Exiting with  mutex having count='' @ show_int count @ '':'' @ [CHR 0x0A]"

definition semaphore1_init :: "string \<Rightarrow> int \<times> string" where
  "semaphore1_init modname = (0, CHR 0x0A # ''Init semaphore '' @ modname @ [CHR 0x0A])"

definition semaphore1_exit :: "string \<Rightarrow> string" where
  "semaphore1_exit modname = CHR 0x0A # ''Exiting semaphore '' @ modname @ [CHR 0x0A]"

text \<open>
  The kernel unloads the first module only while no other module uses its symbol. Then the
  line at the end shows the count of the line at the beginning, whatever the other modules did.
\<close>

lemma mutex1_logs:
  assumes "module_run mutex_init mutex_leave es (defined_count, [Out, Out]) = (count, [Out, Out])"
  shows "mutex1_init defined_count = (0, CHR 0x0A # ''Init mutex in unlocked state, count=1:'' @ [CHR 0x0A]) \<and>
    mutex1_exit count = CHR 0x0A # ''Exiting with  mutex having count=1:'' @ [CHR 0x0A]"
proof -
  have "[Out, Out] = replicate 2 Out" by (simp add: numeral_2_eq_2)
  then have "count = 1" using mutexes.one_holder [of es 2] assms by (simp add: defined_count_def)
  moreover have "show_int 1 = ''1''"
    by code_simp
  ultimately show ?thesis by (simp add: mutex1_init_def mutex1_exit_def defined_count_def)
qed

end
