(* ===== verification/Lab_Taints.thy ===== *)
theory Lab_Taints
  imports Kernel "HOL-Library.Multiset"
begin

section \<open>A module that prints the module list: lab03\<close>

text \<open>
  \<^verbatim>\<open>lab03/taints/taints.c\<close>: loading prints a line for the module itself and then walks the kernel's
  circular list of modules from it. The list has a node that is in no module: the kernel's
  variable \<open>modules\<close>. \<open>list_for_each_entry\<close> takes every node but the one it starts from for a node
  inside a module.
\<close>

record module_info =
  name_of :: string
  taints_of :: int

datatype list_node = In_module module_info | Modules_head

text \<open>\<open>list_entry\<close>: what memory around the variable \<open>modules\<close> looks like as a module is an argument.\<close>

fun list_entry :: "module_info \<Rightarrow> list_node \<Rightarrow> module_info" where
  "list_entry around (In_module m) = m"
| "list_entry around Modules_head = around"

text \<open>
  The walk over the nodes that follow, up to the start; a line is a number, a name and the taints,
  and the number is \<open>j++\<close>.
\<close>

fun taints_loop :: "module_info \<Rightarrow> list_node list \<Rightarrow> int \<Rightarrow> (int \<times> string \<times> int) list" where
  "taints_loop around [] j = []"
| "taints_loop around (n # nodes) j =
     (let m = list_entry around n in (j, name_of m, taints_of m) # taints_loop around nodes (s32 (j + 1)))"

text \<open>\<open>following\<close>: the nodes after the module's own, around the circle.\<close>

definition taints_init :: "module_info \<Rightarrow> module_info \<Rightarrow> list_node list \<Rightarrow> int \<times> (int \<times> string \<times> int) list" where
  "taints_init around this_module following =
     (0, (0, name_of this_module, taints_of this_module) # taints_loop around following 1)"

lemma taints_loop_lines:
  assumes "0 \<le> j" "j + int (length nodes) < 2147483648"
  shows "taints_loop around nodes j =
    zip [j..j + int (length nodes) - 1] (map (\<lambda>n. (name_of (list_entry around n), taints_of (list_entry around n))) nodes)"
  using assms
proof (induction nodes arbitrary: j)
  case Nil
  then show ?case by simp
next
  case (Cons n nodes)
  have "[j..j + int (length (n # nodes)) - 1] = j # [j + 1..j + 1 + int (length nodes) - 1]"
    by (simp add: upto_rec1)
  moreover have "s32 (j + 1) = j + 1" using Cons.prems by simp
  ultimately show ?case using Cons.IH [of "j + 1"] Cons.prems by (simp add: Let_def)
qed

text \<open>
  Every module of the list is printed once, and one line more is printed than there are modules:
  that of the list's head, with whatever the memory around it holds. The lines are numbered from zero.
\<close>

lemma taints_prints_head:
  assumes "mset (In_module this_module # following) = add_mset Modules_head (mset (map In_module loaded))"
    and "length loaded < 2147483647"
    and "taints_init around this_module following = (r, ls)"
  shows "r = 0 \<and> map fst ls = [0..int (length loaded)] \<and>
    mset (map snd ls) = add_mset (name_of around, taints_of around) (mset (map (\<lambda>m. (name_of m, taints_of m)) loaded))"
proof -
  let ?row = "\<lambda>n. (name_of (list_entry around n), taints_of (list_entry around n))"
  let ?nodes = "In_module this_module # following"
  have len: "length ?nodes = length loaded + 1"
    using arg_cong [OF assms(1), of size] by simp
  have "r = 0" using assms(3) by (simp add: taints_init_def)
  have "ls = (0, ?row (In_module this_module)) # taints_loop around following 1"
    using assms(3) by (simp add: taints_init_def)
  also have "taints_loop around following 1 = zip [1..int (length following)] (map ?row following)"
    using taints_loop_lines [of 1 following around] len assms(2) by simp
  also have "(0, ?row (In_module this_module)) # zip [1..int (length following)] (map ?row following) =
      zip [0..int (length following)] (map ?row ?nodes)"
    by (simp add: upto_rec1 [of 0])
  finally have ls: "ls = zip [0..int (length loaded)] (map ?row ?nodes)" using len by simp
  have "map fst ls = [0..int (length loaded)]" unfolding ls using len by simp
  have "mset (map snd ls) = mset (map ?row ?nodes)" unfolding ls using len by simp
  also have "\<dots> = image_mset ?row (mset ?nodes)" by (simp only: mset_map)
  also have "\<dots> = add_mset (?row Modules_head) (mset (map (\<lambda>m. (name_of m, taints_of m)) loaded))"
    unfolding assms(1) by (simp add: image_mset.compositionality comp_def flip: mset_map)
  finally have "mset (map snd ls) = add_mset (name_of around, taints_of around)
      (mset (map (\<lambda>m. (name_of m, taints_of m)) loaded))" by simp
  with \<open>r = 0\<close> \<open>map fst ls = [0..int (length loaded)]\<close> show ?thesis by blast
qed

end
