(* ===== verification/My_Cat.thy ===== *)
theory My_Cat
  imports Kernel
begin

section \<open>A cat program: lab01\<close>

text \<open>
  \<^verbatim>\<open>lab01/my_cat.c\<close>: the program after it has opened its file. The operating system's answers to
  the calls of \<open>read\<close> and \<open>write\<close> are given in advance, as two lists; where a list ends the program
  has not ended yet (\<open>None\<close>). The result is what was written to standard output and the exit
  status.
\<close>

datatype read_answer = Bytes "byte list" | ReadError int
datatype write_answer = Wrote int | WriteError int

abbreviation (input) BUFFER_SIZE :: int where "BUFFER_SIZE \<equiv> 100"

definition size_read :: "read_answer \<Rightarrow> int" where
  "size_read r = (case r of Bytes bs \<Rightarrow> int (length bs) | ReadError e \<Rightarrow> - 1)"

definition size_write :: "write_answer \<Rightarrow> int" where
  "size_write w = (case w of Wrote n \<Rightarrow> n | WriteError e \<Rightarrow> - 1)"

text \<open>
  How the inner loop ends: with the buffer done, with what was written and the answers that are
  left, or with an exit of the program. \<open>out\<close> is what a call that wrote \<open>n\<close> bytes put out.
\<close>

datatype write_end = Done "byte list" "write_answer list" | Exit "byte list" int

definition emitted :: "write_answer \<Rightarrow> byte list \<Rightarrow> int \<Rightarrow> int \<Rightarrow> byte list" where
  "emitted w buffer size_written size_remaining =
     (case w of
        Wrote n \<Rightarrow> take (nat n) (take (nat size_remaining) (drop (nat size_written) buffer))
      | WriteError e \<Rightarrow> [])"

text \<open>
  The comparison is of an \<open>int\<close> with a \<open>size_t\<close>, so of \<open>u32 (size_write w)\<close>.
\<close>

fun write_loop :: "byte list \<Rightarrow> int \<Rightarrow> int \<Rightarrow> write_answer list \<Rightarrow> write_end option" where
  "write_loop buffer size_written size_remaining [] = None"
| "write_loop buffer size_written size_remaining (w # ws) =
     (let out = emitted w buffer size_written size_remaining
      in if u32 (size_write w) < size_remaining then
           (if size_write w < 0 then
              (case w of
                 WriteError e \<Rightarrow>
                   if e = EINTR then write_loop buffer size_written size_remaining ws else Some (Exit out 1)
               | Wrote n \<Rightarrow> Some (Exit out 1))
            else
              (case write_loop buffer (u32 (size_written + size_write w)) (u32 (size_remaining - size_write w)) ws of
                 None \<Rightarrow> None
               | Some (Done later rest) \<Rightarrow> Some (Done (out @ later) rest)
               | Some (Exit later status) \<Rightarrow> Some (Exit (out @ later) status)))
         else Some (Done out ws))"

text \<open>The outer loop, with its \<open>goto restart\<close>.\<close>

fun read_loop :: "read_answer list \<Rightarrow> write_answer list \<Rightarrow> (byte list \<times> int) option" where
  "read_loop [] ws = None"
| "read_loop (r # rs) ws =
     (if size_read r > 0 then
        (case r of
           Bytes buffer \<Rightarrow>
             (case write_loop buffer 0 (size_read r) ws of
                None \<Rightarrow> None
              | Some (Exit out status) \<Rightarrow> Some (out, status)
              | Some (Done out ws') \<Rightarrow> map_option (\<lambda>(later, status). (out @ later, status)) (read_loop rs ws'))
         | ReadError e \<Rightarrow> None)
      else if size_read r < 0 then
        (case r of
           ReadError e \<Rightarrow> if e = EINTR then read_loop rs ws else Some ([], 1)
         | Bytes _ \<Rightarrow> None)
      else Some ([], 0))"

text \<open>\<open>main\<close>: the number of arguments and the result of \<open>open\<close> come first.\<close>

definition my_cat :: "int \<Rightarrow> int \<Rightarrow> read_answer list \<Rightarrow> write_answer list \<Rightarrow> (byte list \<times> int) option" where
  "my_cat argc fd rs ws =
     (if argc < 2 then Some ([], 1)
      else if fd < 0 then Some ([], 1)
      else read_loop rs ws)"

subsection \<open>What it copies\<close>

text \<open>Answers to the writes of \<open>n\<close> bytes that make progress until all are written.\<close>

inductive writes_all :: "nat \<Rightarrow> write_answer list \<Rightarrow> bool" where
  last: "writes_all n [Wrote (int n)]"
| part: "m < n \<Longrightarrow> writes_all (n - m) ws \<Longrightarrow> writes_all n (Wrote (int m) # ws)"

lemma write_loop_all:
  assumes "writes_all n ws" "off + n = length buffer" "length buffer \<le> 100"
  shows "write_loop buffer (int off) (int n) (ws @ rest) = Some (Done (drop off buffer) rest)"
  using assms
proof (induction arbitrary: off rule: writes_all.induct)
  case (last n)
  then show ?case by (simp add: emitted_def size_write_def)
next
  case (part m n ws)
  have "write_loop buffer (int (off + m)) (int (n - m)) (ws @ rest) = Some (Done (drop (off + m) buffer) rest)"
    using part by (intro part.IH) simp_all
  moreover have "u32 (int off + int m) = int (off + m)" "u32 (int n - int m) = int (n - m)" "u32 (int m) = int m"
    using part by (simp_all add: of_nat_diff)
  moreover have "take m (drop off buffer) @ drop (off + m) buffer = drop off buffer"
    by (metis add.commute append_take_drop_id drop_drop)
  moreover have "take m (take n (drop off buffer)) = take m (drop off buffer)"
    using part.hyps(1) by (simp add: min_absorb1)
  ultimately show ?case
    using part.hyps(1) by (simp add: emitted_def size_write_def)
qed

text \<open>The answers to the reads that deliver \<open>chunks\<close>, with interruptions in between, and then the end.\<close>

inductive reads_all :: "byte list list \<Rightarrow> read_answer list \<Rightarrow> bool" where
  "reads_all [] [Bytes []]"
| "reads_all cs rs \<Longrightarrow> reads_all cs (ReadError EINTR # rs)"
| "c \<noteq> [] \<Longrightarrow> length c \<le> 100 \<Longrightarrow> reads_all cs rs \<Longrightarrow> reads_all (c # cs) (Bytes c # rs)"

text \<open>
  C23: the program copies its file: whatever the sizes of the pieces that \<open>read\<close> delivers and
  \<open>write\<close> takes, and whatever reads are interrupted, the output is the file and the status is
  zero.
\<close>

theorem my_cat_copies:
  assumes "reads_all cs rs" "2 \<le> argc" "0 \<le> fd"
    and "list_all2 (\<lambda>c ws. writes_all (length c) ws) cs wss"
  shows "my_cat argc fd rs (concat wss) = Some (concat cs, 0)"
proof -
  have "read_loop rs (concat wss) = Some (concat cs, 0)"
    using assms(1,4)
  proof (induction arbitrary: wss rule: reads_all.induct)
    case 1
    then show ?case by (simp add: size_read_def)
  next
    case (2 cs rs)
    then show ?case by (simp add: size_read_def)
  next
    case (3 c cs rs)
    then obtain ws wss' where w: "wss = ws # wss'" "writes_all (length c) ws"
      "list_all2 (\<lambda>c ws. writes_all (length c) ws) cs wss'" by (auto simp: list_all2_Cons1)
    have "write_loop c 0 (int (length c)) (ws @ concat wss') = Some (Done c (concat wss'))"
      using write_loop_all [OF w(2), of 0 c "concat wss'"] 3(2) by simp
    then show ?case using 3 w by (simp add: size_read_def)
  qed
  then show ?thesis using assms(2,3) by (simp add: my_cat_def)
qed

theorem my_cat_copies_witness:
  "my_cat 2 3 [Bytes [1, 2, 3], ReadError EINTR, Bytes []] [Wrote 1, Wrote 2] = Some ([1, 2, 3], 0)"
proof -
  have r: "reads_all [[1, 2, 3]] [Bytes [1, 2, 3], ReadError EINTR, Bytes []]"
    by (intro reads_all.intros) simp_all
  have "writes_all (length [1, 2, 3 :: byte]) [Wrote (int 1), Wrote (int 2)]"
    using writes_all.part [of 1 3 "[Wrote (int 2)]"] writes_all.last [of 2] by (simp add: numeral_3_eq_3 numeral_2_eq_2)
  then show ?thesis using my_cat_copies [OF r, of 2 3 "[[Wrote (int 1), Wrote (int 2)]]"] by simp
qed

text \<open>
  An error of \<open>write\<close> is never seen: minus one compares as the largest \<open>size_t\<close>, so the loop
  takes the buffer for written. The program goes on, loses the bytes, and may end with status zero.
\<close>

lemma my_cat_ignores_write_errors:
  assumes "0 < length buffer" "length buffer \<le> 100" "2 \<le> argc" "0 \<le> fd"
  shows "write_loop buffer 0 (int (length buffer)) (WriteError e # ws) = Some (Done [] ws) \<and>
    my_cat argc fd (Bytes buffer # rs) (WriteError e # ws) = read_loop rs ws \<and>
    my_cat argc fd [Bytes buffer, Bytes []] [WriteError e] = Some ([], 0)"
proof -
  have "u32 (- 1) = 4294967295" by (simp add: u32_neg)
  then have w: "write_loop buffer 0 (int (length buffer)) (WriteError e # ws) = Some (Done [] ws)" for ws
    using assms(2) by (simp add: size_write_def emitted_def)
  then show ?thesis
    using assms by (simp add: my_cat_def size_read_def option.map_ident split: option.split prod.split)
      (auto simp: map_option_case split: option.split)
qed

end
