(* ===== verification/Programs.thy ===== *)
theory Programs
  imports Kernel
begin

section \<open>User programs\<close>

text \<open>
  How the test programs of the repository are modelled: a program is a function of the state
  of the system that it runs on. A system call fails with an error number, gives its result, or
  does not return because the driver touched memory that was not its own. A program, or a
  function of it, returns, exits with a status, is killed by a signal, or strays outside the
  objects of its own memory, after which nothing is known of it; a loop that does not end
  is \<open>None\<close>.
\<close>

datatype 'a syscall = Fails int | Gives 'a | Oopses

datatype 'a ended = Returns 'a | Exits int | Killed | Strays

text \<open>The rest of a program runs where a function has returned.\<close>

fun andthen :: "('a ended \<times> 's) option \<Rightarrow> ('a \<Rightarrow> 's \<Rightarrow> ('b ended \<times> 's) option) \<Rightarrow> ('b ended \<times> 's) option" where
  "andthen (Some (Returns x, s)) f = f x s"
| "andthen (Some (Exits c, s)) f = Some (Exits c, s)"
| "andthen (Some (Killed, s)) f = Some (Killed, s)"
| "andthen (Some (Strays, s)) f = Some (Strays, s)"
| "andthen None f = None"

text \<open>
  The calls that a program makes on one device node. Where \<open>open\<close> fails the programs go on with
  its result as a descriptor, on which every call fails. A result is kept in an \<open>int\<close>.
\<close>

record 's calls =
  do_open :: "'s \<Rightarrow> int syscall \<times> 's"
  do_lseek :: "'s \<Rightarrow> int \<Rightarrow> int syscall \<times> 's"
  do_write :: "'s \<Rightarrow> byte list \<Rightarrow> int \<Rightarrow> int syscall \<times> 's"
  do_read :: "'s \<Rightarrow> int \<Rightarrow> byte list syscall \<times> 's"
  do_close :: "'s \<Rightarrow> int syscall \<times> 's"

abbreviation (input) EBADF :: int where "EBADF \<equiv> 9"

definition on_fd :: "int \<Rightarrow> 's \<Rightarrow> 'a syscall \<times> 's \<Rightarrow> 'a syscall \<times> 's" where
  "on_fd fd s r = (if fd < 0 then (Fails EBADF, s) else r)"

fun result_code :: "int syscall \<times> 's \<Rightarrow> (int ended \<times> 's) option" where
  "result_code (Fails e, s) = Some (Returns (- 1), s)"
| "result_code (Gives n, s) = Some (Returns (s32 n), s)"
| "result_code (Oopses, s) = Some (Killed, s)"

text \<open>
  The answer of a driver as that of the system call: negative numbers are errors.
\<close>

definition answer_of :: "int \<Rightarrow> 'a \<Rightarrow> 'a syscall" where
  "answer_of r a = (if r < 0 then Fails (- r) else Gives a)"

lemma answer_of [simp]: "0 \<le> r \<Longrightarrow> answer_of r x = Gives x" "r < 0 \<Longrightarrow> answer_of r x = Fails (- r)"
  by (simp_all add: answer_of_def)

text \<open>
  \<open>atoi\<close>: space, a sign, digits; what follows is ignored, and a number that is out of range is
  replaced by the nearest \<open>int\<close>.
\<close>

definition atoi :: "string \<Rightarrow> int" where
  "atoi s =
     (let s = dropWhile is_space s;
          neg = (s \<noteq> [] \<and> hd s = CHR ''-'');
          s = (if s \<noteq> [] \<and> (hd s = CHR ''-'' \<or> hd s = CHR ''+'') then tl s else s);
          n = int (digits_val (takeWhile is_digit s))
      in if neg then max (- 2147483648) (- n) else min 2147483647 n)"

lemma atoi_examples: "atoi '' -20x'' = -20" "atoi ''4096'' = 4096" "atoi ''x'' = 0" "atoi ''9999999999'' = 2147483647"
  by (simp_all add: atoi_def is_space_def digits_val_def digit_val_def is_digit_def)

end
