(* ===== verification/Mmap_Test.thy ===== *)
theory Mmap_Test
  imports Programs Asgn1_Properties
begin

section \<open>The mapping test of assignment 1, run on the driver\<close>

text \<open>
  \<^verbatim>\<open>asgn1/mmap_test.c\<close>: the program fills the first 64 kilobytes of the device with random bytes,
  maps them, compares what it reads with what it sees through the mapping, changes a byte through
  the mapping, compares again, and sets the limit of users. It is modelled as it is written,
  with the driver of \<^verbatim>\<open>asgn1.c\<close> behind its system calls; the values of \<open>random\<close>, the results of
  \<open>malloc\<close> and the address that \<open>mmap\<close> chooses are arguments.
\<close>

subsection \<open>Reading and writing in full\<close>

text \<open>
  \<open>my_fread\<close> goes on after a partial read and after an interrupt. Its loop returns what has been
  read and what is left to read.
\<close>

partial_function (option) my_fread_loop ::
  "('s \<Rightarrow> int \<Rightarrow> byte list syscall \<times> 's) \<Rightarrow> 's \<Rightarrow> int \<Rightarrow> byte list \<Rightarrow> ((byte list \<times> int) ended \<times> 's) option" where
  "my_fread_loop rd s to_read_size buf =
     (if to_read_size > 0 then
        (case rd s to_read_size of
           (Fails e, t) \<Rightarrow>
             if e = EINTR then my_fread_loop rd t to_read_size buf else Some (Exits 1, t)
         | (Gives bs, t) \<Rightarrow>
             if bs = [] then Some (Returns (buf, to_read_size), t)
             else my_fread_loop rd t (s32 (to_read_size - int (length bs))) (buf @ bs)
         | (Oopses, t) \<Rightarrow> Some (Killed, t))
      else Some (Returns (buf, to_read_size), s))"

definition my_fread :: "('s \<Rightarrow> int \<Rightarrow> byte list syscall \<times> 's) \<Rightarrow> 's \<Rightarrow> int \<Rightarrow> ((byte list \<times> int) ended \<times> 's) option" where
  "my_fread rd s nbyte =
     andthen (my_fread_loop rd s (s32 nbyte) [])
       (\<lambda>(buf, to_read_size) s. Some (Returns (buf, s32 (u32 (nbyte - to_read_size))), s))"

text \<open>\<open>my_fwrite\<close> does the same for writes; a write of no bytes it tries again.\<close>

partial_function (option) my_fwrite_loop ::
  "('s \<Rightarrow> byte list \<Rightarrow> int \<Rightarrow> int syscall \<times> 's) \<Rightarrow> 's \<Rightarrow> byte list \<Rightarrow> int \<Rightarrow> (unit ended \<times> 's) option" where
  "my_fwrite_loop wr s buf to_write_size =
     (if to_write_size > 0 then
        (case wr s buf to_write_size of
           (Fails e, t) \<Rightarrow>
             if e = EINTR then my_fwrite_loop wr t buf to_write_size else Some (Exits 1, t)
         | (Gives n, t) \<Rightarrow> my_fwrite_loop wr t (drop (nat n) buf) (s32 (to_write_size - n))
         | (Oopses, t) \<Rightarrow> Some (Killed, t))
      else Some (Returns (), s))"

definition my_fwrite :: "('s \<Rightarrow> byte list \<Rightarrow> int \<Rightarrow> int syscall \<times> 's) \<Rightarrow> 's \<Rightarrow> byte list \<Rightarrow> int \<Rightarrow> (int ended \<times> 's) option" where
  "my_fwrite wr s buf nbyte =
     andthen (my_fwrite_loop wr s buf (s32 nbyte)) (\<lambda>_ s. Some (Returns (s32 nbyte), s))"

text \<open>
  The memory seen through the mapping is given as an argument; the program exits where the read
  falls short or the bytes differ.
\<close>

definition read_and_compare :: "('s \<Rightarrow> int \<Rightarrow> byte list syscall \<times> 's) \<Rightarrow> ('s \<Rightarrow> byte list option) \<Rightarrow> 's \<Rightarrow> int \<Rightarrow>
    (unit ended \<times> 's) option" where
  "read_and_compare rd mmap_buf s len =
     andthen (my_fread rd s len)
       (\<lambda>(read_buf, n) s.
          if u32 n \<noteq> len then Some (Exits 1, s)
          else (case mmap_buf s of
                  None \<Rightarrow> Some (Killed, s)
                | Some m \<Rightarrow> if take (nat len) read_buf \<noteq> take (nat len) m then Some (Exits 1, s)
                            else Some (Returns (), s)))"

subsection \<open>The system calls of the driver\<close>

definition sys_read :: "nat \<Rightarrow> uaccess \<Rightarrow> asgn1_sys \<Rightarrow> int \<Rightarrow> byte list syscall \<times> asgn1_sys" where
  "sys_read fd ua s count =
     (case asgn1_read ua (dev_of s) count (pos_of s fd) of
        None \<Rightarrow> (Oopses, s)
      | Some (r, out, pos) \<Rightarrow> (answer_of r (take (nat r) out), set_pos fd pos s))"

definition sys_result :: "asgn1_sys \<Rightarrow> (int \<times> asgn1_sys) option \<Rightarrow> int syscall \<times> asgn1_sys" where
  "sys_result s r =
     (case r of
        None \<Rightarrow> (Oopses, s)
      | Some (r, t) \<Rightarrow> (answer_of r r, t))"

definition sys_write :: "nat \<Rightarrow> uaccess \<Rightarrow> asgn1_sys \<Rightarrow> byte list \<Rightarrow> int \<Rightarrow> int syscall \<times> asgn1_sys" where
  "sys_write fd ua s buf count = sys_result s (asgn1_call s (Write fd ua buf count))"

definition sys_lseek :: "nat \<Rightarrow> asgn1_sys \<Rightarrow> int \<Rightarrow> int syscall \<times> asgn1_sys" where
  "sys_lseek fd s off = sys_result s (asgn1_call s (Lseek fd off SEEK_SET))"

text \<open>The bytes of a mapping from its start.\<close>

definition mapped_region :: "(int \<times> nat) list \<Rightarrow> int \<Rightarrow> nat \<Rightarrow> asgn1_sys \<Rightarrow> byte list option" where
  "mapped_region maps start n s =
     those (map (\<lambda>i. mapped_byte maps (mem_list (dev_of s)) (start + int i)) [0..<n])"

subsection \<open>The program\<close>

text \<open>
  \<open>SIZE\<close> stands for the text \<open>1024 * 64\<close>, without parentheses: \<open>random () % SIZE\<close> is
  \<open>(random () % 1024) * 64\<close>.
\<close>

abbreviation (input) TEST_SIZE :: int where "TEST_SIZE \<equiv> 1024 * 64"
abbreviation (input) ASGN1_SET_NPROC :: "32 word" where "ASGN1_SET_NPROC \<equiv> 0x40046B01"

record mmap_env =
  randoms :: "nat \<Rightarrow> int"
  malloc_buf :: bool
  malloc_read_buf :: bool
  map_at :: int

text \<open>The bytes that the program writes, and the place and the value of its change.\<close>

definition random_buf :: "mmap_env \<Rightarrow> byte list" where
  "random_buf e = map (\<lambda>i. word_of_int (randoms e i mod 256)) [0..<nat TEST_SIZE]"

definition change_at :: "mmap_env \<Rightarrow> int" where
  "change_at e = randoms e (nat TEST_SIZE) mod 1024 * 64"

definition change_to :: "mmap_env \<Rightarrow> byte" where
  "change_to e = word_of_int (randoms e (Suc (nat TEST_SIZE)) mod change_at e)"

text \<open>From the mapping on: two comparisons with a change in between, and the limit of users.\<close>

definition mmap_test_mapped :: "mmap_env \<Rightarrow> nat \<Rightarrow> uaccess \<Rightarrow> (int \<times> nat) list \<Rightarrow> asgn1_sys \<Rightarrow> (int ended \<times> asgn1_sys) option" where
  "mmap_test_mapped e fd ua maps s =
     (let mmap_buf = mapped_region maps (map_at e) (nat TEST_SIZE); s = snd (sys_lseek fd s 0)
      in andthen (read_and_compare (sys_read fd ua) mmap_buf s TEST_SIZE)
        (\<lambda>_ s.
          let j = change_at e
          in if j = 0 then Some (Killed, s)
             else (case mapped_store maps (mem_list (dev_of s)) (map_at e + j) (change_to e) of
                None \<Rightarrow> Some (Killed, s)
              | Some ns \<Rightarrow>
                  (let s = snd (sys_lseek fd (s\<lparr>dev_of := (dev_of s)\<lparr>mem_list := ns\<rparr>\<rparr>) 0)
                   in andthen (read_and_compare (sys_read fd ua) mmap_buf s TEST_SIZE)
                     (\<lambda>_ s.
                        let s = snd (sys_lseek fd s 0)
                        in (case sys_result s (asgn1_call s (Ioctl fd ASGN1_SET_NPROC True (Some 12345))) of
                              (Gives r, s) \<Rightarrow> Some (Returns 0, s)
                            | (Fails err, s) \<Rightarrow> Some (Exits 1, s)
                            | (Oopses, s) \<Rightarrow> Some (Killed, s)))))))"

definition mmap_test :: "mmap_env \<Rightarrow> nat \<Rightarrow> uaccess \<Rightarrow> asgn1_sys \<Rightarrow> (int ended \<times> asgn1_sys) option" where
  "mmap_test e fd ua s =
     (case sys_result s (asgn1_call s (Open fd O_RDWR)) of
        (Oopses, s) \<Rightarrow> Some (Killed, s)
      | (Fails err, s) \<Rightarrow> Some (Exits 1, s)
      | (Gives _, s) \<Rightarrow>
          if \<not> malloc_buf e then Some (Killed, s)
          else andthen (my_fwrite (sys_write fd ua) s (random_buf e) TEST_SIZE)
            (\<lambda>n s.
              if n \<noteq> TEST_SIZE then Some (Exits 1, s)
              else if \<not> malloc_read_buf e then Some (Killed, s)
              else (let (r, maps) = asgn1_mmap (dev_of s) (whole_vma (map_at e) 16)
                    in if r < 0 then Some (Exits 1, s)
                       else mmap_test_mapped e fd ua maps s)))"

subsection \<open>A run\<close>

lemma pos_of_set_pos [simp]: "files s fd \<noteq> None \<Longrightarrow> pos_of (set_pos fd p s) fd = p"
  by (auto simp: pos_of_def set_pos_def)

lemma set_pos_fields [simp]:
  "dev_of (set_pos fd p s) = dev_of s" "kmem_of (set_pos fd p s) = kmem_of s"
  "(files (set_pos fd p s) fd = None) = (files s fd = None)"
  by (simp_all add: set_pos_def)

lemma sys_lseek_start: "sys_lseek fd s 0 = (Gives 0, set_pos fd 0 s)"
  by (simp add: sys_lseek_def sys_result_def asgn1_lseek_def Let_def u32_def)

lemma length_random_buf [simp]: "length (random_buf e) = 65536"
  by (simp add: random_buf_def)

lemma change_at_bounds: "0 \<le> change_at e" "change_at e < 65536"
proof -
  have "0 \<le> randoms e 65536 mod 1024" "randoms e 65536 mod 1024 < 1024" by simp_all
  then show "0 \<le> change_at e" "change_at e < 65536" unfolding change_at_def by simp_all
qed

text \<open>What the device answers in full is written or read in one round.\<close>

lemma my_fwrite_full:
  assumes "wr s buf n = (Gives n, t)" "0 < n" "n < 2147483648"
  shows "my_fwrite wr s buf n = Some (Returns n, t)"
proof -
  have "my_fwrite_loop wr s buf n = my_fwrite_loop wr t (drop (nat n) buf) 0"
    using assms by (subst my_fwrite_loop.simps) simp
  also have "\<dots> = Some (Returns (), t)" by (subst my_fwrite_loop.simps) simp
  finally show ?thesis using assms(2,3) by (simp add: my_fwrite_def)
qed

lemma my_fread_full:
  assumes "rd s n = (Gives bs, t)" "int (length bs) = n" "0 < n" "n < 2147483648"
  shows "my_fread rd s n = Some (Returns (bs, n), t)"
proof -
  have "bs \<noteq> []" using assms(2,3) by auto
  then have "my_fread_loop rd s n [] = my_fread_loop rd t 0 bs"
    using assms by (subst my_fread_loop.simps) simp
  also have "\<dots> = Some (Returns (bs, 0), t)" by (subst my_fread_loop.simps) simp
  finally show ?thesis using assms(3,4) by (simp add: my_fread_def)
qed

text \<open>The mapping of the first 16 pages shows the bytes that a read returns.\<close>

abbreviation first_pages :: "asgn_dev \<Rightarrow> int \<Rightarrow> (int \<times> nat) list" where
  "first_pages d start \<equiv> map (\<lambda>i. (start + int i * 4096, pfn (mem_list d ! i))) [0..<16]"

lemma those_map_Some: "(\<And>x. x \<in> set xs \<Longrightarrow> f x = Some (g x)) \<Longrightarrow> those (map f xs) = Some (map g xs)"
  by (induction xs) simp_all

lemma mapped_region_shows:
  assumes "dev_inv (dev_of s)" "start mod 4096 = 0" "65536 \<le> data_size (dev_of s)"
  shows "mapped_region (first_pages (dev_of s) start) start 65536 s = Some (take 65536 (contents (dev_of s)))"
proof -
  note inv = dev_invD [OF assms(1)]
  have "int 16 \<le> num_pages (dev_of s)" using inv(5) assms(3) by linarith
  note byte = mapped_byte_eq [OF assms(1,2) this]
  have "mapped_byte (first_pages (dev_of s) start) (mem_list (dev_of s)) (start + int i) =
      Some (contents (dev_of s) ! i)" if "i < 65536" for i
    using byte [of "start + int i"] that assms(3) by (simp add: contents_def)
  then have "mapped_region (first_pages (dev_of s) start) start 65536 s =
      Some (map (\<lambda>i. contents (dev_of s) ! i) [0..<65536])"
    unfolding mapped_region_def by (intro those_map_Some) simp
  moreover have "65536 \<le> length (contents (dev_of s))" using contents_length [OF assms(1)] assms(3) by simp
  then have "map (\<lambda>i. contents (dev_of s) ! i) [0..<65536] = take 65536 (contents (dev_of s))"
    by (intro nth_equalityI) simp_all
  ultimately show ?thesis by simp
qed

lemma sys_read_full:
  assumes "dev_inv (dev_of s)" "no_fault ua" "pos_of s fd = 0" "65536 \<le> data_size (dev_of s)"
  shows "sys_read fd ua s 65536 = (Gives (take 65536 (contents (dev_of s))), set_pos fd 65536 s)"
  using asgn1_read_ok [OF assms(1,2), of 0 65536] assms(3,4) by (simp add: sys_read_def contents_def min_absorb1)

lemma compare_passes:
  assumes "dev_inv (dev_of s)" "no_fault ua" "pos_of s fd = 0" "65536 \<le> data_size (dev_of s)"
    and "start mod 4096 = 0" "maps = first_pages (dev_of s) start"
  shows "read_and_compare (sys_read fd ua) (mapped_region maps start 65536) s 65536 =
    Some (Returns (), set_pos fd 65536 s)"
proof -
  have "int (length (take 65536 (contents (dev_of s)))) = 65536"
    using contents_length [OF assms(1)] assms(4) by simp
  then have "my_fread (sys_read fd ua) s 65536 =
      Some (Returns (take 65536 (contents (dev_of s)), 65536), set_pos fd 65536 s)"
    using sys_read_full [OF assms(1-4)] by (intro my_fread_full) simp_all
  moreover have "mapped_region maps start 65536 (set_pos fd 65536 s) = Some (take 65536 (contents (dev_of s)))"
    using mapped_region_shows [OF assms(1,5,4)] assms(6) by (simp add: mapped_region_def)
  ultimately show ?thesis by (simp add: read_and_compare_def)
qed

text \<open>The store through the mapping keeps the frames where they are.\<close>

lemma mapped_store_pfns:
  assumes "mapped_store maps ns a b = Some ms" shows "map pfn ms = map pfn ns"
  using assms by (auto simp: mapped_store_def poke_def comp_def)

lemma first_pages_cong:
  assumes "map pfn (mem_list d') = map pfn (mem_list d)" "16 \<le> length (mem_list d)"
  shows "first_pages d' start = first_pages d start"
proof -
  have l: "length (mem_list d') = length (mem_list d)" using assms(1) by (rule map_eq_imp_length_eq)
  have "pfn (mem_list d' ! i) = pfn (mem_list d ! i)" if "i < 16" for i
    using arg_cong [OF assms(1), of "\<lambda>xs. xs ! i"] that assms(2) l by simp
  then show ?thesis by simp
qed

lemma change_through_mapping:
  assumes "dev_inv d" "start mod 4096 = 0" "65536 \<le> data_size d" "0 \<le> j" "j < 65536"
  shows "\<exists>ns. mapped_store (first_pages d start) (mem_list d) (start + j) b = Some ns \<and>
    dev_inv (d\<lparr>mem_list := ns\<rparr>) \<and> first_pages (d\<lparr>mem_list := ns\<rparr>) start = first_pages d start \<and>
    contents (d\<lparr>mem_list := ns\<rparr>) = (contents d)[nat j := b]"
proof -
  note inv = dev_invD [OF assms(1)]
  have n: "int 16 \<le> num_pages d" using inv(5) assms(3) by linarith
  obtain ns where ns: "mapped_store (first_pages d start) (mem_list d) (start + j) b = Some ns"
    "flat ns = (flat (mem_list d))[nat j := b]" "dev_inv (d\<lparr>mem_list := ns\<rparr>)"
    using mapped_store_eq [OF assms(1,2) n, of "start + j" b] assms(4,5) by auto
  have "map pfn ns = map pfn (mem_list d)" using ns(1) by (rule mapped_store_pfns)
  then have "first_pages (d\<lparr>mem_list := ns\<rparr>) start = first_pages d start"
    using n inv(1) by (intro first_pages_cong) simp_all
  moreover have "contents (d\<lparr>mem_list := ns\<rparr>) = (contents d)[nat j := b]"
    using ns(2) by (simp add: contents_def take_update_swap)
  ultimately show ?thesis using ns(1,3) by blast
qed

lemma ioctl_limit: "asgn1_ioctl d ASGN1_SET_NPROC True (Some 12345) = (0, d\<lparr>max_nprocs := 12345\<rparr>)"
  by (simp add: asgn1_ioctl_def IOC_TYPE_def IOC_NR_def)

lemma mapped_part:
  assumes "dev_inv (dev_of s)" "no_fault ua" "files s fd \<noteq> None" "65536 \<le> data_size (dev_of s)"
    and "map_at e mod 4096 = 0" "maps = first_pages (dev_of s) (map_at e)"
  shows "\<exists>t. mmap_test_mapped e fd ua maps s = Some (if change_at e = 0 then Killed else Returns 0, t) \<and>
    (if change_at e = 0 then contents (dev_of t) = contents (dev_of s)
     else contents (dev_of t) = (contents (dev_of s))[nat (change_at e) := change_to e] \<and>
       max_nprocs (dev_of t) = 12345)"
proof (cases "change_at e = 0")
  case True
  then show ?thesis
    using compare_passes [of "set_pos fd 0 s" ua fd "map_at e" maps] assms
    by (simp add: mmap_test_mapped_def sys_lseek_start Let_def)
next
  case False
  obtain ns where ns: "mapped_store maps (mem_list (dev_of s)) (map_at e + change_at e) (change_to e) = Some ns"
    "dev_inv ((dev_of s)\<lparr>mem_list := ns\<rparr>)"
    "first_pages ((dev_of s)\<lparr>mem_list := ns\<rparr>) (map_at e) = maps"
    "contents ((dev_of s)\<lparr>mem_list := ns\<rparr>) = (contents (dev_of s))[nat (change_at e) := change_to e]"
    using change_through_mapping [OF assms(1,5,4) change_at_bounds, of e "change_to e", folded assms(6)] by blast
  define u where "u = set_pos fd 0 ((set_pos fd 65536 (set_pos fd 0 s))\<lparr>dev_of := (dev_of s)\<lparr>mem_list := ns\<rparr>\<rparr>)"
  have files: "files ((set_pos fd 65536 (set_pos fd 0 s))\<lparr>dev_of := (dev_of s)\<lparr>mem_list := ns\<rparr>\<rparr>) fd \<noteq> None"
    using assms(3) by simp
  have dev: "dev_of u = (dev_of s)\<lparr>mem_list := ns\<rparr>" "pos_of u fd = 0"
    using files by (simp_all add: u_def)
  have first: "read_and_compare (sys_read fd ua) (mapped_region maps (map_at e) 65536) (set_pos fd 0 s) 65536 =
      Some (Returns (), set_pos fd 65536 (set_pos fd 0 s))"
    using assms by (intro compare_passes) simp_all
  have second: "read_and_compare (sys_read fd ua) (mapped_region maps (map_at e) 65536) u 65536 =
      Some (Returns (), set_pos fd 65536 u)"
    by (rule compare_passes [of _ _ _ "map_at e"]) (use ns(2,3) dev assms(2,4,5) in simp_all)
  have size: "nat 65536 = 65536" "(1024 * 64 :: int) = 65536" by simp_all
  have same: "dev_of (set_pos fd 65536 (set_pos fd 0 s)) = dev_of s" by simp
  define v where "v = set_pos fd 0 (set_pos fd 65536 u)"
  have v: "mmap_test_mapped e fd ua maps s = Some (Returns 0, v\<lparr>dev_of := (dev_of v)\<lparr>max_nprocs := 12345\<rparr>\<rparr>)"
    unfolding mmap_test_mapped_def Let_def sys_lseek_start snd_conv size first andthen.simps same ns(1)
      option.case if_not_P [OF False] u_def [symmetric] second v_def [symmetric] ioctl_limit asgn1_call.simps
      prod.case sys_result_def
    by simp
  then have "\<exists>t. mmap_test_mapped e fd ua maps s = Some (Returns 0, t) \<and> dev_of t = (dev_of u)\<lparr>max_nprocs := 12345\<rparr>"
    by (simp add: v_def)
  then show ?thesis using False dev ns(4) by (auto simp: contents_def)
qed

lemma mmap_test_filled:
  assumes "machine_ok (kmem_of s) (dev_of s)" "no_fault ua" "nprocs (dev_of s) < max_nprocs (dev_of s)"
    and "writable (kmem_of s) (dev_of s) 0 65536"
  obtains u where "sys_result s (asgn1_call s (Open fd O_RDWR)) = (Gives 0, u)"
    "\<exists>t. my_fwrite (sys_write fd ua) u (random_buf e) 65536 = Some (Returns 65536, t) \<and>
      dev_inv (dev_of t) \<and> files t fd \<noteq> None \<and> 65536 \<le> data_size (dev_of t) \<and>
      num_pages (dev_of t) = max (num_pages (dev_of s)) 16 \<and>
      contents (dev_of t) = blit (contents (dev_of s)) 0 (random_buf e)"
proof -
  define u where "u = s\<lparr>dev_of := (dev_of s)\<lparr>nprocs := s32 (nprocs (dev_of s) + 1)\<rparr>,
    files := (files s)(fd \<mapsto> \<lparr>f_pos = 0, f_flags = O_RDWR\<rparr>)\<rparr>"
  have opened: "sys_result s (asgn1_call s (Open fd O_RDWR)) = (Gives 0, u)"
    using assms(3) by (simp add: sys_result_def asgn1_open_cases u_def)
  have m: "machine_ok (kmem_of u) (dev_of u)" "writable (kmem_of u) (dev_of u) 0 65536"
    using assms(1,4) by (simp_all add: u_def writable_def)
  then have "0 \<le> data_size (dev_of u)" using dev_invD(4) by (blast dest: machine_okD)
  with asgn1_write_contents [OF m(1) assms(2) order_refl _ m(2), of "random_buf e"]
  obtain k d where w: "asgn1_write ua (kmem_of u) (dev_of u) (random_buf e) 65536 0 = Some (65536, 65536, k, d)"
    "machine_ok k d" "data_size d = max (data_size (dev_of u)) 65536"
    "num_pages d = max (num_pages (dev_of u)) (pages_for 65536)"
    "contents d = blit (contents (dev_of u)) 0 (random_buf e)"
    by auto
  define t where "t = set_pos fd 65536 (u\<lparr>kmem_of := k, dev_of := d\<rparr>)"
  have "pos_of u fd = 0" by (simp add: pos_of_def u_def)
  with w(1) have "sys_write fd ua u (random_buf e) 65536 = (Gives 65536, t)"
    by (simp add: sys_write_def sys_result_def t_def)
  then have "my_fwrite (sys_write fd ua) u (random_buf e) 65536 = Some (Returns 65536, t)"
    by (rule my_fwrite_full) simp_all
  moreover have "files t fd \<noteq> None" "dev_of t = d" by (simp_all add: t_def u_def)
  moreover have "num_pages d = max (num_pages (dev_of s)) 16" "65536 \<le> data_size d"
    "contents d = blit (contents (dev_of s)) 0 (random_buf e)"
    using w(3-5) by (simp_all add: u_def pages_for_def contents_def)
  ultimately show ?thesis using opened w(2) that [OF opened] by (auto dest: machine_okD)
qed

lemma blit_start_update:
  "j < length ys \<Longrightarrow> (blit xs 0 ys)[j := b] = blit xs 0 (ys[j := b])"
  by (simp add: blit_def list_update_append)

text \<open>
  C14: on a device with room for it the mapping test passes, but for a change that it would make
  at the first byte: then it divides by zero. What a read returns is what the mapping shows,
  before and after the change; the device ends with the bytes of the program, the one byte changed,
  and with the program's limit of users. The place of the change is a multiple of 64.
\<close>

theorem mmap_test_passes:
  assumes "machine_ok (kmem_of s) (dev_of s)" "no_fault ua" "nprocs (dev_of s) < max_nprocs (dev_of s)"
    and "writable (kmem_of s) (dev_of s) 0 65536" "malloc_buf e" "malloc_read_buf e"
    and "map_at e mod 4096 = 0" "0 \<le> map_at e" "map_at e + max (num_pages (dev_of s)) 16 * 4096 < 4294967296"
  shows "\<exists>t. mmap_test e fd ua s = Some (if change_at e = 0 then Killed else Returns 0, t) \<and>
    contents (dev_of t) = blit (contents (dev_of s)) 0
      (if change_at e = 0 then random_buf e else (random_buf e)[nat (change_at e) := change_to e]) \<and>
    (change_at e \<noteq> 0 \<longrightarrow> max_nprocs (dev_of t) = 12345 \<and> 64 dvd change_at e)"
proof -
  obtain u v where opened: "sys_result s (asgn1_call s (Open fd O_RDWR)) = (Gives 0, u)"
    and v: "my_fwrite (sys_write fd ua) u (random_buf e) 65536 = Some (Returns 65536, v)"
      "dev_inv (dev_of v)" "files v fd \<noteq> None" "65536 \<le> data_size (dev_of v)"
      "num_pages (dev_of v) = max (num_pages (dev_of s)) 16"
      "contents (dev_of v) = blit (contents (dev_of s)) 0 (random_buf e)"
    using mmap_test_filled [OF assms(1-4), of fd e] by metis
  have "asgn1_mmap (dev_of v) (whole_vma (map_at e) 16) = (0, first_pages (dev_of v) (map_at e))"
    using asgn1_mmap_zero [OF v(2) assms(8), of 16] v(5) assms(9) by simp
  then have "mmap_test e fd ua s = mmap_test_mapped e fd ua (first_pages (dev_of v) (map_at e)) v"
    using opened v(1) assms(5,6) by (simp add: mmap_test_def)
  then show ?thesis
    using mapped_part [OF v(2) assms(2) v(3,4) assms(7) refl] change_at_bounds [of e] v(6)
    by (auto simp: blit_start_update change_at_def split: if_splits)
qed

theorem mmap_test_passes_witness:
  "\<exists>t. mmap_test \<lparr>randoms = (\<lambda>_. 1), malloc_buf = True, malloc_read_buf = True, map_at = 4096\<rparr> 3 all_copied
      (asgn1_loaded (clean_kmem 16)) = Some (Returns 0, t) \<and> max_nprocs (dev_of t) = 12345"
proof -
  have "machine_ok (kmem_of (asgn1_loaded (clean_kmem 16))) (dev_of (asgn1_loaded (clean_kmem 16)))"
    by (simp add: asgn1_loaded_def machine_ok_def dev_inv_def kmem_ok_clean supplied_clean)
  moreover have "writable (kmem_of (asgn1_loaded (clean_kmem 16))) (dev_of (asgn1_loaded (clean_kmem 16))) 0 65536"
    using mem_available_clean [of 16] by (simp add: asgn1_loaded_def writable_def pages_for_def)
  ultimately show ?thesis
    using mmap_test_passes [of "asgn1_loaded (clean_kmem 16)" all_copied
        "\<lparr>randoms = (\<lambda>_. 1), malloc_buf = True, malloc_read_buf = True, map_at = 4096\<rparr>" 3]
    by (auto simp: asgn1_loaded_def change_at_def)
qed

subsection \<open>A run that does not end\<close>

text \<open>The device and the memory that is left have less than the 16 pages of the test.\<close>

definition starved :: "nat \<Rightarrow> asgn1_sys \<Rightarrow> bool" where
  "starved fd s \<longleftrightarrow>
     machine_ok (kmem_of s) (dev_of s) \<and> files s fd \<noteq> None \<and> pos_of s fd = 0 \<and>
     num_pages (dev_of s) + int (length (supplied (kmem_of s))) < 16"

lemma starved_write:
  assumes "starved fd s"
  shows "\<exists>t. sys_write fd ua s buf 65536 = (Gives 0, t) \<and> starved fd t"
proof -
  have m: "machine_ok (kmem_of s) (dev_of s)" and p: "pos_of s fd = 0"
    and few: "num_pages (dev_of s) + int (length (supplied (kmem_of s))) < 16"
    using assms by (simp_all add: starved_def)
  obtain ok k d where a: "add_pages 65536 (kmem_of s) (dev_of s) = (ok, k, d)" by (metis prod_cases3)
  have few': "num_pages d + int (length (supplied k)) < 16" using add_pages_supply [OF m a] few by simp
  then have "\<not> ok" using add_pages_frame(4) [OF m a] by linarith
  then have "sys_write fd ua s buf 65536 = (Gives 0, set_pos fd 0 (s\<lparr>kmem_of := k, dev_of := d\<rparr>))"
    using a p by (simp add: sys_write_def sys_result_def asgn1_write_def Let_def)
  moreover have "starved fd (set_pos fd 0 (s\<lparr>kmem_of := k, dev_of := d\<rparr>))"
    using add_pages_frame(1) [OF m a] few' assms by (simp add: starved_def)
  ultimately show ?thesis by blast
qed

text \<open>The loop of \<open>my_fwrite\<close> has no result where every write returns zero.\<close>

lemma starved_loop:
  assumes "starved fd s"
  shows "my_fwrite_loop (sys_write fd ua) s buf 65536 = None"
proof -
  have "wr = sys_write fd ua \<longrightarrow> n = 65536 \<longrightarrow> \<not> starved fd s"
    if "my_fwrite_loop wr s bs n = Some y" for wr s bs n y
    using that
  proof (rule my_fwrite_loop.raw_induct [where P = "\<lambda>wr s bs n y.
      wr = sys_write fd ua \<longrightarrow> n = 65536 \<longrightarrow> \<not> starved fd s", rotated], intro impI notI)
    fix loop :: "(asgn1_sys \<Rightarrow> byte list \<Rightarrow> int \<Rightarrow> int syscall \<times> asgn1_sys) \<Rightarrow> asgn1_sys \<Rightarrow> byte list \<Rightarrow> int \<Rightarrow>
      (unit ended \<times> asgn1_sys) option"
    fix wr s bs n y
    assume IH: "\<And>wr' s' bs' n' r. loop wr' s' bs' n' = Some r \<Longrightarrow>
        wr' = sys_write fd ua \<longrightarrow> n' = 65536 \<longrightarrow> \<not> starved fd s'"
      and eq: "(if 0 < n then case wr s bs n of
          (Fails e, t) \<Rightarrow> if e = EINTR then loop wr t bs n else Some (Exits 1, t)
        | (Gives m, t) \<Rightarrow> loop wr t (drop (nat m) bs) (s32 (n - m))
        | (Oopses, t) \<Rightarrow> Some (Killed, t)
        else Some (Returns (), s)) = Some y"
      and h: "wr = sys_write fd ua" "n = 65536" "starved fd s"
    obtain t where t: "wr s bs n = (Gives 0, t)" "starved fd t" using starved_write h by blast
    then have "loop wr t bs 65536 = Some y" using eq h(2) by simp
    then show False using IH h(1) t(2) by blast
  qed
  then show ?thesis using assms by (cases "my_fwrite_loop (sys_write fd ua) s buf 65536") auto
qed

text \<open>
  C30: where the memory for the 16 pages is not there, the mapping test never ends: the driver's
  write returns zero, which the program takes for an interrupted write and repeats.
\<close>

theorem mmap_test_hangs:
  assumes "machine_ok (kmem_of s) (dev_of s)" "nprocs (dev_of s) < max_nprocs (dev_of s)" "malloc_buf e"
    and "num_pages (dev_of s) + int (length (supplied (kmem_of s))) < 16"
  shows "mmap_test e fd ua s = None"
proof -
  define u where "u = s\<lparr>dev_of := (dev_of s)\<lparr>nprocs := s32 (nprocs (dev_of s) + 1)\<rparr>,
    files := (files s)(fd \<mapsto> \<lparr>f_pos = 0, f_flags = O_RDWR\<rparr>)\<rparr>"
  have "sys_result s (asgn1_call s (Open fd O_RDWR)) = (Gives 0, u)"
    using assms(2) by (simp add: sys_result_def asgn1_open_cases u_def)
  moreover have "starved fd u" using assms(1,4) by (simp add: starved_def u_def pos_of_def)
  then have "my_fwrite (sys_write fd ua) u (random_buf e) 65536 = None"
    by (simp add: my_fwrite_def starved_loop)
  ultimately show ?thesis using assms(3) by (simp add: mmap_test_def)
qed

theorem mmap_test_hangs_witness:
  "mmap_test \<lparr>randoms = (\<lambda>_. 1), malloc_buf = True, malloc_read_buf = True, map_at = 4096\<rparr> 3 all_copied
    (asgn1_loaded (clean_kmem 15)) = None"
proof -
  have "machine_ok (kmem_of (asgn1_loaded (clean_kmem 15))) (dev_of (asgn1_loaded (clean_kmem 15)))"
    by (simp add: asgn1_loaded_def machine_ok_def dev_inv_def kmem_ok_clean supplied_clean)
  then show ?thesis
    by (rule mmap_test_hangs) (simp_all add: asgn1_loaded_def supplied_clean)
qed

end
