(* ===== verification/Lab_Ramdisk.thy ===== *)
theory Lab_Ramdisk
  imports Asgn_Device Interfaces
begin

section \<open>The RAM disks of the labs\<close>

text \<open>
  Three drivers keep a RAM disk of a fixed size: \<^verbatim>\<open>lab03/seek/seek.c\<close> one of 16 pages,
  \<^verbatim>\<open>lab03/wait/lab_miscdev.h\<close> another of 16 pages with a seek that clamps, and
  \<^verbatim>\<open>lab04/private_data/seek.c\<close> one of a page for each open file. Their reads and writes compute
  the number of bytes in the same way, with an \<open>int\<close> that is compared to a \<open>size_t\<close>.
\<close>

subsection \<open>How many bytes\<close>

definition bytes_to_do :: "int \<Rightarrow> int \<Rightarrow> int \<Rightarrow> int" where
  "bytes_to_do ramdisk_size lbuf ppos =
     (let maxbytes = s32 (ramdisk_size - ppos)
      in s32 (if u32 maxbytes > lbuf then lbuf else u32 maxbytes))"

definition ram_read :: "uaccess \<Rightarrow> byte list \<Rightarrow> int \<Rightarrow> int \<Rightarrow> int \<Rightarrow> (int \<times> byte list \<times> int) option" where
  "ram_read ua ramdisk ramdisk_size lbuf ppos =
     (let n = bytes_to_do ramdisk_size lbuf ppos
      in case page_bytes ramdisk ppos (u32 n) of
           None \<Rightarrow> None
         | Some src \<Rightarrow>
             (let (out, left) = copy_to_user ua 0 0 src (u32 n);
                  nbytes = s32 (u32 n - left)
              in Some (nbytes, out, s64 (ppos + nbytes))))"

definition ram_write :: "uaccess \<Rightarrow> byte list \<Rightarrow> int \<Rightarrow> byte list \<Rightarrow> int \<Rightarrow> int \<Rightarrow> (int \<times> int \<times> byte list) option" where
  "ram_write ua ramdisk ramdisk_size buf lbuf ppos =
     (let n = bytes_to_do ramdisk_size lbuf ppos;
          (bytes, left) = copy_from_user ua 0 0 buf (u32 n)
      in case page_store ramdisk ppos bytes of
           None \<Rightarrow> None
         | Some ramdisk \<Rightarrow>
             (let nbytes = s32 (u32 n - left)
              in Some (nbytes, s64 (ppos + nbytes), ramdisk)))"

subsection \<open>One disk for everybody: lab03\<close>

abbreviation (input) RAMDISK_SIZE :: int where "RAMDISK_SIZE \<equiv> 16 * PAGE_SIZE"

definition mycdrv_read :: "uaccess \<Rightarrow> byte list \<Rightarrow> int \<Rightarrow> int \<Rightarrow> (int \<times> byte list \<times> int) option" where
  "mycdrv_read ua ramdisk lbuf ppos = ram_read ua ramdisk RAMDISK_SIZE lbuf ppos"

definition mycdrv_write :: "uaccess \<Rightarrow> byte list \<Rightarrow> byte list \<Rightarrow> int \<Rightarrow> int \<Rightarrow> (int \<times> int \<times> byte list) option" where
  "mycdrv_write ua ramdisk buf lbuf ppos = ram_write ua ramdisk RAMDISK_SIZE buf lbuf ppos"

text \<open>Closing does nothing.\<close>

definition mycdrv_release :: int where
  "mycdrv_release = 0"

definition mycdrv_generic_release :: int where
  "mycdrv_generic_release = 0"

text \<open>The result of a seek, and the position of the file after it.\<close>

definition strict_lseek :: "int \<Rightarrow> int \<Rightarrow> int \<Rightarrow> int \<Rightarrow> int \<times> int" where
  "strict_lseek ramdisk_size f_pos offset orig =
     (let testpos = (if orig = SEEK_SET then offset
                     else if orig = SEEK_CUR then s64 (f_pos + offset)
                     else if orig = SEEK_END then s64 (ramdisk_size + offset)
                     else - EINVAL)
      in if testpos > - 1 \<and> testpos < ramdisk_size then (testpos, testpos) else (- EINVAL, f_pos))"

definition mycdrv_lseek :: "byte list \<Rightarrow> int \<Rightarrow> int \<Rightarrow> int \<Rightarrow> int \<times> int" where
  "mycdrv_lseek ramdisk f_pos offset orig = strict_lseek RAMDISK_SIZE f_pos offset orig"

definition mycdrv_generic_read :: "uaccess \<Rightarrow> byte list \<Rightarrow> int \<Rightarrow> int \<Rightarrow> (int \<times> byte list \<times> int) option" where
  "mycdrv_generic_read ua ramdisk lbuf ppos = ram_read ua ramdisk RAMDISK_SIZE lbuf ppos"

definition mycdrv_generic_write :: "uaccess \<Rightarrow> byte list \<Rightarrow> byte list \<Rightarrow> int \<Rightarrow> int \<Rightarrow>
    (int \<times> int \<times> byte list) option" where
  "mycdrv_generic_write ua ramdisk buf lbuf ppos = ram_write ua ramdisk RAMDISK_SIZE buf lbuf ppos"

definition mycdrv_generic_lseek :: "byte list \<Rightarrow> int \<Rightarrow> int \<Rightarrow> int \<Rightarrow> int \<times> int" where
  "mycdrv_generic_lseek ramdisk f_pos offset orig =
     (let seek_to = (\<lambda>testpos.
            let testpos = (if testpos < RAMDISK_SIZE then testpos else RAMDISK_SIZE);
                testpos = (if testpos \<ge> 0 then testpos else 0)
            in (testpos, testpos))
      in if orig = SEEK_SET then seek_to offset
         else if orig = SEEK_CUR then seek_to (s64 (f_pos + offset))
         else if orig = SEEK_END then seek_to (s64 (RAMDISK_SIZE + offset))
         else (- EINVAL, f_pos))"

subsection \<open>A disk for each open file: lab04\<close>

record private_ramdisk =
  pr_data :: "byte list"
  pr_size :: int

text \<open>
  \<open>open\<close> follows the result of its first \<open>kmalloc\<close> without a look at it (\<open>None\<close>). Where
  \<open>kcalloc\<close> fails the data is an empty region.
\<close>

definition private_open :: "bool \<Rightarrow> bool \<Rightarrow> private_ramdisk option" where
  "private_open kmalloc_ok kcalloc_ok =
     (if \<not> kmalloc_ok then None
      else Some \<lparr>pr_data = (if kcalloc_ok then replicate (nat PAGE_SIZE) 0 else []), pr_size = PAGE_SIZE\<rparr>)"

text \<open>
  \<open>release\<close> frees the data and the structure, and forgets them: its result, the number of objects it
  gives back, and what the file keeps. \<open>kfree\<close> ignores a null pointer.
\<close>

definition private_release :: "private_ramdisk \<Rightarrow> int \<times> nat \<times> private_ramdisk option" where
  "private_release my_ramdisk = (0, (if pr_data my_ramdisk = [] then 0 else 1) + 1, None)"

text \<open>What an open takes, its release gives back.\<close>

lemma private_open_release:
  "private_open kmalloc_ok kcalloc_ok = Some r \<Longrightarrow>
   private_release r = (0, length (filter id [kmalloc_ok, kcalloc_ok]), None)"
  by (auto simp: private_open_def private_release_def split: if_splits)

definition private_read :: "uaccess \<Rightarrow> private_ramdisk \<Rightarrow> int \<Rightarrow> int \<Rightarrow> (int \<times> byte list \<times> int) option" where
  "private_read ua my_ramdisk lbuf ppos = ram_read ua (pr_data my_ramdisk) (pr_size my_ramdisk) lbuf ppos"

definition private_write :: "uaccess \<Rightarrow> private_ramdisk \<Rightarrow> byte list \<Rightarrow> int \<Rightarrow> int \<Rightarrow>
    (int \<times> int \<times> private_ramdisk) option" where
  "private_write ua my_ramdisk buf lbuf ppos =
     map_option (\<lambda>(n, pos, bytes). (n, pos, my_ramdisk\<lparr>pr_data := bytes\<rparr>))
       (ram_write ua (pr_data my_ramdisk) (pr_size my_ramdisk) buf lbuf ppos)"

definition private_lseek :: "private_ramdisk \<Rightarrow> int \<Rightarrow> int \<Rightarrow> int \<Rightarrow> int \<times> int" where
  "private_lseek my_ramdisk f_pos offset orig = strict_lseek (pr_size my_ramdisk) f_pos offset orig"

subsection \<open>What they do\<close>

lemma bytes_to_do_inside:
  "0 \<le> ppos \<Longrightarrow> ppos \<le> rsize \<Longrightarrow> rsize < 2147483648 \<Longrightarrow> 0 \<le> lbuf \<Longrightarrow>
   bytes_to_do rsize lbuf ppos = min lbuf (rsize - ppos)"
  by (simp add: bytes_to_do_def Let_def)

lemma bytes_to_do_beyond:
  "rsize < ppos \<Longrightarrow> ppos \<le> 2147483648 \<Longrightarrow> 0 \<le> rsize \<Longrightarrow> 0 \<le> lbuf \<Longrightarrow> lbuf < 2147483648 \<Longrightarrow>
   bytes_to_do rsize lbuf ppos = lbuf"
  by (simp add: bytes_to_do_def Let_def u32_neg)

lemma ram_read_inside:
  assumes "no_fault ua" "0 \<le> ppos" "ppos \<le> int (length ram)" "length ram < 2147483648" "0 \<le> lbuf"
  shows "ram_read ua ram (int (length ram)) lbuf ppos =
    (let n = min lbuf (int (length ram) - ppos) in Some (n, take (nat n) (drop (nat ppos) ram), ppos + n))"
proof -
  define n where "n = min lbuf (int (length ram) - ppos)"
  have n: "bytes_to_do (int (length ram)) lbuf ppos = n" "0 \<le> n" "n < 2147483648" "ppos + n \<le> int (length ram)"
    using assms bytes_to_do_inside [of ppos "int (length ram)" lbuf] by (simp_all add: n_def)
  have "copy_to_user ua 0 0 (take (nat n) (drop (nat ppos) ram)) n = (take (nat n) (drop (nat ppos) ram), 0)"
    using assms n by (intro copy_to_user_full) (simp_all add: nat_le_iff)
  then show ?thesis
    using assms n by (simp add: ram_read_def page_bytes_def Let_def flip: n_def)
qed

lemma ram_write_inside:
  assumes "no_fault ua" "0 \<le> ppos" "ppos \<le> int (length ram)" "length ram < 2147483648"
    and "0 \<le> lbuf" "lbuf \<le> int (length buf)"
  shows "ram_write ua ram (int (length ram)) buf lbuf ppos =
    (let n = min lbuf (int (length ram) - ppos) in Some (n, ppos + n, blit ram (nat ppos) (take (nat n) buf)))"
proof -
  define n where "n = min lbuf (int (length ram) - ppos)"
  have n: "bytes_to_do (int (length ram)) lbuf ppos = n" "0 \<le> n" "n < 2147483648" "ppos + n \<le> int (length ram)"
    "n \<le> int (length buf)"
    using assms bytes_to_do_inside [of ppos "int (length ram)" lbuf] by (simp_all add: n_def)
  have "copy_from_user ua 0 0 buf n = (take (nat n) buf, 0)"
    using copy_from_user_full [OF assms(1) n(2), of 0 buf] n(5) by simp
  then show ?thesis
    using assms n by (simp add: ram_write_def page_store_def Let_def flip: n_def)
qed

text \<open>Whatever the user's memory does, a read or write that starts inside the disk stays inside.\<close>

lemma ram_safe:
  assumes "0 \<le> ppos" "ppos \<le> int (length ram)" "length ram < 2147483648" "0 \<le> lbuf"
  shows "\<exists>n out. ram_read ua ram (int (length ram)) lbuf ppos = Some (n, out, ppos + n) \<and>
      0 \<le> n \<and> ppos + n \<le> int (length ram) \<and> n \<le> lbuf \<and> int (length out) = n"
    and "\<exists>n ram'. ram_write ua ram (int (length ram)) buf lbuf ppos = Some (n, ppos + n, ram') \<and>
      0 \<le> n \<and> ppos + n \<le> int (length ram) \<and> n \<le> lbuf \<and> length ram' = length ram"
proof -
  define n where "n = min lbuf (int (length ram) - ppos)"
  have n: "bytes_to_do (int (length ram)) lbuf ppos = n" "0 \<le> n" "n < 2147483648" "ppos + n \<le> int (length ram)"
    "n \<le> lbuf"
    using assms bytes_to_do_inside [of ppos "int (length ram)" lbuf] by (simp_all add: n_def)
  obtain out left where o: "copy_to_user ua 0 0 (take (nat n) (drop (nat ppos) ram)) n = (out, left)" by fastforce
  have src: "int (length (take (nat n) (drop (nat ppos) ram))) = n" using n assms by (simp add: nat_le_iff)
  have l: "0 \<le> left" "left \<le> n" "int (length out) = n - left"
    using copy_to_user_bounds [OF n(2), of ua 0 0] copy_to_user_length [OF n(2) src, of ua 0 0] o
    by (metis snd_conv, metis snd_conv, metis fst_conv snd_conv)
  show "\<exists>n out. ram_read ua ram (int (length ram)) lbuf ppos = Some (n, out, ppos + n) \<and>
      0 \<le> n \<and> ppos + n \<le> int (length ram) \<and> n \<le> lbuf \<and> int (length out) = n"
    using o l n assms
    by (intro exI [of _ "n - left"] exI [of _ out]) (simp add: ram_read_def page_bytes_def Let_def)
  obtain bytes left' where w: "copy_from_user ua 0 0 buf n = (bytes, left')" by fastforce
  have l': "0 \<le> left'" "left' \<le> n" "int (length bytes) = n"
    using copy_from_user_bounds [OF n(2), of ua 0 0 buf] copy_from_user_length [OF n(2), of 0 ua 0 buf] w
    by (metis snd_conv, metis snd_conv, metis fst_conv order_refl)
  have "length (blit ram (nat ppos) bytes) = length ram"
    using l'(3) n assms by (intro length_blit) linarith
  then show "\<exists>n ram'. ram_write ua ram (int (length ram)) buf lbuf ppos = Some (n, ppos + n, ram') \<and>
      0 \<le> n \<and> ppos + n \<le> int (length ram) \<and> n \<le> lbuf \<and> length ram' = length ram"
    using w l' n assms
    by (intro exI [of _ "n - left'"] exI [of _ "blit ram (nat ppos) bytes"])
      (simp add: ram_write_def page_store_def Let_def)
qed

subsection \<open>Properties\<close>

text \<open>The disk of lab03 as a store of fixed size, in which a write must fit.\<close>

definition ram_ok :: "byte list \<Rightarrow> bool" where
  "ram_ok ram \<longleftrightarrow> length ram = 65536"

definition ram_byte :: "byte list \<Rightarrow> int \<Rightarrow> byte" where
  "ram_byte ram i = ram ! nat i"

definition ram_fits :: "byte list \<Rightarrow> int \<Rightarrow> int \<Rightarrow> bool" where
  "ram_fits ram p n \<longleftrightarrow> 0 \<le> p \<and> 0 \<le> n \<and> p + n \<le> int (length ram)"

definition ram_put :: "byte list \<Rightarrow> int \<Rightarrow> byte list \<Rightarrow> byte list" where
  "ram_put ram p bs =
     (case mycdrv_write all_copied ram bs (int (length bs)) p of Some (n, pos, ram') \<Rightarrow> ram' | None \<Rightarrow> ram)"

definition ram_get :: "byte list \<Rightarrow> int \<Rightarrow> int \<Rightarrow> byte list" where
  "ram_get ram p n = (case mycdrv_read all_copied ram n p of Some (r, out, pos) \<Rightarrow> out | None \<Rightarrow> [])"

lemma ram_put_blit:
  assumes "ram_ok ram" "ram_fits ram p (int (length bs))"
  shows "mycdrv_write all_copied ram bs (int (length bs)) p =
      Some (int (length bs), p + int (length bs), blit ram (nat p) bs)"
    and "ram_put ram p bs = blit ram (nat p) bs"
proof -
  have "ram_write all_copied ram 65536 bs (int (length bs)) p =
      Some (int (length bs), p + int (length bs), blit ram (nat p) bs)"
    using ram_write_inside [of all_copied p ram "int (length bs)" bs] assms
    by (simp add: ram_ok_def ram_fits_def Let_def min_absorb1)
  then show "mycdrv_write all_copied ram bs (int (length bs)) p =
      Some (int (length bs), p + int (length bs), blit ram (nat p) bs)"
    "ram_put ram p bs = blit ram (nat p) bs"
    by (simp_all add: mycdrv_write_def ram_put_def)
qed

lemma ram_put_ok:
  "ram_ok ram \<Longrightarrow> ram_fits ram p (int (length bs)) \<Longrightarrow> ram_ok (ram_put ram p bs)"
proof -
  assume a: "ram_ok ram" "ram_fits ram p (int (length bs))"
  then have "nat p + length bs \<le> length ram" by (auto simp: ram_fits_def)
  then show ?thesis using a by (simp add: ram_put_blit(2) ram_ok_def)
qed

lemma ram_get_take:
  assumes "ram_ok ram" "0 \<le> p" "p \<le> 65536" "0 \<le> n"
  shows "ram_get ram p n = take (nat (min n (65536 - p))) (drop (nat p) ram)"
  using ram_read_inside [of all_copied p ram n] assms
  by (simp add: ram_get_def mycdrv_read_def ram_ok_def Let_def)

interpretation ram: byte_store ram_ok "\<lambda>ram. int (length ram)" ram_byte ram_fits ram_put ram_get
proof (unfold_locales, goal_cases)
  case (1 s)
  then show ?case by simp
next
  case (2 s p n)
  then show ?case by (simp add: ram_fits_def)
next
  case (3 s p n m)
  then show ?case by (simp add: ram_fits_def)
next
  case (4 s p bs n)
  then have "ram_fits s p (int (length bs))" by (simp add: ram_fits_def)
  from ram_put_ok [OF 4(1) this] 4 show ?case by (simp add: ram_fits_def ram_ok_def)
next
  case (5 s p bs)
  then show ?case by (rule ram_put_ok)
next
  case (6 s p bs)
  from ram_put_ok [OF this] 6 show ?case by (simp add: ram_fits_def ram_ok_def)
next
  case (7 s p bs i)
  then have "nat p + length bs \<le> length s" "nat p \<le> nat i" "nat i < nat p + length bs"
    by (auto simp: ram_fits_def)
  then show ?case
    using 7 by (simp add: ram_put_blit(2) ram_byte_def nth_blit nat_diff_distrib ram_fits_def)
next
  case (8 s p bs i)
  then have "nat p + length bs \<le> length s" "nat i < length s" "\<not> (nat p \<le> nat i \<and> nat i < nat p + length bs)"
    by (auto simp: ram_fits_def)
  then have "blit s (nat p) bs ! nat i = s ! nat i" by (subst nth_blit) auto
  then show ?case using 8 by (simp add: ram_put_blit(2) ram_byte_def)
next
  case (9 s p n)
  define k where "k = nat (min n (65536 - p))"
  have b: "length s = 65536" "p \<le> 65536" using 9 by (simp_all add: ram_ok_def)
  have k: "min (p + n) 65536 = p + int k" "nat p + k \<le> 65536" using 9 b by (auto simp: k_def)
  have "take k (drop (nat p) s) = map (ram_byte s) [p..p + int k - 1]"
    using k(2) b 9 by (intro nth_equalityI) (simp_all add: ram_byte_def nat_add_distrib)
  then show ?case using 9 b k(1) ram_get_take [of s p n] by (simp add: k_def)
qed

interpretation ram_seek: seekable ram_ok "\<lambda>ram. int (length ram)" mycdrv_lseek
  by unfold_locales (auto simp: mycdrv_lseek_def strict_lseek_def Let_def ram_ok_def split: if_splits)

interpretation generic_seek: seekable ram_ok "\<lambda>ram. int (length ram)" mycdrv_generic_lseek
  by unfold_locales (auto simp: mycdrv_generic_lseek_def Let_def ram_ok_def split: if_splits)

text \<open>
  The disk of lab03 keeps what is written: a write that fits, in any number of pieces,
  reads back, and a read elsewhere is not changed by it.
\<close>

lemma mycdrv_roundtrip:
  assumes "length ramdisk = 65536" "0 \<le> p" "p + int (length (concat cs)) \<le> 65536" "cs \<noteq> []"
  shows "ram_get (put_chunks ram_put ramdisk p cs) p (int (length (concat cs))) = concat cs"
proof -
  have "length (concat cs) < 2147483648" using assms(2,3) by linarith
  then show ?thesis
    using ram.get_put_chunks [of ramdisk p cs] assms by (simp add: ram_ok_def ram_fits_def)
qed

text \<open>
  C24: whatever the user's memory does, a read or write that begins inside the disk touches
  nothing outside it, moves the position by what it did, and leaves it inside; any seeks in
  between do the same.
\<close>

theorem mycdrv_stays_inside:
  assumes "length ramdisk = 65536" "0 \<le> pos" "pos \<le> 65536" "0 \<le> lbuf"
  shows "(\<exists>n out. mycdrv_read ua ramdisk lbuf pos = Some (n, out, pos + n) \<and> 0 \<le> n \<and> pos + n \<le> 65536) \<and>
    (\<exists>n ram'. mycdrv_write ua ramdisk buf lbuf pos = Some (n, pos + n, ram') \<and> 0 \<le> n \<and> pos + n \<le> 65536 \<and>
      length ram' = 65536) \<and>
    0 \<le> seeks mycdrv_lseek ramdisk pos cmds \<and> seeks mycdrv_lseek ramdisk pos cmds \<le> 65536 \<and>
    0 \<le> seeks mycdrv_generic_lseek ramdisk pos cmds \<and> seeks mycdrv_generic_lseek ramdisk pos cmds \<le> 65536"
proof -
  have "ram_ok ramdisk" using assms(1) by (simp add: ram_ok_def)
  note s = ram_seek.seeks_inside [OF this, of pos cmds] generic_seek.seeks_inside [OF this, of pos cmds]
  have r: "\<exists>n out. mycdrv_read ua ramdisk lbuf pos = Some (n, out, pos + n) \<and> 0 \<le> n \<and> pos + n \<le> 65536"
    using ram_safe(1) [of pos ramdisk lbuf ua] assms unfolding mycdrv_read_def by fastforce
  have w: "\<exists>n ram'. mycdrv_write ua ramdisk buf lbuf pos = Some (n, pos + n, ram') \<and> 0 \<le> n \<and>
      pos + n \<le> 65536 \<and> length ram' = 65536"
    using ram_safe(2) [of pos ramdisk lbuf ua buf] assms unfolding mycdrv_write_def by fastforce
  show ?thesis using r w s assms by simp
qed

theorem mycdrv_stays_inside_witness:
  "\<exists>n out. mycdrv_read all_copied (replicate 65536 0) 100 65500 = Some (n, out, 65500 + n) \<and> 65500 + n \<le> 65536"
  using mycdrv_stays_inside [of "replicate 65536 0" 65500 100 all_copied "[]" "[]"] by auto

text \<open>
  A positioned read or write (\<open>pread\<close>, \<open>pwrite\<close>) beyond the end is not stopped: the
  negative distance to the end is compared as a \<open>size_t\<close>, so the whole count is copied from, or
  to, memory behind the disk.
\<close>

lemma mycdrv_beyond_end:
  assumes "length ramdisk = 65536" "65536 < pos" "pos \<le> 2147483648" "0 < lbuf" "lbuf < 2147483648"
  shows "bytes_to_do 65536 lbuf pos = lbuf \<and>
    mycdrv_read ua ramdisk lbuf pos = None \<and> mycdrv_write ua ramdisk buf lbuf pos = None"
proof -
  have b: "bytes_to_do 65536 lbuf pos = lbuf" using bytes_to_do_beyond [of 65536 pos lbuf] assms by simp
  have "int (length (fst (copy_from_user ua 0 0 buf lbuf))) = lbuf"
    using assms by (intro copy_from_user_length) simp_all
  then show ?thesis
    using assms b by (auto simp: mycdrv_read_def mycdrv_write_def ram_read_def ram_write_def page_bytes_def
        page_store_def Let_def split: prod.splits)
qed



end
