(* ===== verification/Lab_Wait.thy ===== *)
theory Lab_Wait
  imports Lab_Ramdisk
begin

section \<open>Readers that wait for a writer: lab03\<close>

text \<open>
  \<^verbatim>\<open>lab03/wait/wait_event.c\<close>: a read sleeps in an exclusive wait until \<open>data_ready\<close> is set, clears
  it and reads the RAM disk; a write sets it and wakes up one sleeper. The readers take turns:
  a turn goes from one point where others can get in between to the next. A read is
  \<open>Calling\<close> before it looks at the flag, \<open>Asleep\<close> in the queue, \<open>Woken\<close> after a wake-up and before
  it looks again, \<open>Passed\<close> once it has found the flag set.
\<close>

datatype reader_state = Calling | Asleep | Woken | Passed | Finished int "byte list"

record reader =
  r_state :: reader_state
  r_lbuf :: int
  r_pos :: int

record wait_sys =
  w_ram :: "byte list"
  data_ready :: bool
  wait_queue :: "nat list"
  readers :: "reader list"

definition set_reader :: "nat \<Rightarrow> reader_state \<Rightarrow> wait_sys \<Rightarrow> wait_sys" where
  "set_reader i st s = s\<lparr>readers := (readers s)[i := (readers s ! i)\<lparr>r_state := st\<rparr>]\<rparr>"

text \<open>The condition is looked at before the first sleep and after each wake-up.\<close>

definition look :: "nat \<Rightarrow> wait_sys \<Rightarrow> wait_sys" where
  "look i s =
     (if data_ready s then set_reader i Passed s
      else (set_reader i Asleep s)\<lparr>wait_queue := wait_queue s @ [i]\<rparr>)"

text \<open>
  A turn of reader \<open>i\<close>; \<open>signal\<close> is the answer of \<open>signal_pending\<close>, which the function asks for
  after the wait. A sleeper whom nobody woke stays asleep unless a signal is pending; then it
  leaves the queue and the function returns. \<open>None\<close> is a read outside the disk.
\<close>

definition mycdrv_wait_read :: "uaccess \<Rightarrow> bool \<Rightarrow> nat \<Rightarrow> wait_sys \<Rightarrow> wait_sys option" where
  "mycdrv_wait_read ua signal i s =
     (case r_state (readers s ! i) of
        Calling \<Rightarrow> Some (look i s)
      | Woken \<Rightarrow> Some (look i s)
      | Asleep \<Rightarrow>
          Some (if signal
                then (set_reader i (Finished (- ERESTARTSYS) []) s)\<lparr>wait_queue := removeAll i (wait_queue s)\<rparr>
                else s)
      | Passed \<Rightarrow>
          (if signal then Some (set_reader i (Finished (- ERESTARTSYS) []) s)
           else
            (let s = s\<lparr>data_ready := False\<rparr>
             in case mycdrv_generic_read ua (w_ram s) (r_lbuf (readers s ! i)) (r_pos (readers s ! i)) of
                  None \<Rightarrow> None
                | Some (nbytes, out, pos) \<Rightarrow>
                    Some (s\<lparr>readers := (readers s)[i := (readers s ! i)
                              \<lparr>r_state := Finished nbytes out, r_pos := pos\<rparr>]\<rparr>)))
      | Finished _ _ \<Rightarrow> Some s)"

text \<open>\<open>wake_up_interruptible\<close> wakes the first of the exclusive sleepers.\<close>

definition wake_up :: "wait_sys \<Rightarrow> wait_sys" where
  "wake_up s =
     (case wait_queue s of
        [] \<Rightarrow> s
      | i # rest \<Rightarrow> (set_reader i Woken s)\<lparr>wait_queue := rest\<rparr>)"

definition mycdrv_wait_write :: "uaccess \<Rightarrow> byte list \<Rightarrow> int \<Rightarrow> int \<Rightarrow> wait_sys \<Rightarrow> (int \<times> int \<times> wait_sys) option" where
  "mycdrv_wait_write ua buf lbuf pos s =
     (case mycdrv_generic_write ua (w_ram s) buf lbuf pos of
        None \<Rightarrow> None
      | Some (nbytes, pos, ram) \<Rightarrow> Some (nbytes, pos, wake_up (s\<lparr>w_ram := ram, data_ready := True\<rparr>)))"

datatype wait_event = Turn nat bool | WriteCall "byte list" int

text \<open>A schedule of turns and whole writes.\<close>

fun wait_run :: "wait_event list \<Rightarrow> wait_sys \<Rightarrow> wait_sys option" where
  "wait_run [] s = Some s"
| "wait_run (e # es) s =
     (case (case e of
              Turn i signal \<Rightarrow> if i < length (readers s) then mycdrv_wait_read all_copied signal i s else Some s
            | WriteCall buf pos \<Rightarrow>
                map_option (\<lambda>(n, pos, t). t) (mycdrv_wait_write all_copied buf (int (length buf)) pos s)) of
        None \<Rightarrow> None
      | Some t \<Rightarrow> wait_run es t)"

text \<open>As the module is loaded, with \<open>n\<close> readers about to call.\<close>

definition wait_loaded :: "byte list \<Rightarrow> (int \<times> int) list \<Rightarrow> wait_sys" where
  "wait_loaded ram rs =
     \<lparr>w_ram = ram, data_ready = False, wait_queue = [],
      readers = map (\<lambda>(lbuf, pos). \<lparr>r_state = Calling, r_lbuf = lbuf, r_pos = pos\<rparr>) rs\<rparr>"

subsection \<open>Nobody passes before a write\<close>

text \<open>
  The states before the first write: the flag is clear, everybody is calling, asleep or
  interrupted, and the queue holds those who are asleep.
\<close>

definition quiet :: "wait_sys \<Rightarrow> bool" where
  "quiet s \<longleftrightarrow> \<not> data_ready s \<and>
     (\<forall>r \<in> set (readers s). r_state r \<in> {Calling, Asleep, Finished (- ERESTARTSYS) []}) \<and>
     set (wait_queue s) = {i. i < length (readers s) \<and> r_state (readers s ! i) = Asleep} \<and>
     distinct (wait_queue s)"

lemma quiet_loaded: "quiet (wait_loaded ram rs)"
  by (auto simp: quiet_def wait_loaded_def split: prod.splits)

lemma quiet_set_reader:
  assumes "quiet s" "i < length (readers s)" "st \<in> {Calling, Asleep, Finished (- ERESTARTSYS) []}"
    and "set q = {j. j < length (readers s) \<and> (if j = i then st = Asleep else r_state (readers s ! j) = Asleep)}"
    and "distinct q"
  shows "quiet ((set_reader i st s)\<lparr>wait_queue := q\<rparr>)"
proof -
  have "r_state (readers (set_reader i st s) ! j) = (if j = i then st else r_state (readers s ! j))"
    if "j < length (readers s)" for j
    using assms(2) that by (simp add: set_reader_def nth_list_update)
  then have "set q = {j. j < length (readers s) \<and> r_state (readers (set_reader i st s) ! j) = Asleep}"
    using assms(4) by auto
  moreover have "\<forall>r \<in> set (readers (set_reader i st s)). r_state r \<in> {Calling, Asleep, Finished (- ERESTARTSYS) []}"
    using assms(1,3) by (auto simp: set_reader_def quiet_def dest!: set_update_subset_insert [THEN subsetD])
  ultimately show ?thesis using assms(1,5) by (simp add: quiet_def set_reader_def)
qed

lemma quiet_turn:
  assumes "quiet s" "i < length (readers s)"
  shows "\<exists>t. mycdrv_wait_read all_copied signal i s = Some t \<and> quiet t \<and> w_ram t = w_ram s \<and>
    length (readers t) = length (readers s)"
proof -
  have st: "r_state (readers s ! i) \<in> {Calling, Asleep, Finished (- ERESTARTSYS) []}"
    and nr: "\<not> data_ready s" and q: "distinct (wait_queue s)"
      "set (wait_queue s) = {i. i < length (readers s) \<and> r_state (readers s ! i) = Asleep}"
    using assms by (auto simp: quiet_def)
  consider "r_state (readers s ! i) = Calling" | "r_state (readers s ! i) = Asleep" "signal"
    | "r_state (readers s ! i) = Asleep" "\<not> signal" | "r_state (readers s ! i) = Finished (- ERESTARTSYS) []"
    using st by blast
  then show ?thesis
  proof cases
    case 1
    then have "quiet ((set_reader i Asleep s)\<lparr>wait_queue := wait_queue s @ [i]\<rparr>)"
      using assms q by (intro quiet_set_reader) auto
    then show ?thesis using 1 nr by (simp add: mycdrv_wait_read_def look_def set_reader_def)
  next
    case 2
    then have "quiet ((set_reader i (Finished (- ERESTARTSYS) []) s)\<lparr>wait_queue := removeAll i (wait_queue s)\<rparr>)"
      using assms q by (intro quiet_set_reader) (auto simp: distinct_removeAll)
    then show ?thesis using 2 by (simp add: mycdrv_wait_read_def set_reader_def)
  next
    case 3
    then show ?thesis using assms by (simp add: mycdrv_wait_read_def)
  next
    case 4
    then show ?thesis using assms by (simp add: mycdrv_wait_read_def)
  qed
qed

lemma quiet_turns:
  assumes "quiet s"
  shows "\<exists>t. wait_run (map (\<lambda>(i, signal). Turn i signal) sched) s = Some t \<and> quiet t \<and> w_ram t = w_ram s \<and>
    length (readers t) = length (readers s)"
  using assms
proof (induction sched arbitrary: s)
  case Nil
  then show ?case by simp
next
  case (Cons e sched)
  obtain i signal where e: "e = (i, signal)" by fastforce
  show ?case
  proof (cases "i < length (readers s)")
    case True
    from quiet_turn [OF Cons.prems this, of signal] obtain u where
      u: "mycdrv_wait_read all_copied signal i s = Some u" "quiet u" "w_ram u = w_ram s"
        "length (readers u) = length (readers s)" by blast
    from Cons.IH [OF u(2)] u True e show ?thesis by auto
  next
    case False
    then show ?thesis using Cons.IH [OF Cons.prems] e by auto
  qed
qed

subsection \<open>A write lets a reader through\<close>

text \<open>
  With everybody calling or asleep, a write wakes the reader that has slept longest; in its next
  two turns it reads the disk.
\<close>

lemma write_wakes_first:
  assumes q: "quiet s" and "length (w_ram s) = 65536" "wait_queue s = i # rest" "0 \<le> p" "p + int (length bs) \<le> 65536"
    and "r_pos (readers s ! i) = p" "r_lbuf (readers s ! i) = int (length bs)"
  shows "\<exists>u t. mycdrv_wait_write all_copied bs (int (length bs)) p s = Some (int (length bs), p + int (length bs), u) \<and>
    wait_run [Turn i False, Turn i False] u = Some t \<and>
    r_state (readers t ! i) = Finished (int (length bs)) bs \<and> \<not> data_ready t \<and> wait_queue t = rest"
proof -
  have i: "i < length (readers s)" "r_state (readers s ! i) = Asleep" "\<not> data_ready s"
    using q assms(3) by (auto simp: quiet_def)
  let ?ram = "blit (w_ram s) (nat p) bs"
  have wr: "mycdrv_generic_write all_copied (w_ram s) bs (int (length bs)) p =
      Some (int (length bs), p + int (length bs), ?ram)"
    using ram_write_inside [of all_copied p "w_ram s" "int (length bs)" bs] assms(2,4,5)
    by (simp add: mycdrv_generic_write_def Let_def min_absorb1)
  have len: "length ?ram = 65536" "nat p + length bs \<le> length (w_ram s)" using assms(2,4,5) by (simp_all add: blit_def)
  have rd: "mycdrv_generic_read all_copied ?ram (int (length bs)) p = Some (int (length bs), bs, p + int (length bs))"
    using ram_read_inside [of all_copied p ?ram "int (length bs)"] assms(4,5) len take_drop_blit [OF len(2)]
    by (simp add: mycdrv_generic_read_def Let_def min_absorb1)
  let ?s1 = "(set_reader i Woken (s\<lparr>w_ram := ?ram, data_ready := True\<rparr>))\<lparr>wait_queue := rest\<rparr>"
  let ?s2 = "set_reader i Passed ?s1"
  have s1: "mycdrv_wait_write all_copied bs (int (length bs)) p s = Some (int (length bs), p + int (length bs), ?s1)"
    using wr assms(3) by (simp add: mycdrv_wait_write_def wake_up_def set_reader_def)
  have s2: "mycdrv_wait_read all_copied False i ?s1 = Some ?s2"
    using i(1) by (simp add: mycdrv_wait_read_def look_def set_reader_def)
  have "\<exists>t. mycdrv_wait_read all_copied False i ?s2 = Some t \<and>
      r_state (readers t ! i) = Finished (int (length bs)) bs \<and> \<not> data_ready t \<and> wait_queue t = rest"
    using i(1) rd assms(6,7) by (simp add: mycdrv_wait_read_def set_reader_def Let_def)
  then show ?thesis using s1 s2 i(1) by (auto simp: set_reader_def)
qed



text \<open>
  One write can let two readers through, when the second calls before the first, which has
  been woken, has cleared the flag; and one write can let nobody through, when the woken reader
  finds a signal: the other sleeper is not woken although the flag stays set.
\<close>

lemma wait_wakeups_miscounted:
  assumes "length ram = 65536" "0 \<le> p" "p \<le> 65536" "0 \<le> n"
  shows "(\<exists>t n1 n2 out1 out2. wait_run [Turn 0 False, WriteCall [] p, Turn 0 False, Turn 1 False, Turn 0 False, Turn 1 False]
      (wait_loaded ram [(n, p), (n, p)]) = Some t \<and>
      map r_state (readers t) = [Finished n1 out1, Finished n2 out2] \<and> 0 \<le> n1 \<and> 0 \<le> n2) \<and>
    (\<exists>t. wait_run [Turn 0 False, Turn 1 False, WriteCall [] p, Turn 0 False, Turn 0 True]
      (wait_loaded ram [(n, p), (n, p)]) = Some t \<and>
      map r_state (readers t) = [Finished (- ERESTARTSYS) [], Asleep] \<and> data_ready t)"
proof -
  have wr: "mycdrv_generic_write all_copied ram [] 0 p = Some (0, p, ram)"
    using ram_write_inside [of all_copied p ram 0 "[]"] assms by (simp add: mycdrv_generic_write_def Let_def)
  obtain r out where rd: "mycdrv_generic_read all_copied ram n p = Some (r, out, p + r)" "0 \<le> r"
    using ram_safe(1) [of p ram n all_copied] assms unfolding mycdrv_generic_read_def by auto
  note defs = wait_loaded_def mycdrv_wait_read_def mycdrv_wait_write_def look_def set_reader_def wake_up_def Let_def
  show ?thesis using wr rd by (auto simp: defs)
qed

end
