(* ===== verification/Lab_Modules.thy ===== *)
theory Lab_Modules
  imports Modules Lab_Wait Lab_Proc
begin

section \<open>Loading and unloading the labs' modules\<close>

text \<open>
  The \<open>init\<close> and \<open>exit\<close> functions of the labs' drivers and status files, with the kernel's
  answers as arguments, and what they hold after any number of attempts to load them. The
  contract that the callers of a module rely on is the locale \<open>module_life\<close>; lab03's generic
  header does not meet it.
\<close>

text \<open>The static variables that say what a module has got, and the calls that were made.\<close>

record lab_module =
  lm_cdev :: bool
  lm_ram :: bool
  lm_proc :: bool
  lm_calls :: "kcall list"

definition lab_call :: "kcall \<Rightarrow> lab_module \<Rightarrow> lab_module" where
  "lab_call call s = s\<lparr>lm_calls := lm_calls s @ [call]\<rparr>"

text \<open>A module in memory: its static variables are zero.\<close>

definition lab_inserted :: lab_module where
  "lab_inserted = \<lparr>lm_cdev = False, lm_ram = False, lm_proc = False, lm_calls = []\<rparr>"

text \<open>\<open>kfree\<close> of a null pointer does nothing.\<close>

definition kfree_ram :: "lab_module \<Rightarrow> lab_module" where
  "kfree_ram s = (if lm_ram s then lab_call Kfree_ram s else s)"

lemma lab_call_fields [simp]:
  "lm_cdev (lab_call call s) = lm_cdev s" "lm_ram (lab_call call s) = lm_ram s"
  "lm_proc (lab_call call s) = lm_proc s" "lm_calls (lab_call call s) = lm_calls s @ [call]"
  by (simp_all add: lab_call_def)

lemma kfree_ram_fields [simp]:
  "lm_cdev (kfree_ram s) = lm_cdev s" "lm_proc (kfree_ram s) = lm_proc s"
  "lm_calls (kfree_ram s) = lm_calls s @ (if lm_ram s then [Kfree_ram] else [])"
  by (simp_all add: kfree_ram_def)

subsection \<open>The character devices\<close>

text \<open>
  What the kernel answers: the registration of the number, the allocation of the character
  device, that of the disk, and the activation.
\<close>

record lab_env =
  le_region :: int
  le_cdev :: bool
  le_ram :: bool
  le_add :: int

definition seek_init :: "lab_env \<Rightarrow> lab_module \<Rightarrow> int \<times> lab_module" where
  "seek_init e s =
     (if le_region e < 0 then (- 1, s)
      else
       (let s = lab_call Alloc_region s; s = s\<lparr>lm_cdev := le_cdev e\<rparr>
        in if \<not> lm_cdev s then (- 1, lab_call Unregister_region s)
           else
        (let s = lab_call Cdev_alloc s;
             s = s\<lparr>lm_ram := le_ram e\<rparr>;
             s = (if lm_ram s then lab_call Kmalloc_ram s else s)
         in if le_add e < 0
            then (- 1, kfree_ram (lab_call Unregister_region (lab_call Cdev_del s)))
            else (0, s))))"

definition seek_exit :: "lab_module \<Rightarrow> lab_module" where
  "seek_exit s =
     (let s = (if lm_cdev s then lab_call Cdev_del s else s)
      in kfree_ram (lab_call Unregister_region s))"

text \<open>lab04 has no disk of the module's own.\<close>

definition private_init :: "lab_env \<Rightarrow> lab_module \<Rightarrow> int \<times> lab_module" where
  "private_init e s =
     (if le_region e < 0 then (- 1, s)
      else
       (let s = lab_call Alloc_region s; s = s\<lparr>lm_cdev := le_cdev e\<rparr>
        in if \<not> lm_cdev s then (- 1, lab_call Unregister_region s)
           else
        (let s = lab_call Cdev_alloc s
         in if le_add e < 0 then (- 1, lab_call Unregister_region (lab_call Cdev_del s))
            else (0, s))))"

definition private_exit :: "lab_module \<Rightarrow> lab_module" where
  "private_exit s =
     (let s = (if lm_cdev s then lab_call Cdev_del s else s) in lab_call Unregister_region s)"

subsection \<open>The generic device of lab03\<close>

text \<open>Neither the allocation's result is looked at, nor is the disk freed when the registration fails.\<close>

definition my_generic_init :: "bool \<Rightarrow> int \<Rightarrow> lab_module \<Rightarrow> int \<times> lab_module" where
  "my_generic_init kmalloc_ok misc_result s =
     (let s = s\<lparr>lm_ram := kmalloc_ok\<rparr>;
          s = (if lm_ram s then lab_call Kmalloc_ram s else s)
      in if misc_result \<noteq> 0 then (- EBUSY, s) else (0, lab_call Misc_register s))"

definition my_generic_exit :: "lab_module \<Rightarrow> lab_module" where
  "my_generic_exit s = kfree_ram (lab_call Misc_deregister s)"

text \<open>
  The driver of \<^verbatim>\<open>wait_event.c\<close> on top of it. \<open>old\<close> is what the memory of the disk had in it; a
  null pointer leads to no byte.
\<close>

definition wait_init :: "bool \<Rightarrow> int \<Rightarrow> byte list \<Rightarrow> wait_sys \<Rightarrow> lab_module \<Rightarrow> int \<times> wait_sys \<times> lab_module" where
  "wait_init kmalloc_ok misc_result old w s =
     (let w = w\<lparr>data_ready := False\<rparr>;
          (r, s) = my_generic_init kmalloc_ok misc_result s
      in (r, w\<lparr>w_ram := (if lm_ram s then old else [])\<rparr>, s))"

subsection \<open>The status files\<close>

definition proc_init :: "bool \<Rightarrow> lab_module \<Rightarrow> int \<times> lab_module" where
  "proc_init created s =
     (let s = s\<lparr>lm_proc := created\<rparr>
      in if \<not> lm_proc s then (- 1, s) else (0, lab_call Create_proc s))"

definition proc_exit :: "lab_module \<Rightarrow> lab_module" where
  "proc_exit s = (if lm_proc s then lab_call Remove_proc s else s)"

definition my_proc_init :: "bool \<Rightarrow> my_proc \<times> lab_module \<Rightarrow> int \<times> my_proc \<times> lab_module" where
  "my_proc_init created = (\<lambda>(p, s).
     (let s = s\<lparr>lm_proc := created\<rparr>
      in if \<not> lm_proc s then (- 1, p, s)
         else (0, p\<lparr>a := 0, b := 0, c := 0\<rparr>, lab_call Create_proc s)))"

definition my_proc_exit :: "lab_module \<Rightarrow> lab_module" where
  "my_proc_exit s = (if lm_proc s then lab_call Remove_proc s else s)"

subsection \<open>Opening\<close>

text \<open>\<open>open\<close> counts in a static variable; the result is always zero.\<close>

definition mycdrv_open :: "int \<Rightarrow> int \<times> int" where
  "mycdrv_open counter = (let counter = s32 (counter + 1) in (0, counter))"

definition mycdrv_generic_open :: "int \<Rightarrow> int \<times> int" where
  "mycdrv_generic_open counter = (let counter = s32 (counter + 1) in (0, counter))"

subsection \<open>The contract\<close>

text \<open>
  The calls of a sequence of attempts: each loads a fresh copy of the module and, where that
  succeeds, unloads it.
\<close>

fun load_cycles :: "('e \<Rightarrow> int \<times> lab_module) \<Rightarrow> (lab_module \<Rightarrow> lab_module) \<Rightarrow> 'e list \<Rightarrow> kcall list" where
  "load_cycles init exit [] = []"
| "load_cycles init exit (e # es) =
     (let (r, s) = init e
      in (if r < 0 then lm_calls s else lm_calls (exit s)) @ load_cycles init exit es)"

locale module_life =
  fixes init :: "'e \<Rightarrow> int \<times> lab_module" and exit :: "lab_module \<Rightarrow> lab_module"
  assumes fails_clean: "init e = (r, s) \<Longrightarrow> r < 0 \<Longrightarrow> held {} (lm_calls s) = Some {}"
    and exits_clean: "init e = (r, s) \<Longrightarrow> \<not> r < 0 \<Longrightarrow> held {} (lm_calls (exit s)) = Some {}"
begin

lemma cycles_balanced: "held {} (load_cycles init exit es) = Some {}"
  by (induction es) (auto simp: held_append dest: fails_clean exits_clean split: prod.splits)

text \<open>The same with one more load at the end: what is held is what that load holds.\<close>

lemma cycles_then_load:
  "init e = (r, s) \<Longrightarrow> held {} (load_cycles init exit es @ lm_calls s) = held {} (lm_calls s)"
  by (simp add: held_append cycles_balanced)

end

interpretation seek_life: module_life "\<lambda>e. seek_init e lab_inserted" seek_exit
  by unfold_locales
    (auto simp: seek_init_def seek_exit_def lab_inserted_def Let_def split: if_splits)

interpretation private_life: module_life "\<lambda>e. private_init e lab_inserted" private_exit
  by unfold_locales
    (auto simp: private_init_def private_exit_def lab_inserted_def Let_def split: if_splits)

interpretation proc_life: module_life "\<lambda>created. proc_init created lab_inserted" proc_exit
  by unfold_locales
    (auto simp: proc_init_def proc_exit_def lab_inserted_def Let_def split: if_splits)

interpretation my_proc_life:
  module_life "\<lambda>(created, p). let (r, p, s) = my_proc_init created (p, lab_inserted) in (r, s)" my_proc_exit
  by unfold_locales
    (auto simp: my_proc_init_def my_proc_exit_def lab_inserted_def Let_def split: if_splits)

subsection \<open>What the loads leave\<close>

abbreviation generic_cycles :: "(bool \<times> int) list \<Rightarrow> kcall list" where
  "generic_cycles es \<equiv>
     load_cycles (\<lambda>(kmalloc_ok, misc_result). my_generic_init kmalloc_ok misc_result lab_inserted)
       my_generic_exit es"

lemma generic_cycles_leak:
  "count_list (generic_cycles es) Kmalloc_ram =
   count_list (generic_cycles es) Kfree_ram + length [e \<leftarrow> es. fst e \<and> snd e \<noteq> 0]"
  by (induction es)
    (auto simp: my_generic_init_def my_generic_exit_def lab_inserted_def kfree_ram_def Let_def)


text \<open>
  The generic driver loads although it has no disk; the first read or write of a byte then goes
  through the null pointer.
\<close>

lemma wait_without_disk:
  assumes "wait_init False 0 old w lab_inserted = (r, w', s)" "0 < lbuf" "lbuf \<le> 65536" "int (length buf) = lbuf"
  shows "r = 0" and "\<not> data_ready w'"
    and "mycdrv_wait_write all_copied buf lbuf 0 w' = None"
    and "mycdrv_generic_read all_copied (w_ram w') lbuf 0 = None"
proof -
  have w: "w_ram w' = []" "r = 0" "\<not> data_ready w'"
    using assms(1) by (auto simp: wait_init_def my_generic_init_def lab_inserted_def Let_def)
  have n: "bytes_to_do 65536 lbuf 0 = lbuf"
    using assms(2,3) by (simp add: bytes_to_do_def)
  have "int (length (fst (copy_from_user all_copied 0 0 buf lbuf))) = lbuf"
    using assms(2-4) by (intro copy_from_user_length) simp_all
  then have f: "mycdrv_generic_write all_copied [] buf lbuf 0 = None"
    using assms(2,3) n by (auto simp: mycdrv_generic_write_def ram_write_def page_store_def Let_def split: prod.splits)
  show "r = 0" "\<not> data_ready w'" by fact+
  show "mycdrv_wait_write all_copied buf lbuf 0 w' = None"
    using w(1) f by (simp add: mycdrv_wait_write_def)
  show "mycdrv_generic_read all_copied (w_ram w') lbuf 0 = None"
    using w(1) n assms(2,3) by (simp add: mycdrv_generic_read_def ram_read_def page_bytes_def Let_def)
qed

text \<open>Opens are counted.\<close>

lemma opens_counted:
  assumes "0 \<le> i" "i + int n < 2147483648"
  shows "((\<lambda>k. snd (mycdrv_open k)) ^^ n) i = i + int n"
  using assms by (induction n) (simp_all add: mycdrv_open_def)

end
