(* ===== verification/Seek_Test.thy ===== *)
theory Seek_Test
  imports Lab_Modules Mmap_Test
begin

section \<open>The seek test, run on three drivers\<close>

text \<open>
  \<^verbatim>\<open>seek_test.c\<close> is in the repository three times, beside the drivers of assignment 1
  and of lab03 and beside the private disks of lab04; the copies differ in the name of the node. The
  program seeks to a position, writes a message there twice, seeks to the position again and
  reads one message back. It looks at no result.
\<close>

subsection \<open>The program\<close>

text \<open>What it prints: the codes that the calls return, and the message up to its first zero.\<close>

record report =
  codes :: "int list"
  shown :: "byte list"

text \<open>The position and the length of the message.\<close>

definition seek_args :: "string list \<Rightarrow> int \<times> int" where
  "seek_args argv =
     (if 2 < length argv then atoi (argv ! 2) else 0, if 3 < length argv then atoi (argv ! 3) else 20)"

text \<open>
  \<open>malloc\<close> is the answer of the allocator for a size. The store at \<open>message[length - 1]\<close> is outside
  the message where it has no byte; the output runs on behind the message where it has no zero.
\<close>

definition seek_test :: "'s calls \<Rightarrow> (int \<Rightarrow> bool) \<Rightarrow> string list \<Rightarrow> 's \<Rightarrow> (report ended \<times> 's) option" where
  "seek_test dev malloc argv s =
     (let (position, len) = seek_args argv
      in if \<not> malloc len then Some (Killed, s)
         else if len \<le> 0 then Some (Strays, s)
         else let message = (replicate (nat len) 120)[nat (len - 1) := 0]
         in andthen (result_code (do_open dev s)) (\<lambda>fd s.
            andthen (result_code (on_fd fd s (do_lseek dev s position))) (\<lambda>rc1 s.
            andthen (result_code (on_fd fd s (do_write dev s message len))) (\<lambda>rc2 s.
            andthen (result_code (on_fd fd s (do_write dev s message len))) (\<lambda>rc3 s.
            andthen (result_code (on_fd fd s (do_lseek dev s position))) (\<lambda>rc4 s.
              (case on_fd fd s (do_read dev s len) of
                 (Oopses, s) \<Rightarrow> Some (Killed, s)
               | (r, s) \<Rightarrow>
                   (let (rc5, bytes) = (case r of Gives bs \<Rightarrow> (int (length bs), bs) | _ \<Rightarrow> (- 1, []));
                        message = bytes @ replicate (nat len - length bytes) 0
                    in if 0 \<notin> set message then Some (Strays, s)
                       else Some (Returns \<lparr>codes = [fd, rc1, rc2, rc3, rc4, rc5],
                                          shown = takeWhile (\<lambda>c. c \<noteq> 0) message\<rparr>,
                                  snd (on_fd fd s (do_close dev s)))))))))))"

subsection \<open>The drivers behind it\<close>

text \<open>The RAM disk of lab03, with its counter of opens, and the position of the file.\<close>

record 'd opened =
  disk_of :: 'd
  at_pos :: int

definition mycdrv_calls :: "nat \<Rightarrow> (byte list \<times> int) opened calls" where
  "mycdrv_calls fd =
     \<lparr>do_open = (\<lambda>s. let (r, counter) = mycdrv_open (snd (disk_of s))
        in (answer_of r (int fd), s\<lparr>disk_of := (fst (disk_of s), counter), at_pos := 0\<rparr>)),
      do_lseek = (\<lambda>s off. let (r, pos) = mycdrv_lseek (fst (disk_of s)) (at_pos s) off SEEK_SET
        in (answer_of r r, s\<lparr>at_pos := pos\<rparr>)),
      do_write = (\<lambda>s buf n. case mycdrv_write all_copied (fst (disk_of s)) buf n (at_pos s) of
          None \<Rightarrow> (Oopses, s)
        | Some (r, pos, ram) \<Rightarrow> (answer_of r r, s\<lparr>disk_of := (ram, snd (disk_of s)), at_pos := pos\<rparr>)),
      do_read = (\<lambda>s n. case mycdrv_read all_copied (fst (disk_of s)) n (at_pos s) of
          None \<Rightarrow> (Oopses, s)
        | Some (r, out, pos) \<Rightarrow> (answer_of r (take (nat r) out), s\<lparr>at_pos := pos\<rparr>)),
      do_close = (\<lambda>s. (answer_of mycdrv_release mycdrv_release, s))\<rparr>"

text \<open>A private disk of lab04, which \<open>open\<close> makes; the answers of its two allocations are arguments.\<close>

definition private_calls :: "nat \<Rightarrow> bool \<Rightarrow> bool \<Rightarrow> private_ramdisk opened calls" where
  "private_calls fd kmalloc_ok kcalloc_ok =
     \<lparr>do_open = (\<lambda>s. case private_open kmalloc_ok kcalloc_ok of
          None \<Rightarrow> (Oopses, s)
        | Some d \<Rightarrow> (Gives (int fd), s\<lparr>disk_of := d, at_pos := 0\<rparr>)),
      do_lseek = (\<lambda>s off. let (r, pos) = private_lseek (disk_of s) (at_pos s) off SEEK_SET
        in (answer_of r r, s\<lparr>at_pos := pos\<rparr>)),
      do_write = (\<lambda>s buf n. case private_write all_copied (disk_of s) buf n (at_pos s) of
          None \<Rightarrow> (Oopses, s)
        | Some (r, pos, d) \<Rightarrow> (answer_of r r, s\<lparr>disk_of := d, at_pos := pos\<rparr>)),
      do_read = (\<lambda>s n. case private_read all_copied (disk_of s) n (at_pos s) of
          None \<Rightarrow> (Oopses, s)
        | Some (r, out, pos) \<Rightarrow> (answer_of r (take (nat r) out), s\<lparr>at_pos := pos\<rparr>)),
      do_close = (\<lambda>s. let (r, freed, _) = private_release (disk_of s) in (answer_of r r, s))\<rparr>"

text \<open>The driver of assignment 1 in its system.\<close>

definition asgn1_calls :: "nat \<Rightarrow> asgn1_sys calls" where
  "asgn1_calls fd =
     \<lparr>do_open = (\<lambda>s. case sys_result s (asgn1_call s (Open fd O_RDWR)) of
          (Gives _, t) \<Rightarrow> (Gives (int fd), t)
        | r \<Rightarrow> r),
      do_lseek = sys_lseek fd,
      do_write = sys_write fd all_copied,
      do_read = sys_read fd all_copied,
      do_close = (\<lambda>s. sys_result s (asgn1_call s (Close fd)))\<rparr>"

definition mycdrv_seek_test :: "nat \<Rightarrow> (int \<Rightarrow> bool) \<Rightarrow> string list \<Rightarrow> (byte list \<times> int) opened \<Rightarrow>
    (report ended \<times> (byte list \<times> int) opened) option" where
  "mycdrv_seek_test fd = seek_test (mycdrv_calls fd)"

definition private_seek_test :: "nat \<Rightarrow> bool \<Rightarrow> bool \<Rightarrow> (int \<Rightarrow> bool) \<Rightarrow> string list \<Rightarrow> private_ramdisk opened \<Rightarrow>
    (report ended \<times> private_ramdisk opened) option" where
  "private_seek_test fd kmalloc_ok kcalloc_ok = seek_test (private_calls fd kmalloc_ok kcalloc_ok)"

definition asgn1_seek_test :: "nat \<Rightarrow> (int \<Rightarrow> bool) \<Rightarrow> string list \<Rightarrow> asgn1_sys \<Rightarrow>
    (report ended \<times> asgn1_sys) option" where
  "asgn1_seek_test fd = seek_test (asgn1_calls fd)"

subsection \<open>What the program expects of a device\<close>

text \<open>
  \<open>start s p n\<close>: before it is opened, the device has room for \<open>n\<close> bytes at position \<open>p\<close>; \<open>room\<close> the
  same once it is open, \<open>holds s p bs\<close>: the device has the bytes \<open>bs\<close> at \<open>p\<close>.
\<close>

locale seekable =
  fixes dev :: "'s calls" and fd :: nat
    and start :: "'s \<Rightarrow> int \<Rightarrow> int \<Rightarrow> bool"
    and room :: "'s \<Rightarrow> int \<Rightarrow> int \<Rightarrow> bool"
    and pos :: "'s \<Rightarrow> int"
    and holds :: "'s \<Rightarrow> int \<Rightarrow> byte list \<Rightarrow> bool"
  assumes opens: "start s p n \<Longrightarrow> \<exists>t. do_open dev s = (Gives (int fd), t) \<and> room t p n"
    and room_bounds: "room s p n \<Longrightarrow> 0 \<le> p"
    and seeks_room: "room s p n \<Longrightarrow> 0 < n \<Longrightarrow> \<exists>t. do_lseek dev s p = (Gives p, t) \<and> pos t = p \<and> room t p n"
    and writes: "room s p (int (length bs) + n) \<Longrightarrow> pos s = p \<Longrightarrow> bs \<noteq> [] \<Longrightarrow> length bs < 2147483648 \<Longrightarrow> 0 \<le> n \<Longrightarrow>
      \<exists>t. do_write dev s bs (int (length bs)) = (Gives (int (length bs)), t) \<and> pos t = p + int (length bs) \<and>
        room t (p + int (length bs)) n \<and> holds t p bs \<and>
        (\<forall>q cs. holds s q cs \<longrightarrow> q + int (length cs) \<le> p \<longrightarrow> holds t q cs)"
    and seeks_held: "holds s p bs \<Longrightarrow> bs \<noteq> [] \<Longrightarrow> \<exists>t. do_lseek dev s p = (Gives p, t) \<and> pos t = p \<and> holds t p bs"
    and reads: "holds s p bs \<Longrightarrow> pos s = p \<Longrightarrow> bs \<noteq> [] \<Longrightarrow> length bs < 2147483648 \<Longrightarrow>
      \<exists>t. do_read dev s (int (length bs)) = (Gives bs, t)"
begin

lemma test_passes:
  assumes "int fd < 2147483648" "seek_args argv = (p, len)" "p < 2147483648" "0 < len" "len < 2147483648"
    and "start s p (2 * len)" "malloc len"
  shows "\<exists>t. seek_test dev malloc argv s =
    Some (Returns \<lparr>codes = [int fd, p, len, len, p, len], shown = replicate (nat (len - 1)) 120\<rparr>, t)"
proof -
  define msg where "msg = (replicate (nat len) (120 :: byte))[nat (len - 1) := 0]"
  have len: "int (length msg) = len" using assms(4) by (simp add: msg_def)
  then have ne: "msg \<noteq> []" "length msg < 2147483648" using assms(4,5) by auto
  have split: "msg = replicate (nat (len - 1)) 120 @ [0]"
    using assms(4) by (intro nth_equalityI) (auto simp: msg_def nth_list_update nth_append)
  obtain s1 where 1: "do_open dev s = (Gives (int fd), s1)" "room s1 p (2 * len)" using opens assms(6) by blast
  obtain s2 where 2: "do_lseek dev s1 p = (Gives p, s2)" "pos s2 = p" "room s2 p (2 * len)"
    using seeks_room [OF 1(2)] assms(4) by auto
  have r2: "room s2 p (int (length msg) + len)" using 2(3) len by simp
  obtain s3 where 3: "do_write dev s2 msg len = (Gives len, s3)" "pos s3 = p + len" "room s3 (p + len) len"
    "holds s3 p msg"
    using writes [OF r2 2(2) ne] assms(4) unfolding len by auto
  have r3: "room s3 (p + len) (int (length msg) + 0)" using 3(3) len by simp
  obtain s4 where 4: "do_write dev s3 msg len = (Gives len, s4)" "holds s4 p msg"
    using writes [OF r3 3(2) ne] 3(4) len by fastforce
  obtain s5 where 5: "do_lseek dev s4 p = (Gives p, s5)" "pos s5 = p" "holds s5 p msg"
    using seeks_held [OF 4(2) ne(1)] by blast
  obtain s6 where 6: "do_read dev s5 len = (Gives msg, s6)" using reads [OF 5(3,2) ne] unfolding len by blast
  have "0 \<le> p" using room_bounds [OF 1(2)] .
  have rest: "nat len - length msg = 0" using len by simp
  have sh: "takeWhile (\<lambda>x. x \<noteq> 0) msg = replicate (nat (len - 1)) 120" "0 \<in> set msg"
    unfolding split by (simp_all add: takeWhile_append)
  show ?thesis
    using assms(1-5,7) 1(1) 2(1) 3(1) 4(1) 5(1) 6 \<open>0 \<le> p\<close> rest sh len
    by (simp add: seek_test_def on_fd_def flip: msg_def)
qed

end

subsection \<open>The disks of a fixed size\<close>

definition ram_room :: "byte list \<Rightarrow> int \<Rightarrow> int \<Rightarrow> bool" where
  "ram_room ram p n \<longleftrightarrow> 0 \<le> p \<and> p + n \<le> int (length ram) \<and> length ram < 2147483648"

definition ram_holds :: "byte list \<Rightarrow> int \<Rightarrow> byte list \<Rightarrow> bool" where
  "ram_holds ram p bs \<longleftrightarrow> ram_room ram p (int (length bs)) \<and> take (length bs) (drop (nat p) ram) = bs"

lemma strict_lseek_inside: "0 \<le> p \<Longrightarrow> p < n \<Longrightarrow> strict_lseek n q p SEEK_SET = (p, p)"
  by (simp add: strict_lseek_def)

lemma ram_holds_seek: "ram_holds ram p bs \<Longrightarrow> bs \<noteq> [] \<Longrightarrow> 0 \<le> p \<and> p < int (length ram)"
  by (cases bs) (auto simp: ram_holds_def ram_room_def)

lemma ram_read_held:
  "ram_holds ram p bs \<Longrightarrow> ram_read all_copied ram (int (length ram)) (int (length bs)) p =
    Some (int (length bs), bs, p + int (length bs))"
  using ram_read_inside [of all_copied p ram "int (length bs)"]
  by (simp add: ram_holds_def ram_room_def Let_def min_absorb1)

lemma ram_write_held:
  assumes "ram_room ram p (int (length bs) + n)" "0 \<le> n"
  shows "ram_write all_copied ram (int (length ram)) bs (int (length bs)) p =
      Some (int (length bs), p + int (length bs), blit ram (nat p) bs)"
    and "length (blit ram (nat p) bs) = length ram"
    and "ram_room (blit ram (nat p) bs) (p + int (length bs)) n" and "ram_holds (blit ram (nat p) bs) p bs"
    and "ram_holds ram q cs \<Longrightarrow> q + int (length cs) \<le> p \<Longrightarrow> ram_holds (blit ram (nat p) bs) q cs"
proof -
  have p: "0 \<le> p" "nat p + length bs \<le> length ram" "length ram < 2147483648"
    using assms by (auto simp: ram_room_def)
  show len: "length (blit ram (nat p) bs) = length ram" using p(2) by (rule length_blit)
  show "ram_write all_copied ram (int (length ram)) bs (int (length bs)) p =
      Some (int (length bs), p + int (length bs), blit ram (nat p) bs)"
    using ram_write_inside [of all_copied p ram "int (length bs)" bs] p
    by (simp add: Let_def min_absorb1)
  show "ram_room (blit ram (nat p) bs) (p + int (length bs)) n" "ram_holds (blit ram (nat p) bs) p bs"
    using assms len take_drop_blit [OF p(2)] by (simp_all add: ram_room_def ram_holds_def)
  assume q: "ram_holds ram q cs" "q + int (length cs) \<le> p"
  then have "nat q + length cs \<le> nat p" "nat p \<le> length ram" using p by (auto simp: ram_holds_def ram_room_def)
  then have "take (length cs) (drop (nat q) (blit ram (nat p) bs)) = take (length cs) (drop (nat q) ram)"
    by (simp add: blit_def take_drop)
  then show "ram_holds (blit ram (nat p) bs) q cs" using q(1) len by (simp add: ram_holds_def ram_room_def)
qed

interpretation mycdrv_node: seekable "mycdrv_calls fd" fd
    "\<lambda>s p n. length (fst (disk_of s)) = 65536 \<and> ram_room (fst (disk_of s)) p n"
    "\<lambda>s p n. length (fst (disk_of s)) = 65536 \<and> ram_room (fst (disk_of s)) p n" at_pos
    "\<lambda>s p bs. length (fst (disk_of s)) = 65536 \<and> ram_holds (fst (disk_of s)) p bs"
  for fd
proof (unfold_locales, goal_cases)
  case (1 s p n)
  then show ?case by (simp add: mycdrv_calls_def mycdrv_open_def Let_def)
next
  case (2 s p n)
  then show ?case by (simp add: ram_room_def)
next
  case (3 s p n)
  then show ?case
    by (simp add: mycdrv_calls_def mycdrv_lseek_def strict_lseek_inside ram_room_def)
next
  case (4 s p bs n)
  then have room: "ram_room (fst (disk_of s)) p (int (length bs) + n)" and len: "length (fst (disk_of s)) = 65536"
    by simp_all
  from ram_write_held [OF room 4(5)] len show ?case
    using 4(2) by (simp add: mycdrv_calls_def mycdrv_write_def)
next
  case (5 s p bs)
  then show ?case
    using ram_holds_seek [of "fst (disk_of s)" p bs]
    by (simp add: mycdrv_calls_def mycdrv_lseek_def strict_lseek_inside)
next
  case (6 s p bs)
  then show ?case
    using ram_read_held [of "fst (disk_of s)" p bs] by (simp add: mycdrv_calls_def mycdrv_read_def)
qed

interpretation private_node: seekable "private_calls fd True True" fd
    "\<lambda>s p n. 0 \<le> p \<and> p + n \<le> 4096"
    "\<lambda>s p n. pr_size (disk_of s) = int (length (pr_data (disk_of s))) \<and> ram_room (pr_data (disk_of s)) p n" at_pos
    "\<lambda>s p bs. pr_size (disk_of s) = int (length (pr_data (disk_of s))) \<and> ram_holds (pr_data (disk_of s)) p bs"
  for fd
proof (unfold_locales, goal_cases)
  case (1 s p n)
  then show ?case by (simp add: private_calls_def private_open_def ram_room_def)
next
  case (2 s p n)
  then show ?case by (simp add: ram_room_def)
next
  case (3 s p n)
  then show ?case
    by (simp add: private_calls_def private_lseek_def strict_lseek_inside ram_room_def)
next
  case (4 s p bs n)
  then have "ram_room (pr_data (disk_of s)) p (int (length bs) + n)" by simp
  from ram_write_held [OF this 4(5)] 4(1,2) show ?case by (simp add: private_calls_def private_write_def)
next
  case (5 s p bs)
  then show ?case
    using ram_holds_seek [of "pr_data (disk_of s)" p bs]
    by (simp add: private_calls_def private_lseek_def strict_lseek_inside)
next
  case (6 s p bs)
  then show ?case
    using ram_read_held [of "pr_data (disk_of s)" p bs] by (simp add: private_calls_def private_read_def)
qed

subsection \<open>The driver of assignment 1\<close>

definition node_room :: "nat \<Rightarrow> asgn1_sys \<Rightarrow> int \<Rightarrow> int \<Rightarrow> bool" where
  "node_room fd s p n \<longleftrightarrow> machine_ok (kmem_of s) (dev_of s) \<and> files s fd \<noteq> None \<and>
     writable (kmem_of s) (dev_of s) p n \<and> p \<le> num_pages (dev_of s) * 4096"

definition node_holds :: "nat \<Rightarrow> asgn1_sys \<Rightarrow> int \<Rightarrow> byte list \<Rightarrow> bool" where
  "node_holds fd s p bs \<longleftrightarrow> machine_ok (kmem_of s) (dev_of s) \<and> files s fd \<noteq> None \<and>
     0 \<le> p \<and> p + int (length bs) \<le> data_size (dev_of s) \<and>
     take (length bs) (drop (nat p) (flat (mem_list (dev_of s)))) = bs"

definition node_ready :: "asgn1_sys \<Rightarrow> int \<Rightarrow> int \<Rightarrow> bool" where
  "node_ready s p n \<longleftrightarrow> machine_ok (kmem_of s) (dev_of s) \<and> nprocs (dev_of s) < max_nprocs (dev_of s) \<and>
     writable (kmem_of s) (dev_of s) p n \<and> p \<le> num_pages (dev_of s) * 4096"

lemma sys_lseek_inside:
  assumes "dev_inv (dev_of s)" "0 \<le> p" "p \<le> num_pages (dev_of s) * 4096"
  shows "sys_lseek fd s p = (Gives p, set_pos fd p s)"
  using assms dev_invD(2,6) [OF assms(1)] by (simp add: sys_lseek_def sys_result_def asgn1_lseek_def Let_def)

lemma node_holds_set_pos [simp]: "node_holds fd (set_pos fd q s) p bs = node_holds fd s p bs"
  by (simp add: node_holds_def)

lemma node_room_set_pos [simp]: "node_room fd (set_pos fd q s) p n = node_room fd s p n"
  by (simp add: node_room_def)

lemma node_write:
  assumes "node_room fd s p (int (length bs) + n)" "pos_of s fd = p" "0 \<le> n"
  shows "\<exists>t. sys_write fd all_copied s bs (int (length bs)) = (Gives (int (length bs)), t) \<and>
    data_size (dev_of t) = max (data_size (dev_of s)) (p + int (length bs)) \<and>
    num_pages (dev_of t) = max (num_pages (dev_of s)) (pages_for (p + int (length bs))) \<and>
    pos_of t fd = p + int (length bs) \<and> node_room fd t (p + int (length bs)) n \<and> node_holds fd t p bs \<and>
    (\<forall>q cs. node_holds fd s q cs \<longrightarrow> q + int (length cs) \<le> p \<longrightarrow> node_holds fd t q cs)"
proof -
  let ?s = "(kmem_of s, dev_of s)" and ?n = "int (length bs)"
  have m: "disk_ok ?s" and f: "files s fd \<noteq> None" and w: "writable (kmem_of s) (dev_of s) p (?n + n)"
    and reach: "p \<le> num_pages (dev_of s) * 4096"
    using assms(1) by (simp_all add: node_room_def disk_ok_def)
  have p: "0 \<le> p" using w by (simp add: writable_def)
  have fit: "disk_fits ?s p ?n" using writable_prefix [OF w] assms(3) by (simp add: disk_fits_def)
  define k where "k = fst (disk_put ?s p bs)"
  define d where "d = snd (disk_put ?s p bs)"
  obtain fill where put: "asgn1_write all_copied (kmem_of s) (dev_of s) bs ?n p = Some (?n, p + ?n, k, d)"
    "disk_ok (k, d)" "disk_size (k, d) = max (disk_size ?s) (p + ?n)"
    "flat (mem_list d) = blit (flat (mem_list (dev_of s)) @ fill) (nat p) bs"
    "\<And>n. writable (kmem_of s) (dev_of s) p (?n + n) \<Longrightarrow> 0 \<le> n \<Longrightarrow> writable k d (p + ?n) n"
    using disk_put_ok [OF m fit] unfolding fst_conv snd_conv k_def d_def prod.collapse by blast
  then have r: "asgn1_write all_copied (kmem_of s) (dev_of s) bs ?n p = Some (?n, p + ?n, k, d)" "machine_ok k d"
    "data_size d = max (data_size (dev_of s)) (p + ?n)"
    "flat (mem_list d) = blit (flat (mem_list (dev_of s)) @ fill) (nat p) bs" "writable k d (p + ?n) n"
    using w assms(3) by (simp_all add: disk_ok_def disk_size_def)
  define t where "t = set_pos fd (p + ?n) (s\<lparr>kmem_of := k, dev_of := d\<rparr>)"
  have t: "dev_of t = d" "kmem_of t = k" "files t fd \<noteq> None" "pos_of t fd = p + ?n"
    using f by (simp_all add: t_def)
  note old = dev_invD(5,7) [OF machine_okD, of "kmem_of s" "dev_of s"]
  note new = dev_invD(5,7) [OF machine_okD [OF r(2)]]
  have lim: "nat p \<le> length (flat (mem_list (dev_of s)))"
    using old reach m p by (auto simp: disk_ok_def)
  have "take (length bs) (drop (nat p) (flat (mem_list d))) = bs"
    using lim unfolding r(4) by (simp add: blit_def)
  then have holds: "node_holds fd t p bs" using r(2,3) t p by (simp add: node_holds_def)
  have kept: "node_holds fd t q cs" if q: "node_holds fd s q cs" "q + int (length cs) \<le> p" for q cs
  proof -
    have "nat q + length cs \<le> nat p" using q by (auto simp: node_holds_def)
    then have "take (length cs) (drop (nat q) (flat (mem_list d))) =
        take (length cs) (drop (nat q) (flat (mem_list (dev_of s))))"
      using lim unfolding r(4) by (simp add: blit_def take_drop)
    then show ?thesis using q t r(2,3) by (simp add: node_holds_def)
  qed
  have "p + ?n \<le> num_pages d * 4096" using new(1) r(3) by linarith
  then have "node_room fd t (p + ?n) n" using r(2,5) t by (simp add: node_room_def)
  moreover have "sys_write fd all_copied s bs ?n = (Gives ?n, t)"
    using r(1) assms(2) by (simp add: sys_write_def sys_result_def t_def)
  moreover have "num_pages d = max (num_pages (dev_of s)) (pages_for (p + ?n))"
    using asgn1_write_ok [of "kmem_of s" "dev_of s" all_copied p ?n bs] m fit r(1)
    by (auto simp: disk_ok_def disk_fits_def)
  ultimately show ?thesis using holds kept t r(3) by blast
qed

interpretation asgn1_node: seekable "asgn1_calls fd" fd node_ready "node_room fd" "\<lambda>s. pos_of s fd" "node_holds fd"
  for fd
proof (unfold_locales, goal_cases)
  case (1 s p n)
  then show ?case
    by (simp add: asgn1_calls_def node_ready_def node_room_def sys_result_def asgn1_open_cases writable_def)
next
  case (2 s p n)
  then show ?case by (simp add: node_room_def writable_def)
next
  case (3 s p n)
  then have "dev_inv (dev_of s)" "0 \<le> p" "p \<le> num_pages (dev_of s) * 4096" "files s fd \<noteq> None"
    by (auto simp: node_room_def writable_def dest: machine_okD)
  then show ?case using 3(1) by (simp add: asgn1_calls_def sys_lseek_inside)
next
  case (4 s p bs n)
  from node_write [OF 4(1,2,5)] show ?case unfolding asgn1_calls_def calls.simps by blast
next
  case (5 s p bs)
  then have inv: "dev_inv (dev_of s)" "0 \<le> p" "files s fd \<noteq> None" "p \<le> data_size (dev_of s)"
    by (auto simp: node_holds_def dest: machine_okD)
  then have "p \<le> num_pages (dev_of s) * 4096" using dev_invD(5) [OF inv(1)] by linarith
  then show ?case using 5(1) inv by (simp add: asgn1_calls_def sys_lseek_inside)
next
  case (6 s p bs)
  then show ?case
    using asgn1_read_ok [OF machine_okD no_fault_all_copied, of "kmem_of s" "dev_of s" p "int (length bs)"]
    by (simp add: asgn1_calls_def sys_read_def node_holds_def min_absorb1)
qed

subsection \<open>Runs\<close>


lemma seek_args_default: "seek_args [''seek_test''] = (0, 20)"
  by (simp add: seek_args_def)

lemma node_ready_loaded: "0 \<le> n \<Longrightarrow> n \<le> 4096 \<Longrightarrow> node_ready (asgn1_loaded (clean_kmem 1)) 0 n"
proof -
  assume n: "0 \<le> n" "n \<le> 4096"
  then have "nat ((n + 4095) div 4096) \<le> 1" by linarith
  with mem_available_clean [of 1] have "mem_available (nat ((n + 4095) div 4096)) (clean_kmem 1)"
    by (rule mem_available_mono)
  then show ?thesis
    using n by (simp add: node_ready_def asgn1_loaded_def machine_ok_def dev_inv_def kmem_ok_clean supplied_clean
        writable_def pages_for_def)
qed


text \<open>
  On a freshly loaded driver of assignment 1 the test with a position behind two messages
  reads nothing back: the device has no page, so that the first seek ends at zero and the
  messages are written there; the second seek ends inside the new page, where there is no data. No
  call fails.
\<close>

lemma seek_test_misses:
  assumes "seek_args argv = (p, len)" "2 * len \<le> p" "p < 2147483648" "0 < len" "malloc len" "int fd < 2147483648"
    and "machine_ok (kmem_of s) (dev_of s)" "nprocs (dev_of s) < max_nprocs (dev_of s)"
    and "mem_list (dev_of s) = []" "writable (kmem_of s) (dev_of s) 0 (2 * len)"
  shows "\<exists>t. asgn1_seek_test fd malloc argv s =
      Some (Returns \<lparr>codes = [int fd, 0, len, len, min p (pages_for (2 * len) * 4096), 0], shown = []\<rparr>, t) \<and>
    contents (dev_of t) =
      (replicate (nat (len - 1)) 120 @ [0]) @ (replicate (nat (len - 1)) 120 @ [0])"
proof -
  define msg where "msg = replicate (nat (len - 1)) (120 :: byte) @ [0]"
  have len: "int (length msg) = len" using assms(4) by (simp add: msg_def)
  have msg: "(replicate (nat len) (120 :: byte))[nat (len - 1) := 0] = msg"
    using assms(4) by (intro nth_equalityI) (auto simp: msg_def nth_list_update nth_append)
  note inv = machine_okD [OF assms(7)]
  have empty: "num_pages (dev_of s) = 0" "data_size (dev_of s) = 0"
    using dev_invD(1,4,5) [OF inv] assms(9) by simp_all
  define s1 where "s1 = s\<lparr>dev_of := (dev_of s)\<lparr>nprocs := s32 (nprocs (dev_of s) + 1)\<rparr>,
    files := (files s)(fd \<mapsto> \<lparr>f_pos = 0, f_flags = O_RDWR\<rparr>)\<rparr>"
  have 1: "do_open (asgn1_calls fd) s = (Gives (int fd), s1)" "files s1 fd \<noteq> None"
    using assms(8) by (simp_all add: asgn1_calls_def sys_result_def asgn1_open_cases s1_def)
  have 2: "sys_lseek fd s1 p = (Gives 0, set_pos fd 0 s1)"
    using empty assms(2,4) by (simp add: sys_lseek_def sys_result_def asgn1_lseek_def Let_def s1_def)
  have "node_room fd (set_pos fd 0 s1) 0 (int (length msg) + len)"
    using assms(7,10) 1(2) empty len by (simp add: node_room_def s1_def writable_def)
  from node_write [OF this] assms(4) 1(2) obtain s2 where
    s2: "sys_write fd all_copied (set_pos fd 0 s1) msg len = (Gives len, s2)" "data_size (dev_of s2) = len"
    "num_pages (dev_of s2) = max 0 (pages_for len)" "pos_of s2 fd = len" "node_room fd s2 len len" "node_holds fd s2 0 msg"
    using empty len by (auto simp: s1_def)
  have "node_room fd s2 len (int (length msg) + 0)" using s2(5) len by simp
  from node_write [OF this s2(4)] obtain s3 where
    s3: "sys_write fd all_copied s2 msg len = (Gives len, s3)" "data_size (dev_of s3) = 2 * len"
    "num_pages (dev_of s3) = max (max 0 (pages_for len)) (pages_for (2 * len))"
    "node_holds fd s3 0 msg" "node_holds fd s3 len msg"
    using s2(2,3,6) len assms(4) by (auto simp: max_def)
  have pages: "num_pages (dev_of s3) = pages_for (2 * len)"
    using s3(3) assms(4) pages_for_mono [of len "2 * len"] pages_for_mono [of 0 len] by (simp add: pages_for_def)
  have inv3: "dev_inv (dev_of s3)" "files s3 fd \<noteq> None" using s3(4) by (auto simp: node_holds_def dest: machine_okD)
  define q where "q = min p (pages_for (2 * len) * 4096)"
  have q: "2 * len \<le> q" "q < 2147483648" "0 \<le> q"
    using dev_invD(5) [OF inv3(1)] s3(2) pages assms(2-4) by (auto simp: q_def)
  have 4: "sys_lseek fd s3 p = (Gives q, set_pos fd q s3)"
    using pages dev_invD(2,6) [OF inv3(1)] assms(2,4)
    by (auto simp: sys_lseek_def sys_result_def asgn1_lseek_def Let_def q_def)
  have 5: "sys_read fd all_copied (set_pos fd q s3) len = (Gives [], set_pos fd q (set_pos fd q s3))"
  proof (cases "2 * len < q")
    case True
    then show ?thesis
      using asgn1_read_past_end [of "dev_of s3" q all_copied len] s3(2) inv3(2) by (simp add: sys_read_def)
  next
    case False
    then have "q = data_size (dev_of s3)" using q s3(2) by simp
    then show ?thesis
      using asgn1_read_ok [OF inv3(1) no_fault_all_copied q(3), of len] assms(2-4) inv3(2) by (simp add: sys_read_def)
  qed
  define t where "t = snd (do_close (asgn1_calls fd) (set_pos fd q (set_pos fd q s3)))"
  have "asgn1_seek_test fd malloc argv s =
      Some (Returns \<lparr>codes = [int fd, 0, len, len, q, 0], shown = []\<rparr>, t)"
    using 1(1) 2 s2(1) s3(1) 4 5 assms(1-6) q msg
    by (simp add: asgn1_seek_test_def seek_test_def on_fd_def asgn1_calls_def t_def)
  moreover have "contents (dev_of t) = msg @ msg"
  proof -
    have nat_len: "nat (2 * len) = length msg + length msg" "nat len = length msg" using len by simp_all
    have "contents (dev_of t) = take (length msg + length msg) (flat (mem_list (dev_of s3)))"
      using s3(2) by (simp add: t_def asgn1_calls_def sys_result_def asgn1_release_def contents_def nat_len)
    also have "\<dots> = msg @ msg"
      using s3(4,5) by (simp add: take_add node_holds_def nat_len)
    finally show ?thesis .
  qed
  ultimately show ?thesis unfolding msg_def q_def by blast
qed

lemma seek_test_misses_example:
  "\<exists>t. asgn1_seek_test 3 (\<lambda>_. True) [''seek_test'', ''/dev/asgn1'', ''100''] (asgn1_loaded (clean_kmem 1)) =
    Some (Returns \<lparr>codes = [3, 0, 20, 20, 100, 0], shown = []\<rparr>, t)"
proof -
  have argv: "seek_args [''seek_test'', ''/dev/asgn1'', ''100''] = (100, 20)"
    by (simp add: seek_args_def atoi_def is_space_def is_digit_def digits_val_def digit_val_def)
  have ready: "node_ready (asgn1_loaded (clean_kmem 1)) 0 40" by (rule node_ready_loaded) simp_all
  show ?thesis
    using seek_test_misses [OF argv, of "\<lambda>_. True" 3 "asgn1_loaded (clean_kmem 1)"] ready
    by (auto simp: node_ready_def asgn1_loaded_def pages_for_def)
qed

end
