(* ===== verification/Wait_Programs.thy ===== *)
theory Wait_Programs
  imports Programs Lab_Wait
begin

section \<open>The programs that wait: lab03\<close>

text \<open>
  \<^verbatim>\<open>lab03/wait/read.c\<close> and \<^verbatim>\<open>lab03/wait/write.c\<close>, run on the driver of \<^verbatim>\<open>wait_event.c\<close>. The reading
  program is a reader of the driver from its call to the end of its wait; then it prints its
  buffer as a string.
\<close>

subsection \<open>The programs\<close>

text \<open>The number of bytes, and the reader that the driver sees: a new file starts at position zero.\<close>

definition read_nbytes :: "string list \<Rightarrow> int" where
  "read_nbytes argv = (if 2 < length argv then atoi (argv ! 2) else 32)"

definition read_starts :: "string list \<Rightarrow> reader" where
  "read_starts argv = \<lparr>r_state = Calling, r_lbuf = u32 (read_nbytes argv), r_pos = 0\<rparr>"

text \<open>
  What it prints: the result, and the buffer up to its first zero. The buffer is as \<open>malloc\<close> gave it
  (\<open>old\<close>) where the read did not fill it; without a zero the output runs on behind it.
\<close>

definition read_prints :: "byte list \<Rightarrow> int \<Rightarrow> byte list \<Rightarrow> (int \<times> byte list) ended" where
  "read_prints old rc out =
     (let buffer = out @ drop (length out) old
      in if 0 \<notin> set buffer then Strays
         else Returns (if rc < 0 then - 1 else rc, takeWhile (\<lambda>c. c \<noteq> 0) buffer))"

text \<open>The text of the writing program, and its run; it writes as much as \<open>strlen\<close> says.\<close>

definition write_text :: "byte list" where
  "write_text = map of_char ''TESTING CHAR DRIVER WITH A WRITE''"

definition write_program :: "wait_sys \<Rightarrow> int ended \<times> wait_sys" where
  "write_program s =
     (case mycdrv_wait_write all_copied write_text (int (length write_text)) 0 s of
        None \<Rightarrow> (Killed, s)
      | Some (rc, pos, t) \<Rightarrow> (Returns rc, t))"

subsection \<open>A meeting\<close>

lemma length_write_text [simp]: "length write_text = 32"
  by (simp add: write_text_def)

lemma write_text_no_zero: "0 \<notin> set write_text"
  by (simp add: write_text_def)

text \<open>
  A reading program that has slept longest gets the whole text of the writing program, which is as
  long as its buffer: no place is left for a zero, and what it prints runs on behind the buffer.
\<close>

lemma wait_programs_meet:
  assumes "quiet s" "length (w_ram s) = 65536" "wait_queue s = i # rest" "length old = 32"
    and "readers s ! i = (read_starts [''read''])\<lparr>r_state := Asleep\<rparr>"
  shows "\<exists>u t. write_program s = (Returns 32, u) \<and> wait_run [Turn i False, Turn i False] u = Some t \<and>
    r_state (readers t ! i) = Finished 32 write_text \<and> wait_queue t = rest \<and>
    read_prints old 32 write_text = Strays"
proof -
  have "r_lbuf (readers s ! i) = int (length write_text)" "r_pos (readers s ! i) = 0"
    using assms(5) by (simp_all add: read_starts_def read_nbytes_def)
  from write_wakes_first [OF assms(1-3) order_refl _ this(2,1)] show ?thesis
    using assms(4) write_text_no_zero
    by (auto simp: write_program_def read_prints_def simp del: wait_run.simps)
qed

text \<open>With one byte more it prints the text: the disk holds zeros behind it.\<close>

lemma read_prints_text:
  "read_prints old 33 (write_text @ [0]) = Returns (33, write_text)"
  using write_text_no_zero by (simp add: read_prints_def takeWhile_append)

end
