(* ===== verification/Spec2Isabelle.thy ===== *)
theory Spec2Isabelle
  imports Asgn1_Module Asgn1_Writers Asgn1_Array Asgn1_Readers Asgn2_Module Asgn2_Unload Asgn2_Port Asgn2_Read_Race Asgn2_Processors Asgn_Status Asgn2_Wait Asgn2_Queue Asgn2_System Asgn2_Reuse Lab_List Lab_Locks
    Lab_Taints My_Cat Mmap_Test Seek_Test Wait_Programs
begin

text \<open>
  A verification development for the kernel drivers of COSC440.

  \<^bold>\<open>The program.\<close> The repository holds two Linux character drivers for a Raspberry Pi and a
  number of labs. \<^verbatim>\<open>src/asgn1/asgn1.c\<close> is a RAM disk: a list of pages with counters of users, data
  and pages, which file operations read, write, seek, map and control.
  \<^verbatim>\<open>src/asgn2/asgn.c\<close> is a driver for a port that delivers half-bytes by interrupt: the handler
  assembles bytes into a circular buffer and counts them per session, a tasklet moves them
  into the page list, and a reader takes one session at a time. It uses
  \<^verbatim>\<open>src/asgn2/gpio.c\<close> for the pins. The labs have RAM disks of a fixed size, shared
  (\<^verbatim>\<open>lab03/seek\<close>, \<^verbatim>\<open>lab03/wait/lab_miscdev.h\<close>) or one for each open file
  (\<^verbatim>\<open>lab04/private_data\<close>), readers that wait for a writer (\<^verbatim>\<open>lab03/wait/wait_event.c\<close>), modules
  that contend for a lock (\<^verbatim>\<open>lab04/mutex\<close>, \<^verbatim>\<open>lab04/semaphore\<close>), status files that can be written
  (\<^verbatim>\<open>lab04/proc\<close>, \<^verbatim>\<open>lab04/my_proc\<close>), a module that prints the list of modules
  (\<^verbatim>\<open>lab03/taints\<close>), and a cat program (\<^verbatim>\<open>lab01/my_cat.c\<close>). Test programs run on the drivers:
  \<^verbatim>\<open>mmap_test.c\<close>, three copies of \<^verbatim>\<open>seek_test.c\<close>, and \<^verbatim>\<open>lab03/wait/read.c\<close> with \<^verbatim>\<open>write.c\<close>.

  \<^bold>\<open>The platform.\<close> The drivers are built for the 32-bit ARM board: \<open>int\<close>, \<open>size_t\<close> and
  \<open>unsigned long\<close> have 32 bits, \<open>loff_t\<close> has 64, and a page 4096 bytes. C integers are
  integers with the conversions \<open>u32\<close>, \<open>s32\<close> and \<open>s64\<close> written where C converts or wraps
  (\<^verbatim>\<open>Prelude\<close>); registers, flags and bytes are words. Messages to the kernel log are left out.

  \<^bold>\<open>The kernel.\<close> Its services are arguments (\<^verbatim>\<open>Kernel\<close>). The allocator is a finite supply of
  answers, so that the allocation loop ends at the latest when the supply does; a page comes
  with old contents and a frame number that is not in use, and there are fewer than \<open>2 ^ 20\<close>
  frames. A copy to or from user space is an oracle that says how much is copied in each
  round. The file layer above the drivers passes counts of at most \<open>MAX_RW_COUNT\<close> and positions
  that are not negative and do not overflow (\<open>vfs_passes\<close>). \<open>class_destroy\<close> ignores null and
  error pointers; a spin lock that is taken while it is held is never got.
  An access outside a page has no result in the model: \<open>None\<close>, or \<open>Fault\<close> in assignment 2.

  \<^bold>\<open>The theories.\<close>
  \<^item> \<^verbatim>\<open>Prelude\<close>, \<^verbatim>\<open>Kernel\<close>: conversions, overwriting a region of a list, the kernel's services.
  \<^item> \<^verbatim>\<open>Interfaces\<close>: the contracts that several drivers have, as locales: a store of bytes, a
    bounded queue, a file position, the admission of users, a specification refined by runs. They are interpreted on the
    RAM disk of assignment 1 (\<^verbatim>\<open>Asgn1_Spec\<close>, \<^verbatim>\<open>Asgn1_Array\<close>), the circular buffer (\<^verbatim>\<open>Asgn2_Buffer\<close>), the
    open and release of assignment 2 (\<^verbatim>\<open>Asgn2_Serve\<close>), and the lab's disk (\<^verbatim>\<open>Lab_Ramdisk\<close>).
    \<^verbatim>\<open>Asgn2_Sim\<close> has the contract of a change of the tracker that the port does not notice,
    interpreted where states are compared: with one that is a session ahead
    (\<^verbatim>\<open>Asgn2_Wait\<close>), with a single session (\<^verbatim>\<open>Asgn2_Queue\<close>), with a slot that was never used
    (\<^verbatim>\<open>Asgn2_Reuse\<close>). What the seek test expects of a device is in \<^verbatim>\<open>Seek_Test\<close>, interpreted on
    three drivers. The contract of the modules that contend for a lock is in
    \<^verbatim>\<open>Lab_Locks\<close>, interpreted on the mutex modules and on the semaphore modules.
  \<^item> \<^verbatim>\<open>Asgn_Device\<close>: the structure both assignments declare, its invariant \<open>dev_inv\<close>, and
    \<open>free_memory_pages\<close>.
  \<^item> \<^verbatim>\<open>Asgn1\<close>: the file operations of \<^verbatim>\<open>asgn1.c\<close>, one definition per function and loop.
    \<^verbatim>\<open>Asgn1_Store\<close> proves the loops; \<^verbatim>\<open>Asgn1_Spec\<close> the operations as wholes; \<^verbatim>\<open>Asgn1_System\<close> the
    driver under any sequence of system calls, as a step relation with its reachable
    states; \<^verbatim>\<open>Asgn1_Mmap\<close> what a process sees through a mapping; \<^verbatim>\<open>Asgn1_Faults\<close> the paths that
    lose data; \<^verbatim>\<open>Asgn1_Race\<close> concurrent opens; \<^verbatim>\<open>Asgn1_Properties\<close> the resulting properties;
    \<^verbatim>\<open>Asgn1_Writers\<close> writers that take turns between the two loops of a write, which are
    serialised by their copies, and what an open for writing only in the gap does;
    \<^verbatim>\<open>Asgn1_Mapping\<close> a mapping while other calls run, \<^verbatim>\<open>Asgn1_Readers\<close> a read between whose rounds other
    calls run. \<^verbatim>\<open>Asgn1_Array\<close> has the specification of the driver, one array of bytes under a table of
    files, and its refinement by runs of system calls.
  \<^item> \<^verbatim>\<open>Modules\<close>, \<^verbatim>\<open>Asgn1_Module\<close>, \<^verbatim>\<open>Asgn2_Module\<close>: \<open>init\<close> and \<open>exit\<close> against the kernel's answers,
    as traces of calls, and the resources that a trace holds. \<^verbatim>\<open>Asgn2_Unload\<close> follows the
    driver of the port from loading through any run to unloading, \<^verbatim>\<open>Asgn2_Port\<close> composes loading,
    pins, both halves of the interrupt and the readers. \<^verbatim>\<open>Asgn_Status\<close>: the status files of
    both drivers, read back.
  \<^item> \<^verbatim>\<open>Asgn2\<close>: the interrupt handler, the tasklet and the file operations of \<^verbatim>\<open>asgn.c\<close>.
    \<^verbatim>\<open>Asgn2_Buffer\<close> shows that two interrupts make a byte and that the buffer is a queue;
    \<^verbatim>\<open>Asgn2_Spec\<close> follows a session from the port to the reader (\<open>in_session\<close> relates the
    variables to the bytes that have arrived); \<^verbatim>\<open>Asgn2_Serve\<close> serves any number of sessions up
    to the 100 slots of \<open>sizes\<close>; \<^verbatim>\<open>Asgn2_Wait\<close> has the readers that come before the end of a
    session, with the wake-ups of the tasklet, and a simulation of the port by a state that is
    one session ahead; \<^verbatim>\<open>Asgn2_Queue\<close> has the specification of the driver, a queue of
    sessions, and the simulation of its steps for any order of arrivals and readers;
    \<^verbatim>\<open>Asgn2_Typed\<close> the ranges of all variables under any half-bytes, tasklets and allocator
    answers; \<^verbatim>\<open>Asgn2_System\<close> the driver under any events and calls, as a step relation, with the
    account of its pages and users; \<^verbatim>\<open>Asgn2_Reuse\<close> a session in a slot that was used before;
    \<^verbatim>\<open>Asgn2_Faults\<close> has the paths on which the driver loses bytes, keeps its lock, or leaves
    its pages.
    \<^verbatim>\<open>Asgn2_Preempt\<close> cuts the tasklet into its accesses to what the handler shares, with interrupts
    in between: with spin locks every interleaving that ends is serial and the others
    spin, without them bytes are lost; \<^verbatim>\<open>Asgn2_Read_Race\<close> does the same for the statements of a read
    that take a session off the tracker; \<^verbatim>\<open>Asgn2_Processors\<close> runs the handler, cut into steps, on
    one processor and the tasklet on another.
  \<^item> \<^verbatim>\<open>Gpio\<close>: pins, registers and the port's set-up. \<^verbatim>\<open>Lab_Ramdisk\<close>: the RAM disks of the labs.
    \<^verbatim>\<open>Lab_Wait\<close>: readers and a writer in turns. \<^verbatim>\<open>Lab_Locks\<close>: modules loaded and unloaded in any
    order. \<^verbatim>\<open>Lab_Proc\<close>: the scanning and printing of numbers. \<^verbatim>\<open>Lab_Modules\<close>: loading and
    unloading of the labs' drivers and status files, with the contract \<open>module_life\<close>. \<^verbatim>\<open>Lab_List\<close>: the
    module with a kernel list. \<^verbatim>\<open>My_Cat\<close>: the copying loops with
    the operating system's answers given in advance. \<^verbatim>\<open>Lab_Taints\<close>: the walk over the module list.
  \<^item> \<^verbatim>\<open>Programs\<close>: how user programs are modelled, as functions of the system they run on.
    \<^verbatim>\<open>Mmap_Test\<close>, \<^verbatim>\<open>Seek_Test\<close>, \<^verbatim>\<open>Wait_Programs\<close>: the test programs composed with the models of
    their drivers, and what their runs show.

  \<^bold>\<open>Termination and bounds.\<close> Every function of the drivers is total. The allocation loop is
  measured by the supply, the tasklet's loop by the count of the buffer read as 32 bits, the pin loop by the
  pin number, the list module's by its counter; the other loops are over lists. The
  loops of the mapping test that read and write in full may not end: they are partial functions
  into \<open>option\<close>, and \<^verbatim>\<open>Mmap_Test\<close> has a theorem for a run that ends and one for runs that do not.
  No fuel is used.

  \<^bold>\<open>What is not modelled.\<close> The contents of log messages but those of the modules that define the
  locks; interleavings inside an operation other than the opens of \<^verbatim>\<open>Asgn1_Race\<close>, the writes of
  \<^verbatim>\<open>Asgn1_Writers\<close>, the reads of \<^verbatim>\<open>Asgn1_Readers\<close>, the tasklet of \<^verbatim>\<open>Asgn2_Preempt\<close>, the handler
  of \<^verbatim>\<open>Asgn2_Processors\<close>, the reads of \<^verbatim>\<open>Asgn2_Read_Race\<close>, the waits of
  \<^verbatim>\<open>Asgn2_Wait\<close> and the reads of \<^verbatim>\<open>Lab_Wait\<close>; interleavings inside a list
  operation; the messages of the test programs to standard error. \<^verbatim>\<open>src/asgn1/comments.c\<close> is a block of binary
  data, not program text.
\<close>

end
